(* ===== verification/Prelude.thy ===== *)
theory Prelude
  imports Main "HOL-Library.Word" "HOL-Library.Monad_Syntax"
begin

text \<open>
  Shared vocabulary of the ScaraOS development: the machine integer types of
  \<^verbatim>\<open>include/arch-ia32/types.h\<close>, the outcome of a kernel function, and the generic lemmas
  on options, lists and words that the component theories use.

  A kernel function that can stop the machine returns an \<open>option\<close>: \<open>Some r\<close> is a
  normal return, \<open>None\<close> is a run that does not return, because a \<open>BUG_ON\<close> fired (the
  Makefile builds with \<open>KDEBUG=1\<close>, so \<open>BUG_ON\<close> calls \<open>panic\<close>), because a NULL or
  out-of-range access faulted in kernel mode, or because the caller would sleep for ever.
  Pointers are 32-bit addresses with \<open>NULL = 0\<close>, so a C function that returns NULL is
  \<open>Some 0\<close>, never \<open>None\<close>.
\<close>

unbundle bit_operations_syntax

type_synonym u8 = "8 word"
type_synonym u16 = "16 word"
type_synonym u32 = "32 word"
type_synonym u64 = "64 word"
type_synonym addr = "32 word"

abbreviation NULL :: addr where
  "NULL \<equiv> 0"

text \<open>\<open>BUG_ON(x)\<close> of \<^verbatim>\<open>include/scaraOS/kernel.h\<close> with \<open>KDEBUG\<close> set.\<close>

definition BUG_ON :: "bool \<Rightarrow> unit option" where
  "BUG_ON x = (if x then None else Some ())"

text \<open>
  A semaphore as one kernel path sees it. \<open>sem_P\<close> of an available semaphore takes one
  unit; of an unavailable one it sleeps, and a path that runs alone is never woken, so the
  outcome is \<open>None\<close>. The scheduling of several sleepers is the subject of the theory
  \<open>Sched\<close>; the theories of sequential components use these two functions and so have to show
  that every path gives back what it takes.
\<close>

definition sem_down :: "int \<Rightarrow> int option" where
  "sem_down v = (if v \<le> 0 then None else Some (v - 1))"

definition sem_up :: "int \<Rightarrow> int" where
  "sem_up v = v + 1"

named_theorems kernel_simps \<open>unfolding rules of kernel helpers\<close>

lemma BUG_ON_bind [simp]: "Option.bind (BUG_ON b) f = (if b then None else f ())"
  by (simp add: BUG_ON_def)

lemma BUG_ON_eq_Some [simp]: "BUG_ON b = Some u \<longleftrightarrow> \<not> b"
  by (simp add: BUG_ON_def)

lemma if_None_eq_Some [simp]: "(if b then None else x) = Some r \<longleftrightarrow> \<not> b \<and> x = Some r"
  by simp

lemma sem_down_pos [simp]: "0 < v \<Longrightarrow> sem_down v = Some (v - 1)"
  by (simp add: sem_down_def)

lemma sem_up_eq [simp]: "sem_up v = v + 1"
  by (simp add: sem_up_def)

subsection \<open>Lists\<close>

lemma remove1_split: "e \<notin> set xs \<Longrightarrow> remove1 e (xs @ e # ys) = xs @ ys"
  by (simp add: remove1_append)

lemma distinct_remove1_split:
  assumes "e \<in> set xs" "distinct xs"
  obtains ys zs where "xs = ys @ e # zs" "remove1 e xs = ys @ zs" "e \<notin> set ys" "e \<notin> set zs"
proof -
  from assms(1) obtain ys zs where xs: "xs = ys @ e # zs" "e \<notin> set ys"
    by (meson split_list_first)
  with assms(2) show thesis
    by (intro that[of ys zs]) (auto simp: remove1_append)
qed

subsection \<open>Words\<close>

lemma take_bit_small: "unat w < 2 ^ n \<Longrightarrow> take_bit n (w :: 'a::len word) = w"
  by (simp add: word_unat_eq_iff unsigned_take_bit_eq take_bit_nat_eq_self)

lemma of_nat_unat_eq [simp]: "unat w = n \<Longrightarrow> of_nat n = (w :: 'a::len word)"
  by auto

lemma word_of_sint: "word_of_int (sint w) = (w :: 'a::len word)"
  by transfer (simp add: take_bit_signed_take_bit)

lemma uint_sint: "0 \<le> sint w \<Longrightarrow> uint (w :: 'a::len word) = sint w"
proof -
  assume "0 \<le> sint w"
  moreover have "sint w < 2 ^ LENGTH('a)"
    using sint_less[of w] by (rule less_le_trans) simp
  ultimately show ?thesis
    by (metis mod_pos_pos_trivial uint_word_of_int word_of_sint)
qed

lemma uint_sint_neg: "sint w < 0 \<Longrightarrow> uint (w :: 'a::len word) = sint w + 2 ^ LENGTH('a)"
proof -
  assume "sint w < 0"
  moreover have "- (2 ^ LENGTH('a)) < sint w"
    using sint_greater_eq[of w] by (rule less_le_trans[rotated]) simp
  ultimately have "(sint w + 2 ^ LENGTH('a)) mod 2 ^ LENGTH('a) = sint w + 2 ^ LENGTH('a)"
    by (intro mod_pos_pos_trivial) auto
  then show ?thesis
    by (metis mod_add_self2 uint_word_of_int word_of_sint)
qed

end
