(* ===== verification/RBTree.thy ===== *)
theory RBTree
  imports Prelude
begin

text \<open>
  Intrusive red-black trees (\<^verbatim>\<open>kernel/rbtree.c\<close>, \<^verbatim>\<open>include/scaraOS/rbtree.h\<close>). A node is at
  an address that is a multiple of four; its word \<open>rb_parent_color\<close> packs the address of its parent
  with its colour in the low bits. The heap of nodes and the root pointer are threaded explicitly.
  Following a NULL pointer does not return.

  Where the source has two copies of the same code with left and right exchanged, the model has one
  definition that takes the side as an argument.
\<close>

subsection \<open>Nodes\<close>

text \<open>\<open>False\<close> is \<open>RB_LEFT\<close> and \<open>True\<close> is \<open>RB_RIGHT\<close>, so \<open>RB_LEFT ^ side\<close> is
  \<open>side\<close> and \<open>RB_RIGHT ^ side\<close> its negation.\<close>

record rb_node =
  rb_parent_color :: u32
  rb_child :: "bool \<Rightarrow> addr"

abbreviation RB_LEFT :: bool where "RB_LEFT \<equiv> False"
abbreviation RB_RIGHT :: bool where "RB_RIGHT \<equiv> True"

definition RB_RED :: u32 where "RB_RED = 0"
definition RB_BLACK :: u32 where "RB_BLACK = 1"

type_synonym rb_heap = "addr \<Rightarrow> rb_node"

definition rb_parent :: "rb_heap \<Rightarrow> addr \<Rightarrow> addr" where
  "rb_parent h r = rb_parent_color (h r) AND NOT 3"

definition rb_color :: "rb_heap \<Rightarrow> addr \<Rightarrow> u32" where
  "rb_color h r = rb_parent_color (h r) AND 1"

definition rb_is_red :: "rb_heap \<Rightarrow> addr \<Rightarrow> bool" where
  "rb_is_red h r \<longleftrightarrow> rb_color h r = 0"

definition rb_is_black :: "rb_heap \<Rightarrow> addr \<Rightarrow> bool" where
  "rb_is_black h r \<longleftrightarrow> rb_color h r \<noteq> 0"

abbreviation upd_pc :: "addr \<Rightarrow> (u32 \<Rightarrow> u32) \<Rightarrow> rb_heap \<Rightarrow> rb_heap" where
  "upd_pc r f h \<equiv> h(r := (h r)\<lparr>rb_parent_color := f (rb_parent_color (h r))\<rparr>)"

definition rb_set_red :: "rb_heap \<Rightarrow> addr \<Rightarrow> rb_heap" where
  "rb_set_red h r = upd_pc r (\<lambda>w. w AND NOT 1) h"

definition rb_set_black :: "rb_heap \<Rightarrow> addr \<Rightarrow> rb_heap" where
  "rb_set_black h r = upd_pc r (\<lambda>w. w OR 1) h"

definition rb_set_parent :: "rb_heap \<Rightarrow> addr \<Rightarrow> addr \<Rightarrow> rb_heap" where
  "rb_set_parent h rb p = upd_pc rb (\<lambda>w. (w AND 3) OR p) h"

definition rb_set_color :: "rb_heap \<Rightarrow> addr \<Rightarrow> u32 \<Rightarrow> rb_heap" where
  "rb_set_color h rb color = upd_pc rb (\<lambda>w. (w AND NOT 1) OR color) h"

definition set_child :: "rb_heap \<Rightarrow> addr \<Rightarrow> bool \<Rightarrow> addr \<Rightarrow> rb_heap" where
  "set_child h r s v = h(r := (h r)\<lparr>rb_child := (rb_child (h r))(s := v)\<rparr>)"

definition RB_EMPTY_NODE :: "rb_heap \<Rightarrow> addr \<Rightarrow> bool" where
  "RB_EMPTY_NODE h node \<longleftrightarrow> rb_parent h node = node"

definition RB_CLEAR_NODE :: "rb_heap \<Rightarrow> addr \<Rightarrow> rb_heap" where
  "RB_CLEAR_NODE h node = rb_set_parent h node node"

text \<open>The slot \<open>rb_link\<close> is the root pointer or a child slot of \<open>parent\<close>.\<close>

definition rb_link_node :: "rb_heap \<Rightarrow> addr \<Rightarrow> addr \<Rightarrow> addr \<Rightarrow> (addr \<times> bool) option \<Rightarrow> rb_heap \<times> addr" where
  "rb_link_node h root node parent link =
     (let h = h(node := (h node)\<lparr>rb_parent_color := parent\<rparr>);
          h = set_child h node RB_RIGHT NULL;
          h = set_child h node RB_LEFT NULL
      in case link of None \<Rightarrow> (h, node) | Some (p, s) \<Rightarrow> (set_child h p s node, root))"

subsection \<open>Insertion\<close>

text \<open>\<open>parent->rb_child[..] = v\<close> where the source tests on which side \<open>old\<close> hangs, or the
  root pointer when there is no parent.\<close>

definition relink :: "rb_heap \<Rightarrow> addr \<Rightarrow> addr \<Rightarrow> bool \<Rightarrow> addr \<Rightarrow> addr \<Rightarrow> rb_heap \<times> addr" where
  "relink h root parent side old v =
     (if parent \<noteq> NULL
      then (if old = rb_child (h parent) side then set_child h parent side v
            else set_child h parent (\<not> side) v, root)
      else (h, v))"

definition rb_rotate :: "bool \<Rightarrow> addr \<Rightarrow> rb_heap \<times> addr \<Rightarrow> (rb_heap \<times> addr) option" where
  "rb_rotate side node st =
     (let (h, root) = st;
          other = rb_child (h node) (\<not> side);
          parent = rb_parent h node
      in if other = NULL then None
         else
           let v = rb_child (h other) side;
               h = set_child h node (\<not> side) v;
               h = (if v \<noteq> NULL then rb_set_parent h (rb_child (h other) side) node else h);
               h = set_child h other side node;
               h = rb_set_parent h other parent;
               (h, root) = relink h root parent side node other
           in Some (rb_set_parent h node other, root))"

partial_function (option) rb_insert_loop :: "addr \<Rightarrow> rb_heap \<times> addr \<Rightarrow> (rb_heap \<times> addr) option" where
  "rb_insert_loop node st =
     (let (h, root) = st; parent = rb_parent h node
      in if parent \<noteq> NULL \<and> rb_is_red h parent
         then let gparent = rb_parent h parent
              in if gparent = NULL then None
                 else
                   let side = (parent \<noteq> rb_child (h gparent) RB_LEFT);
                       uncle = rb_child (h gparent) (\<not> side)
                   in if uncle \<noteq> NULL \<and> rb_is_red h uncle
                      then let h = rb_set_black h uncle;
                               h = rb_set_black h parent;
                               h = rb_set_red h gparent
                           in rb_insert_loop gparent (h, root)
                      else do {
                        (node, parent, (h, root)) \<leftarrow>
                          (if rb_child (h parent) (\<not> side) = node
                           then do { st \<leftarrow> rb_rotate side parent (h, root); Some (parent, node, st) }
                           else Some (node, parent, (h, root)));
                        let h = rb_set_black h parent;
                        let h = rb_set_red h gparent;
                        st \<leftarrow> rb_rotate (\<not> side) gparent (h, root);
                        rb_insert_loop node st
                      }
         else Some st)"

definition rb_insert_color :: "addr \<Rightarrow> rb_heap \<times> addr \<Rightarrow> (rb_heap \<times> addr) option" where
  "rb_insert_color node st = do {
     (h, root) \<leftarrow> rb_insert_loop node st;
     if root = NULL then None else Some (rb_set_black h root, root)
   }"

subsection \<open>Removal\<close>

text \<open>\<open>!n || rb_is_black(n)\<close>\<close>

definition black_or_null :: "rb_heap \<Rightarrow> addr \<Rightarrow> bool" where
  "black_or_null h n \<longleftrightarrow> n = NULL \<or> rb_is_black h n"

partial_function (option) rb_erase_loop ::
  "addr \<Rightarrow> addr \<Rightarrow> rb_heap \<times> addr \<Rightarrow> (addr \<times> rb_heap \<times> addr) option" where
  "rb_erase_loop node parent st =
     (let (h, root) = st
      in if black_or_null h node \<and> node \<noteq> root
         then if parent = NULL then None
         else
           let side = (rb_child (h parent) RB_LEFT \<noteq> node);
               other = rb_child (h parent) (\<not> side)
           in if other = NULL then None
              else do {
                (other, (h, root)) \<leftarrow>
                  (if rb_is_red h other
                   then do {
                     let h = rb_set_black h other;
                     let h = rb_set_red h parent;
                     (h, root) \<leftarrow> rb_rotate side parent (h, root);
                     Some (rb_child (h parent) (\<not> side), (h, root))
                   }
                   else Some (other, (h, root)));
                if other = NULL then None
                else if black_or_null h (rb_child (h other) RB_LEFT) \<and> black_or_null h (rb_child (h other) RB_RIGHT)
                then let h = rb_set_red h other in rb_erase_loop parent (rb_parent h parent) (h, root)
                else do {
                  (other, (h, root)) \<leftarrow>
                    (if black_or_null h (rb_child (h other) (\<not> side))
                     then do {
                       let h = rb_set_black h (rb_child (h other) side);
                       let h = rb_set_red h other;
                       (h, root) \<leftarrow> rb_rotate (\<not> side) other (h, root);
                       Some (rb_child (h parent) (\<not> side), (h, root))
                     }
                     else Some (other, (h, root)));
                  let h = rb_set_color h other (rb_color h parent);
                  let h = rb_set_black h parent;
                  let h = rb_set_black h (rb_child (h other) (\<not> side));
                  (h, root) \<leftarrow> rb_rotate side parent (h, root);
                  Some (root, (h, root))
                }
              }
         else Some (node, st))"

definition rb_erase_color :: "addr \<Rightarrow> addr \<Rightarrow> rb_heap \<times> addr \<Rightarrow> (rb_heap \<times> addr) option" where
  "rb_erase_color node parent st = do {
     (node, (h, root)) \<leftarrow> rb_erase_loop node parent st;
     Some (if node \<noteq> NULL then rb_set_black h node else h, root)
   }"

partial_function (option) rb_descend :: "rb_heap \<Rightarrow> bool \<Rightarrow> addr \<Rightarrow> addr option" where
  "rb_descend h side n =
     (if rb_child (h n) side \<noteq> NULL then rb_descend h side (rb_child (h n) side) else Some n)"

text \<open>The case of two children: the successor takes the place of the node.\<close>

definition rb_erase_two :: "addr \<Rightarrow> rb_heap \<times> addr \<Rightarrow> (rb_heap \<times> addr \<times> addr \<times> addr \<times> u32) option" where
  "rb_erase_two old st = do {
     let (h, root) = st;
     node \<leftarrow> rb_descend h RB_LEFT (rb_child (h old) RB_RIGHT);
     let (h, root) = relink h root (rb_parent h old) RB_LEFT old node;
     let child = rb_child (h node) RB_RIGHT;
     let parent = rb_parent h node;
     let color = rb_color h node;
     let (h, parent) =
       (if parent = old then (h, node)
        else
          let h = (if child \<noteq> NULL then rb_set_parent h child parent else h);
              h = set_child h parent RB_LEFT child;
              h = set_child h node RB_RIGHT (rb_child (h old) RB_RIGHT);
              h = rb_set_parent h (rb_child (h old) RB_RIGHT) node
          in (h, parent));
     let h = h(node := (h node)\<lparr>rb_parent_color := rb_parent_color (h old)\<rparr>);
     let h = set_child h node RB_LEFT (rb_child (h old) RB_LEFT);
     let h = rb_set_parent h (rb_child (h old) RB_LEFT) node;
     Some (h, root, child, parent, color)
   }"

definition rb_erase_one :: "addr \<Rightarrow> addr \<Rightarrow> rb_heap \<times> addr \<Rightarrow> rb_heap \<times> addr \<times> addr \<times> addr \<times> u32" where
  "rb_erase_one node child st =
     (let (h, root) = st;
          parent = rb_parent h node;
          color = rb_color h node;
          h = (if child \<noteq> NULL then rb_set_parent h child parent else h);
          (h, root) = relink h root parent RB_LEFT node child
      in (h, root, child, parent, color))"

definition rb_erase :: "addr \<Rightarrow> rb_heap \<times> addr \<Rightarrow> (rb_heap \<times> addr) option" where
  "rb_erase node st = do {
     let (h, root) = st;
     (h, root, child, parent, color) \<leftarrow>
       (if rb_child (h node) RB_LEFT = NULL then Some (rb_erase_one node (rb_child (h node) RB_RIGHT) st)
        else if rb_child (h node) RB_RIGHT = NULL then Some (rb_erase_one node (rb_child (h node) RB_LEFT) st)
        else rb_erase_two node st);
     if color = RB_BLACK then rb_erase_color child parent (h, root) else Some (h, root)
   }"

subsection \<open>Traversal\<close>

text \<open>\<open>rb_first\<close> and \<open>rb_last\<close>.\<close>

definition rb_end :: "rb_heap \<Rightarrow> addr \<Rightarrow> bool \<Rightarrow> addr option" where
  "rb_end h root side = (if root = NULL then Some NULL else rb_descend h side root)"

definition rb_first :: "rb_heap \<Rightarrow> addr \<Rightarrow> addr option" where
  "rb_first h root = rb_end h root RB_LEFT"

definition rb_last :: "rb_heap \<Rightarrow> addr \<Rightarrow> addr option" where
  "rb_last h root = rb_end h root RB_RIGHT"

partial_function (option) rb_ascend :: "rb_heap \<Rightarrow> bool \<Rightarrow> addr \<Rightarrow> addr option" where
  "rb_ascend h side node =
     (let parent = rb_parent h node
      in if parent \<noteq> NULL \<and> node = rb_child (h parent) side then rb_ascend h side parent else Some parent)"

text \<open>\<open>rb_next\<close> and \<open>rb_prev\<close>.\<close>

definition rb_step :: "rb_heap \<Rightarrow> bool \<Rightarrow> addr \<Rightarrow> addr option" where
  "rb_step h side node =
     (if rb_parent h node = node then Some NULL
      else if rb_child (h node) side \<noteq> NULL then rb_descend h (\<not> side) (rb_child (h node) side)
      else rb_ascend h side node)"

definition rb_next :: "rb_heap \<Rightarrow> addr \<Rightarrow> addr option" where
  "rb_next h node = rb_step h RB_RIGHT node"

definition rb_prev :: "rb_heap \<Rightarrow> addr \<Rightarrow> addr option" where
  "rb_prev h node = rb_step h RB_LEFT node"

definition rb_replace_node :: "addr \<Rightarrow> addr \<Rightarrow> rb_heap \<times> addr \<Rightarrow> rb_heap \<times> addr" where
  "rb_replace_node victim new st =
     (let (h, root) = st;
          (h, root) = relink h root (rb_parent h victim) RB_LEFT victim new;
          h = (if rb_child (h victim) RB_LEFT \<noteq> NULL then rb_set_parent h (rb_child (h victim) RB_LEFT) new else h);
          h = (if rb_child (h victim) RB_RIGHT \<noteq> NULL then rb_set_parent h (rb_child (h victim) RB_RIGHT) new else h)
      in (h(new := h victim), root))"

subsection \<open>The packed word\<close>

text \<open>Addresses of nodes are multiples of four; NULL is one of them.\<close>

definition aligned :: "addr \<Rightarrow> bool" where
  "aligned a \<longleftrightarrow> a AND 3 = 0"

lemma aligned_0 [simp]: "aligned 0"
  by (simp add: aligned_def)

lemma low_masks: "(3 :: u32) = mask 2" "(1 :: u32) = mask 1" "(- 4 :: u32) = NOT (mask 2)" "(- 2 :: u32) = NOT (mask 1)"
  by (simp_all add: mask_eq_exp_minus_1)

lemma bit_low: "bit (mask k :: u32) n \<longleftrightarrow> n < 32 \<and> n < k"
  by (simp add: bit_mask_iff)

lemma aligned_bits: "aligned a \<longleftrightarrow> (\<forall>n<2. \<not> bit a n)"
proof
  assume "aligned a"
  then have low: "\<not> bit (a AND mask 2) n" for n by (simp add: aligned_def low_masks(1))
  have "\<not> bit a n" if "n < 2" for n using low[of n] that by (simp add: bit_and_iff bit_low)
  then show "\<forall>n<2. \<not> bit a n" by blast
next
  assume *: "\<forall>n<2. \<not> bit a n"
  show "aligned a"
    unfolding aligned_def low_masks(1) by (rule bit_word_eqI) (use * in \<open>auto simp: bit_and_iff bit_low\<close>)
qed

lemma pack_parent: "aligned p \<Longrightarrow> ((w AND 3) OR p) AND - 4 = p" for w p :: u32
  unfolding low_masks aligned_bits
  by (rule bit_word_eqI) (auto simp: bit_and_iff bit_or_iff bit_not_iff bit_low bit_1_iff)

lemma pack_color: "aligned p \<Longrightarrow> ((w AND 3) OR p) AND 1 = w AND 1" for w p :: u32
  unfolding low_masks aligned_bits
  by (rule bit_word_eqI) (auto simp: bit_and_iff bit_or_iff bit_not_iff bit_low bit_1_iff)

lemma color_parent:
  "(w AND - 2) AND - 4 = w AND - 4" "(w OR 1) AND - 4 = w AND - 4"
  "((w AND - 2) OR 1) AND - 4 = w AND - 4" for w :: u32
  unfolding low_masks by (rule bit_word_eqI; auto simp: bit_and_iff bit_or_iff bit_not_iff bit_low bit_1_iff)+

lemma color_set: "(w AND - 2) AND 1 = 0" "(w OR 1) AND 1 = 1" "((w AND - 2) OR 1) AND 1 = 1" for w :: u32
  unfolding low_masks by (rule bit_word_eqI; auto simp: bit_and_iff bit_or_iff bit_not_iff bit_low bit_1_iff)+

subsection \<open>Field updates\<close>

lemma set_child_simps [simp]:
  "rb_child (set_child h r s v q) = (if q = r then (rb_child (h r))(s := v) else rb_child (h q))"
  "rb_parent (set_child h r s v) q = rb_parent h q" "rb_color (set_child h r s v) q = rb_color h q"
  by (simp_all add: set_child_def rb_parent_def rb_color_def)

lemma set_color_simps [simp]:
  "rb_child (rb_set_red h r q) = rb_child (h q)" "rb_child (rb_set_black h r q) = rb_child (h q)"
  "rb_parent (rb_set_red h r) q = rb_parent h q" "rb_parent (rb_set_black h r) q = rb_parent h q"
  "rb_color (rb_set_red h r) q = (if q = r then RB_RED else rb_color h q)"
  "rb_color (rb_set_black h r) q = (if q = r then RB_BLACK else rb_color h q)"
  by (simp_all add: rb_set_red_def rb_set_black_def rb_parent_def rb_color_def color_parent color_set RB_RED_def RB_BLACK_def)

lemma set_parent_simps [simp]:
  "rb_child (rb_set_parent h r p q) = rb_child (h q)"
  "aligned p \<Longrightarrow> rb_parent (rb_set_parent h r p) q = (if q = r then p else rb_parent h q)"
  "aligned p \<Longrightarrow> rb_color (rb_set_parent h r p) q = rb_color h q"
  by (simp_all add: rb_set_parent_def rb_parent_def rb_color_def pack_parent pack_color)

lemma rb_color_01: "rb_color h r = RB_RED \<or> rb_color h r = RB_BLACK"
proof -
  have "w AND 1 = 0 \<or> w AND 1 = 1" for w :: u32
    by (cases "bit w 0") (auto simp: and_one_eq mod_2_eq_odd bit_0)
  then show ?thesis by (simp add: rb_color_def RB_RED_def RB_BLACK_def)
qed

lemma rb_is_red_iff [simp]: "rb_is_red h r \<longleftrightarrow> rb_color h r = RB_RED"
  by (simp add: rb_is_red_def RB_RED_def)

lemma rb_is_black_iff [simp]: "rb_is_black h r \<longleftrightarrow> rb_color h r = RB_BLACK"
  using rb_color_01[of h r] by (auto simp: rb_is_black_def RB_RED_def RB_BLACK_def)

lemma colors_distinct [simp]: "RB_RED \<noteq> RB_BLACK" "RB_BLACK \<noteq> RB_RED"
  by (simp_all add: RB_RED_def RB_BLACK_def)

subsection \<open>Trees in the heap\<close>

text \<open>The tree a pointer stands for. \<open>mk s\<close> builds a node from its child on side \<open>s\<close> and the
  other one.\<close>

datatype rbt = Lf | Nd rbt addr u32 rbt

fun mk :: "bool \<Rightarrow> addr \<Rightarrow> u32 \<Rightarrow> rbt \<Rightarrow> rbt \<Rightarrow> rbt" where
  "mk s a c x y = (if s then Nd y a c x else Nd x a c y)"

primrec nodes :: "rbt \<Rightarrow> addr list" where
  "nodes Lf = []"
| "nodes (Nd l a c r) = nodes l @ a # nodes r"

primrec tree_at :: "rb_heap \<Rightarrow> addr \<Rightarrow> addr \<Rightarrow> rbt \<Rightarrow> bool" where
  "tree_at h par p Lf \<longleftrightarrow> p = NULL"
| "tree_at h par p (Nd l a c r) \<longleftrightarrow> p = a \<and> a \<noteq> NULL \<and> aligned a \<and> rb_parent h a = par \<and> rb_color h a = c \<and>
     tree_at h a (rb_child (h a) RB_LEFT) l \<and> tree_at h a (rb_child (h a) RB_RIGHT) r"

text \<open>The path from a subtree to the root: at each step the side the subtree hangs on, the node and
  the sibling.\<close>

type_synonym path = "(bool \<times> addr \<times> u32 \<times> rbt) list"

fun plug :: "path \<Rightarrow> rbt \<Rightarrow> rbt" where
  "plug [] t = t"
| "plug ((s, a, c, u) # ps) t = plug ps (mk s a c t u)"

fun path_nodes :: "path \<Rightarrow> addr set" where
  "path_nodes [] = {}"
| "path_nodes ((s, a, c, u) # ps) = insert a (set (nodes u)) \<union> path_nodes ps"

fun path_at :: "rb_heap \<Rightarrow> addr \<Rightarrow> addr \<Rightarrow> addr \<Rightarrow> path \<Rightarrow> bool" where
  "path_at h root p par [] \<longleftrightarrow> par = NULL \<and> root = p"
| "path_at h root p par ((s, a, c, u) # ps) \<longleftrightarrow>
     par = a \<and> a \<noteq> NULL \<and> aligned a \<and> rb_color h a = c \<and> rb_child (h a) s = p \<and>
     tree_at h a (rb_child (h a) (\<not> s)) u \<and> path_at h root a (rb_parent h a) ps"

lemma nodes_mk: "nodes (mk s a c x y) = (if s then nodes y @ a # nodes x else nodes x @ a # nodes y)"
  by simp

lemma set_nodes_mk [simp]: "set (nodes (mk s a c x y)) = insert a (set (nodes x) \<union> set (nodes y))"
  by auto

lemma distinct_mk [simp]:
  "distinct (nodes (mk s a c x y)) \<longleftrightarrow> a \<notin> set (nodes x) \<and> a \<notin> set (nodes y) \<and> distinct (nodes x) \<and>
     distinct (nodes y) \<and> set (nodes x) \<inter> set (nodes y) = {}"
  by auto

lemma tree_at_mk [simp]:
  "tree_at h par p (mk s a c x y) \<longleftrightarrow> p = a \<and> a \<noteq> NULL \<and> aligned a \<and> rb_parent h a = par \<and> rb_color h a = c \<and>
     tree_at h a (rb_child (h a) s) x \<and> tree_at h a (rb_child (h a) (\<not> s)) y"
  by auto

declare mk.simps [simp del]

lemma tree_at_cong:
  "(\<And>a. a \<in> set (nodes t) \<Longrightarrow> rb_parent h' a = rb_parent h a \<and> rb_color h' a = rb_color h a \<and> rb_child (h' a) = rb_child (h a))
   \<Longrightarrow> tree_at h' par p t = tree_at h par p t"
  by (induction t arbitrary: par p) auto

lemma path_at_cong:
  "(\<And>a. a \<in> path_nodes ps \<Longrightarrow> rb_parent h' a = rb_parent h a \<and> rb_color h' a = rb_color h a \<and> rb_child (h' a) = rb_child (h a))
   \<Longrightarrow> path_at h' root p par ps = path_at h root p par ps"
proof (induction ps arbitrary: p par)
  case (Cons x ps)
  obtain s a c u where x: "x = (s, a, c, u)" by (cases x)
  have "tree_at h' a q u = tree_at h a q u" for q
    using Cons.prems by (intro tree_at_cong) (simp add: x)
  with Cons show ?case by (simp add: x)
qed simp

lemma tree_at_ptr: "tree_at h par p t \<Longrightarrow> p \<noteq> NULL \<Longrightarrow> p \<in> set (nodes t)"
  by (cases t) auto

lemma tree_at_aligned: "tree_at h par p t \<Longrightarrow> aligned p"
  by (cases t) auto

lemma path_at_aligned: "path_at h root p par ps \<Longrightarrow> aligned par"
  by (cases ps) auto

lemma path_at_par: "path_at h root p par ps \<Longrightarrow> par \<noteq> NULL \<Longrightarrow> par \<in> path_nodes ps"
  by (cases ps) auto

lemma tree_at_parent: "tree_at h par p t \<Longrightarrow> p \<noteq> NULL \<Longrightarrow> rb_parent h p = par"
  by (cases t) auto

text \<open>The whole tree is a path and a subtree.\<close>

lemma plug_at:
  "tree_at h par p t \<Longrightarrow> path_at h root p par ps \<Longrightarrow> (t \<noteq> Lf \<or> ps \<noteq> [] \<or> root = NULL) \<Longrightarrow> tree_at h NULL root (plug ps t)"
  by (induction ps t arbitrary: par p rule: plug.induct) (auto simp: mk.simps)

lemma set_nodes_plug: "set (nodes (plug ps t)) = set (nodes t) \<union> path_nodes ps"
  by (induction ps t rule: plug.induct) auto

lemma distinct_plug:
  "distinct (nodes (plug ps t)) \<Longrightarrow> distinct (nodes t) \<and> set (nodes t) \<inter> path_nodes ps = {}"
  by (induction ps t rule: plug.induct) (auto simp: )

lemma nodes_plug_cong: "nodes t = nodes t' \<Longrightarrow> nodes (plug ps t) = nodes (plug ps t')"
  by (induction ps t arbitrary: t' rule: plug.induct) (auto simp: nodes_mk)

subsection \<open>Rotation\<close>

lemma distinct_path:
  assumes "distinct (nodes (plug ((s, a, c, u) # ps) t))"
  shows "a \<notin> set (nodes u)" "a \<notin> path_nodes ps" "a \<notin> set (nodes t)" "set (nodes u) \<inter> path_nodes ps = {}"
    "set (nodes t) \<inter> set (nodes u) = {}" "set (nodes t) \<inter> path_nodes ps = {}" "distinct (nodes u)" "distinct (nodes t)"
  using distinct_plug[of ps "mk s a c t u"] assms by auto

lemma path_top:
  assumes "path_at h root p par ps" "distinct (nodes (plug ps t))"
  shows "par \<notin> path_nodes (tl ps)" and "ps = (s, b, e, u) # qs \<Longrightarrow> b \<notin> set (nodes u)"
proof -
  show "b \<notin> set (nodes u)" if "ps = (s, b, e, u) # qs"
    using distinct_path(1)[OF assms(2)[unfolded that]] .
  show "par \<notin> path_nodes (tl ps)"
  proof (cases ps)
    case (Cons z qs)
    obtain s b e u where z: "z = (s, b, e, u)" by (cases z)
    show ?thesis using assms(1) distinct_path(2)[OF assms(2)[unfolded Cons z]] by (simp add: Cons z)
  qed simp
qed

text \<open>What \<open>relink\<close> does where the old pointer hangs on the path.\<close>

lemma relink_path:
  assumes "path_at h root old par ps" "old \<noteq> NULL" "old \<notin> path_nodes ps" "distinct (nodes (plug ps t))"
    "relink h root par side old v = (h', root')"
  shows "path_at h' root' v par ps"
    and "rb_parent h' = rb_parent h" "rb_color h' = rb_color h"
    and "q \<noteq> par \<Longrightarrow> rb_child (h' q) = rb_child (h q)" and "par = NULL \<Longrightarrow> h' = h" 
proof -
  show "rb_parent h' = rb_parent h" "rb_color h' = rb_color h" "q \<noteq> par \<Longrightarrow> rb_child (h' q) = rb_child (h q)"
    "par = NULL \<Longrightarrow> h' = h"
    using assms(5) by (auto simp: relink_def split: if_splits)
  show "path_at h' root' v par ps"
  proof (cases ps)
    case Nil
    with assms show ?thesis by (auto simp: relink_def)
  next
    case (Cons x qs)
    obtain s a c u where x: "x = (s, a, c, u)" by (cases x)
    have a: "par = a" "a \<noteq> NULL" "aligned a" "rb_color h a = c" "rb_child (h a) s = old"
      "tree_at h a (rb_child (h a) (\<not> s)) u" "path_at h root a (rb_parent h a) qs"
      using assms(1) by (simp_all add: Cons x)
    have "rb_child (h a) (\<not> s) \<noteq> old"
      using tree_at_ptr[OF a(6)] assms(2,3) by (auto simp: Cons x)
    then have h': "h' = set_child h a s v" "root' = root"
      using assms(5) a(1,2,5) by (cases s; cases side; auto simp: relink_def split: if_splits)+
    have "tree_at h' a q u = tree_at h a q u" for q
      using path_top(2)[OF assms(1,4) Cons[unfolded x]] by (intro tree_at_cong) (auto simp: h')
    moreover have "path_at h' root' p par' qs = path_at h root p par' qs" for p par'
      using path_top(1)[OF assms(1,4)] by (simp add: h'(2)) (rule path_at_cong, auto simp: h' Cons x a(1))
    ultimately show ?thesis
      using a by (simp add: Cons x h')
  qed
qed

lemma tree_at_reparent:
  assumes "tree_at h q v t" "distinct (nodes t)"
    "\<And>a. a \<in> set (nodes t) \<Longrightarrow> rb_color h' a = rb_color h a \<and> rb_child (h' a) = rb_child (h a) \<and>
       rb_parent h' a = (if a = v then q' else rb_parent h a)"
  shows "tree_at h' q' v t"
proof (cases t)
  case (Nd l a c r)
  have "tree_at h' a p l = tree_at h a p l" "tree_at h' a p r = tree_at h a p r" for p
    using assms by (intro tree_at_cong; auto simp: Nd)+
  with assms show ?thesis by (auto simp: Nd)
qed (use assms in simp)

lemma rotate_at:
  assumes T: "tree_at h par n (mk s n c x (mk s k d y z))" and P: "path_at h root n par ps"
    and D: "distinct (nodes (plug ps (mk s n c x (mk s k d y z))))"
  shows "\<exists>h' root'. rb_rotate s n (h, root) = Some (h', root') \<and>
    tree_at h' par k (mk s k d (mk s n c x y) z) \<and> path_at h' root' k par ps"
proof -
  have D1: "distinct (nodes (mk s n c x (mk s k d y z)))"
    "set (nodes (mk s n c x (mk s k d y z))) \<inter> path_nodes ps = {}"
    using distinct_plug[OF D] by blast+
  let ?v = "rb_child (h k) s"
  have kn: "rb_child (h n) (\<not> s) = k" "k \<noteq> NULL" "n \<noteq> NULL" "aligned k" "aligned n" "k \<noteq> n"
    "rb_parent h n = par" "rb_parent h k = n" "rb_color h n = c" "rb_color h k = d"
    "tree_at h n (rb_child (h n) s) x" "tree_at h k ?v y" "tree_at h k (rb_child (h k) (\<not> s)) z"
    using T D1 by auto
  have par: "aligned par" "par \<noteq> n" "par \<noteq> k"
    using path_at_aligned[OF P] path_at_par[OF P] kn D1(2) by auto
  have v: "?v \<noteq> NULL \<Longrightarrow> ?v \<in> set (nodes y)" using tree_at_ptr[OF kn(12)] .
  define h1 where "h1 = set_child h n (\<not> s) ?v"
  define h2 where "h2 = (if ?v \<noteq> NULL then rb_set_parent h1 (rb_child (h1 k) s) n else h1)"
  define h3 where "h3 = rb_set_parent (set_child h2 k s n) k par"
  obtain h4 root' where h4: "relink h3 root par s n k = (h4, root')" by (cases "relink h3 root par s n k")
  have h2: "rb_child (h2 q) = (if q = n then (rb_child (h n))(\<not> s := ?v) else rb_child (h q))"
    "rb_parent h2 q = (if ?v \<noteq> NULL \<and> q = ?v then n else rb_parent h q)" "rb_color h2 q = rb_color h q" for q
    using kn by (auto simp: h2_def h1_def)
  have h3: "rb_child (h3 q) = (if q = k then (rb_child (h k))(s := n) else if q = n then (rb_child (h n))(\<not> s := ?v) else rb_child (h q))"
    "rb_parent h3 q = (if q = k then par else if ?v \<noteq> NULL \<and> q = ?v then n else rb_parent h q)" "rb_color h3 q = rb_color h q" for q
    using kn par by (auto simp: h3_def h2)
  have "path_at h3 root n par ps = path_at h root n par ps"
    using D1(2) v by (intro path_at_cong) (auto simp: h3)
  with P have P3: "path_at h3 root n par ps" by simp
  have nps: "n \<notin> path_nodes ps" using D1(2) by auto
  note R = relink_path[OF P3 kn(3) nps D h4]
  let ?h = "rb_set_parent h4 n k"
  have P4: "path_at ?h root' k par ps"
  proof -
    have "path_at ?h root' k par ps = path_at h4 root' k par ps"
      using nps kn(4) by (intro path_at_cong) auto
    with R(1) show ?thesis by simp
  qed
  have same: "tree_at ?h q p t = tree_at h q p t" if "set (nodes t) \<inter> ({n, k, par, ?v} - {NULL}) = {}" "NULL \<notin> set (nodes t)" for q p t
    using that kn(4) R(2,3) by (intro tree_at_cong) (auto simp: h3 R(4))
  have null: "NULL \<notin> set (nodes t)" if "tree_at h q p t" for q p t
    using that by (induction t arbitrary: q p) auto
  have "tree_at ?h n (rb_child (h n) s) x"
    using kn(11) null[OF kn(11)] D1 v path_at_par[OF P] by (subst same) auto
  moreover have "tree_at ?h k (rb_child (h k) (\<not> s)) z"
    using kn(13) null[OF kn(13)] D1 v path_at_par[OF P] by (subst same) auto
  moreover have "tree_at ?h n ?v y"
    using kn(12)
  proof (rule tree_at_reparent)
    show "distinct (nodes y)" using D1(1) by auto
    fix a assume a: "a \<in> set (nodes y)"
    then have "a \<noteq> n" "a \<noteq> k" "a \<noteq> par" "a \<noteq> NULL"
      using D1 path_at_par[OF P] null[OF kn(12)] by auto
    with kn(4) show "rb_color ?h a = rb_color h a \<and> rb_child (?h a) = rb_child (h a) \<and>
        rb_parent ?h a = (if a = ?v then n else rb_parent h a)"
      by (auto simp: R(2,3) h3 R(4))
  qed
  ultimately have "tree_at ?h par k (mk s k d (mk s n c x y) z)"
    using kn par by (simp add: R(2,3) h3 R(4))
  moreover have "rb_rotate s n (h, root) = Some (?h, root')"
    using h4 kn(1,2,7) unfolding h3_def h2_def h1_def by (auto simp: rb_rotate_def Let_def split: if_splits)
  ultimately show ?thesis using P4 by blast
qed

subsection \<open>Red-black invariants\<close>

primrec root_color :: "rbt \<Rightarrow> u32" where
  "root_color Lf = RB_BLACK"
| "root_color (Nd l a c r) = c"

primrec bheight :: "rbt \<Rightarrow> nat" where
  "bheight Lf = 0"
| "bheight (Nd l a c r) = (if c = RB_BLACK then bheight l + 1 else bheight l)"

text \<open>No red node has a red child; every path has the same number of black nodes.\<close>

primrec invc :: "rbt \<Rightarrow> bool" where
  "invc Lf \<longleftrightarrow> True"
| "invc (Nd l a c r) \<longleftrightarrow> invc l \<and> invc r \<and> (c = RB_RED \<longrightarrow> root_color l = RB_BLACK \<and> root_color r = RB_BLACK)"

primrec invh :: "rbt \<Rightarrow> bool" where
  "invh Lf \<longleftrightarrow> True"
| "invh (Nd l a c r) \<longleftrightarrow> invh l \<and> invh r \<and> bheight l = bheight r"

primrec colored :: "rbt \<Rightarrow> bool" where
  "colored Lf \<longleftrightarrow> True"
| "colored (Nd l a c r) \<longleftrightarrow> colored l \<and> colored r \<and> c \<in> {RB_RED, RB_BLACK}"

definition rb_inv :: "rbt \<Rightarrow> bool" where
  "rb_inv t \<longleftrightarrow> invc t \<and> invh t \<and> root_color t = RB_BLACK"

lemma root_color_mk [simp]: "root_color (mk s a c x y) = c"
  by (simp add: mk.simps)

lemma invc_mk [simp]:
  "invc (mk s a c x y) \<longleftrightarrow> invc x \<and> invc y \<and> (c = RB_RED \<longrightarrow> root_color x = RB_BLACK \<and> root_color y = RB_BLACK)"
  by (auto simp: mk.simps)

lemma invh_mk [simp]: "invh (mk s a c x y) \<longleftrightarrow> invh x \<and> invh y \<and> bheight x = bheight y"
  by (auto simp: mk.simps)

lemma bheight_mk: "bheight x = bheight y \<Longrightarrow> bheight (mk s a c x y) = (if c = RB_BLACK then bheight x + 1 else bheight x)"
  by (simp add: mk.simps)

lemma tree_at_colored: "tree_at h par p t \<Longrightarrow> root_color t = RB_RED \<or> root_color t = RB_BLACK"
  by (cases t) (use rb_color_01 in auto)

lemma tree_at_root_color: "tree_at h par p t \<Longrightarrow> root_color t = RB_RED \<longleftrightarrow> p \<noteq> NULL \<and> rb_color h p = RB_RED"
  by (cases t) auto

text \<open>A path that a subtree of black height \<open>n\<close> with a black root fits into: a red node has a
  black sibling subtree and hangs below a black node.\<close>

fun path_inv :: "path \<Rightarrow> nat \<Rightarrow> bool" where
  "path_inv [] n \<longleftrightarrow> True"
| "path_inv ((s, a, c, u) # ps) n \<longleftrightarrow> invc u \<and> invh u \<and> bheight u = n \<and> c \<in> {RB_RED, RB_BLACK} \<and>
     (c = RB_RED \<longrightarrow> root_color u = RB_BLACK \<and> (\<exists>s' b v qs. ps = (s', b, RB_BLACK, v) # qs)) \<and>
     path_inv ps (if c = RB_BLACK then n + 1 else n)"

text \<open>Filling the hole: the subtree may have a red root only below a black node.\<close>

lemma plug_inv:
  assumes "path_inv ps (bheight t)" "invc t" "invh t"
    "root_color t = RB_BLACK \<or> (\<exists>s b v qs. ps = (s, b, RB_BLACK, v) # qs) \<or> ps = []"
  shows "invc (plug ps t) \<and> invh (plug ps t) \<and> (ps \<noteq> [] \<longrightarrow> root_color (plug ps t) = RB_BLACK)"
  using assms
proof (induction ps t rule: plug.induct)
  case (2 s a c u ps t)
  let ?t = "mk s a c t u"
  have "invc ?t" "invh ?t" and b: "bheight ?t = (if c = RB_BLACK then bheight t + 1 else bheight t)"
    using 2(2-) by (auto simp: bheight_mk)
  moreover have "root_color ?t = RB_BLACK \<or> (\<exists>s b v qs. ps = (s, b, RB_BLACK, v) # qs)"
    using 2(2) by auto
  moreover have "path_inv ps (bheight ?t)" using 2(2) b by simp
  ultimately have "invc (plug ps ?t) \<and> invh (plug ps ?t) \<and> (ps \<noteq> [] \<longrightarrow> root_color (plug ps ?t) = RB_BLACK)"
    using 2(1) by blast
  moreover have "ps = [] \<Longrightarrow> c = RB_BLACK" using 2(2) by auto
  ultimately show ?case by (cases ps) auto
qed simp

lemma mk_flip: "mk (\<not> s) a c x y = mk s a c y x"
  by (simp add: mk.simps)

lemma nodes_null: "tree_at h q p t \<Longrightarrow> NULL \<notin> set (nodes t)"
  by (induction t arbitrary: q p) auto

text \<open>The last two steps of an insertion: recolouring and the rotation of the grandparent.\<close>

lemma insert_rotate:
  assumes "tree_at h g q (mk s q RB_RED t1 t2)" "path_at h root q g ((s, g, RB_BLACK, w) # ps)"
    "distinct (nodes (plug ((s, g, RB_BLACK, w) # ps) (mk s q RB_RED t1 t2)))" "tree_at h q m t1" "m \<noteq> NULL"
  shows "\<exists>h' root'. rb_rotate (\<not> s) g (rb_set_red (rb_set_black h q) g, root) = Some (h', root') \<and>
    tree_at h' (rb_parent h g) q (mk s q RB_BLACK t1 (mk s g RB_RED t2 w)) \<and> path_at h' root' q (rb_parent h g) ps \<and>
    rb_insert_loop m (h', root') = Some (h', root')"
proof -
  let ?h = "rb_set_red (rb_set_black h q) g"
  let ?T = "mk (\<not> s) g RB_RED w (mk (\<not> s) q RB_BLACK t2 t1)"
  note D = distinct_path[OF assms(3)]
  have g: "g \<noteq> NULL" "aligned g" "rb_child (h g) s = q" "tree_at h g (rb_child (h g) (\<not> s)) w"
    "path_at h root g (rb_parent h g) ps" "q \<noteq> g"
    using assms(2) D by auto
  have sub: "tree_at ?h x p t = tree_at h x p t" if "q \<notin> set (nodes t)" "g \<notin> set (nodes t)" for x p t
    using that by (intro tree_at_cong) auto
  have "tree_at ?h (rb_parent h g) g ?T"
    using assms(1) g D by (auto simp: sub)
  moreover have "path_at ?h root g (rb_parent h g) ps"
    using g(5) D by (subst path_at_cong[where h = h]) auto
  moreover have "distinct (nodes (plug ps ?T))"
  proof -
    have "nodes ?T = nodes (mk s g RB_BLACK (mk s q RB_RED t1 t2) w)" by (simp add: nodes_mk mk_flip)
    from nodes_plug_cong[OF this, of ps] assms(3) show ?thesis by simp
  qed
  ultimately obtain h' root' where r: "rb_rotate (\<not> s) g (?h, root) = Some (h', root')"
    "tree_at h' (rb_parent h g) q (mk (\<not> s) q RB_BLACK (mk (\<not> s) g RB_RED w t2) t1)" "path_at h' root' q (rb_parent h g) ps"
    using rotate_at by blast
  have res: "tree_at h' (rb_parent h g) q (mk s q RB_BLACK t1 (mk s g RB_RED t2 w))"
    using r(2) unfolding mk_flip by simp
  moreover have "rb_insert_loop m (h', root') = Some (h', root')"
  proof -
    have "tree_at h' q (rb_child (h' q) s) t1" using res by simp
    moreover from this have "rb_child (h' q) s = m"
      using assms(4,5) by (cases t1) auto
    ultimately have "rb_parent h' m = q" using tree_at_parent assms(5) by metis
    with res show ?thesis
      by (subst rb_insert_loop.simps) (simp add: Let_def)
  qed
  ultimately show ?thesis using r by blast
qed

lemma which_side:
  assumes "rb_child (h g) s = p" "tree_at h g (rb_child (h g) (\<not> s)) w" "p \<noteq> NULL" "p \<notin> set (nodes w)"
  shows "(p \<noteq> rb_child (h g) RB_LEFT) = s"
  using assms tree_at_ptr[OF assms(2)] by (cases s) auto

lemma recolor_at:
  assumes T: "tree_at h p n t" and P: "path_at h root n p ((s, p, RB_RED, u) # (s2, g, RB_BLACK, w) # ps)"
    and D: "distinct (nodes (plug ((s, p, RB_RED, u) # (s2, g, RB_BLACK, w) # ps) t))" and w: "w = Nd wl b RB_RED wr"
  defines "h' \<equiv> rb_set_red (rb_set_black (rb_set_black h b) p) g"
  shows "tree_at h' (rb_parent h g) g (mk s2 g RB_RED (mk s p RB_BLACK t u) (Nd wl b RB_BLACK wr))"
    and "path_at h' root g (rb_parent h g) ps"
proof -
  let ?N = "mk s p RB_RED t u"
  have D2: "distinct (nodes (plug ((s2, g, RB_BLACK, w) # ps) ?N))" using D by simp
  note d = distinct_path[OF D2]
  have ne: "p \<noteq> g" "b \<noteq> p" "b \<noteq> g" using d by (auto simp: w)
  have sub: "tree_at h' x q t' = tree_at h x q t'" if "{p, g, b} \<inter> set (nodes t') = {}" for x q t'
    unfolding h'_def using that by (intro tree_at_cong) auto
  have disj: "{p, g, b} \<inter> set (nodes t) = {}" "{p, g, b} \<inter> set (nodes u) = {}"
    "{p, g, b} \<inter> set (nodes wl) = {}" "{p, g, b} \<inter> set (nodes wr) = {}"
    using d by (auto simp: w)
  note subs = sub[OF disj(1)] sub[OF disj(2)] sub[OF disj(3)] sub[OF disj(4)]
  show "tree_at h' (rb_parent h g) g (mk s2 g RB_RED (mk s p RB_BLACK t u) (Nd wl b RB_BLACK wr))"
    using T P ne by (simp add: subs w) (simp add: h'_def ne)
  have "path_at h' root g (rb_parent h g) ps = path_at h root g (rb_parent h g) ps"
    unfolding h'_def using d ne by (intro path_at_cong) (auto simp: w)
  with P show "path_at h' root g (rb_parent h g) ps" by simp
qed

text \<open>One pass of the loop below a red parent, by the colour of the uncle.\<close>

lemma insert_loop_red:
  assumes T: "tree_at h p n t" and P: "path_at h root n p ((s, p, RB_RED, u) # (s2, g, RB_BLACK, w) # ps)"
    and D: "distinct (nodes (plug ((s, p, RB_RED, u) # (s2, g, RB_BLACK, w) # ps) t))" and n: "n \<noteq> NULL"
  shows "root_color w = RB_RED \<Longrightarrow> w = Nd wl b RB_RED wr \<Longrightarrow>
      rb_insert_loop n (h, root) = rb_insert_loop g (rb_set_red (rb_set_black (rb_set_black h b) p) g, root)"
    and "root_color w = RB_BLACK \<Longrightarrow> rb_insert_loop n (h, root) =
      (if s = s2 then rb_rotate (\<not> s2) g (rb_set_red (rb_set_black h p) g, root) \<bind> rb_insert_loop n
       else rb_rotate s2 p (h, root) \<bind>
         (\<lambda>st. rb_rotate (\<not> s2) g (rb_set_red (rb_set_black (fst st) n) g, snd st) \<bind> rb_insert_loop p))"
proof -
  have D2: "distinct (nodes (plug ((s2, g, RB_BLACK, w) # ps) (mk s p RB_RED t u)))" using D by simp
  note d = distinct_path[OF D2] distinct_path[OF D]
  have p: "rb_parent h n = p" "p \<noteq> NULL" "rb_color h p = RB_RED" "rb_parent h p = g" "g \<noteq> NULL"
    "rb_child (h p) s = n" "tree_at h p (rb_child (h p) (\<not> s)) u"
    using P tree_at_parent[OF T n] by auto
  have g: "rb_child (h g) s2 = p" "tree_at h g (rb_child (h g) (\<not> s2)) w" using P by auto
  have side: "(p \<noteq> rb_child (h g) RB_LEFT) = s2"
    using which_side[OF g p(2)] d by auto
  have inner: "rb_child (h p) (\<not> s2) = n \<longleftrightarrow> s \<noteq> s2"
  proof (cases "s = s2")
    case True
    then have "rb_child (h p) (\<not> s2) \<noteq> n"
      using tree_at_ptr[OF p(7)] tree_at_ptr[OF T n] n d(13) by auto
    with True show ?thesis by simp
  next
    case False
    with p(6) show ?thesis by (cases s; cases s2) auto
  qed
  note uncle = tree_at_root_color[OF g(2)]
  show "root_color w = RB_RED \<Longrightarrow> w = Nd wl b RB_RED wr \<Longrightarrow>
      rb_insert_loop n (h, root) = rb_insert_loop g (rb_set_red (rb_set_black (rb_set_black h b) p) g, root)"
    using uncle g(2) by (subst rb_insert_loop.simps) (simp add: Let_def p side)
  show "root_color w = RB_BLACK \<Longrightarrow> rb_insert_loop n (h, root) =
      (if s = s2 then rb_rotate (\<not> s2) g (rb_set_red (rb_set_black h p) g, root) \<bind> rb_insert_loop n
       else rb_rotate s2 p (h, root) \<bind>
         (\<lambda>st. rb_rotate (\<not> s2) g (rb_set_red (rb_set_black (fst st) n) g, snd st) \<bind> rb_insert_loop p))"
    using uncle by (subst rb_insert_loop.simps) (auto simp: Let_def p side inner case_prod_beta)
qed

text \<open>A red parent and a black uncle: the node hangs on the outer or on the inner side of its
  parent.\<close>

lemma insert_outer:
  assumes T: "tree_at h p n t" and P: "path_at h root n p ((s, p, RB_RED, u) # (s, g, RB_BLACK, w) # ps)"
    and D: "distinct (nodes (plug ((s, p, RB_RED, u) # (s, g, RB_BLACK, w) # ps) t))" and n: "n \<noteq> NULL"
    and inv: "invc t" "invh t" "root_color t = RB_RED" "path_inv ((s, p, RB_RED, u) # (s, g, RB_BLACK, w) # ps) (bheight t)"
    and w: "root_color w = RB_BLACK"
  shows "\<exists>h' root' t'. rb_insert_loop n (h, root) = Some (h', root') \<and> tree_at h' NULL root' t' \<and>
    nodes t' = nodes (plug ((s, p, RB_RED, u) # (s, g, RB_BLACK, w) # ps) t) \<and> invc t' \<and> invh t'"
proof -
  let ?t = "mk s p RB_BLACK t (mk s g RB_RED u w)"
  obtain h' root' where r: "rb_rotate (\<not> s) g (rb_set_red (rb_set_black h p) g, root) = Some (h', root')"
    "tree_at h' (rb_parent h g) p ?t" "path_at h' root' p (rb_parent h g) ps"
    "rb_insert_loop n (h', root') = Some (h', root')"
    using insert_rotate[of h g p s t u root w ps n] T P D n by auto
  have "nodes (plug ps ?t) = nodes (plug ((s, p, RB_RED, u) # (s, g, RB_BLACK, w) # ps) t)"
    unfolding plug.simps by (intro nodes_plug_cong) (simp add: nodes_mk)
  moreover have "invc (plug ps ?t) \<and> invh (plug ps ?t)"
  proof -
    have "invc u" "invh u" "bheight u = bheight t" "root_color u = RB_BLACK" "invc w" "invh w" "bheight w = bheight t"
      "path_inv ps (bheight t + 1)"
      using inv(4) by simp_all
    then have "path_inv ps (bheight ?t)" "invc ?t" "invh ?t" using inv(1,2) w by (simp_all add: bheight_mk)
    then show ?thesis using plug_inv by simp
  qed
  moreover have "tree_at h' NULL root' (plug ps ?t)"
    using plug_at[OF r(2,3)] by (simp add: mk.simps)
  ultimately show ?thesis using insert_loop_red(2)[OF T P D n w] r by auto
qed

lemma insert_inner:
  assumes T: "tree_at h p n t" and P: "path_at h root n p ((\<not> s, p, RB_RED, u) # (s, g, RB_BLACK, w) # ps)"
    and D: "distinct (nodes (plug ((\<not> s, p, RB_RED, u) # (s, g, RB_BLACK, w) # ps) t))" and n: "n \<noteq> NULL"
    and inv: "invc t" "invh t" "root_color t = RB_RED" "path_inv ((\<not> s, p, RB_RED, u) # (s, g, RB_BLACK, w) # ps) (bheight t)"
    and w: "root_color w = RB_BLACK"
  shows "\<exists>h' root' t'. rb_insert_loop n (h, root) = Some (h', root') \<and> tree_at h' NULL root' t' \<and>
    nodes t' = nodes (plug ((\<not> s, p, RB_RED, u) # (s, g, RB_BLACK, w) # ps) t) \<and> invc t' \<and> invh t'"
    (is "\<exists>h' root' t'. _ \<and> _ \<and> nodes t' = nodes ?all \<and> _")
proof -
  obtain x y where t: "t = mk s n RB_RED x y"
    using T inv(3) n by (cases t; cases s) (auto simp: mk.simps)
  have all: "?all = plug ((s, g, RB_BLACK, w) # ps) (mk s p RB_RED u t)" by (simp add: mk_flip)
  then obtain h1 root1 where r1: "rb_rotate s p (h, root) = Some (h1, root1)"
    "tree_at h1 g n (mk s n RB_RED (mk s p RB_RED u x) y)" "path_at h1 root1 n g ((s, g, RB_BLACK, w) # ps)"
    using rotate_at[of h g p s RB_RED u n RB_RED x y root "(s, g, RB_BLACK, w) # ps"] T P D by (auto simp: t)
  let ?t = "mk s n RB_BLACK (mk s p RB_RED u x) (mk s g RB_RED y w)"
  have nodes: "nodes (plug ps ?t) = nodes ?all"
    "nodes (plug ((s, g, RB_BLACK, w) # ps) (mk s n RB_RED (mk s p RB_RED u x) y)) = nodes ?all"
    unfolding plug.simps t mk_flip by (intro nodes_plug_cong; simp add: nodes_mk)+
  have d: "distinct (nodes (plug ((s, g, RB_BLACK, w) # ps) (mk s n RB_RED (mk s p RB_RED u x) y)))"
    using nodes(2) D by simp
  have "tree_at h1 n p (mk s p RB_RED u x)" "p \<noteq> NULL" using r1(2) by simp_all
  from insert_rotate[OF r1(2,3) d this]
  obtain h' root' where r: "rb_rotate (\<not> s) g (rb_set_red (rb_set_black h1 n) g, root1) = Some (h', root')"
    "tree_at h' (rb_parent h1 g) n ?t" "path_at h' root' n (rb_parent h1 g) ps"
    "rb_insert_loop p (h', root') = Some (h', root')"
    by (elim exE conjE) (rule that)
  have xy: "invc x" "invc y" "invh x" "invh y" "bheight x = bheight y" "root_color x = RB_BLACK" "root_color y = RB_BLACK"
    using inv(1,2) by (auto simp: t)
  then have "bheight t = bheight y" by (simp add: t bheight_mk)
  then have "invc u" "invh u" "bheight u = bheight y" "root_color u = RB_BLACK" "invc w" "invh w" "bheight w = bheight y"
    "path_inv ps (bheight y + 1)"
    using inv(4) by simp_all
  then have "path_inv ps (bheight ?t)" "invc ?t" "invh ?t" using xy w by (simp_all add: bheight_mk)
  then have "invc (plug ps ?t) \<and> invh (plug ps ?t)" using plug_inv by simp
  moreover have "tree_at h' NULL root' (plug ps ?t)"
    using plug_at[OF r(2,3)] by (simp add: mk.simps)
  ultimately show ?thesis using insert_loop_red(2)[OF T P D n w] r r1(1) nodes(1) by auto
qed

lemma insert_loop_at:
  assumes "tree_at h par n t" "path_at h root n par ps" "distinct (nodes (plug ps t))" "n \<noteq> NULL"
    "root_color t = RB_RED" "invc t" "invh t" "path_inv ps (bheight t)"
  shows "\<exists>h' root' t'. rb_insert_loop n (h, root) = Some (h', root') \<and> tree_at h' NULL root' t' \<and>
    nodes t' = nodes (plug ps t) \<and> invc t' \<and> invh t'"
  using assms
proof (induction "length ps" arbitrary: ps h root par n t rule: less_induct)
  case less
  note T = less.prems(1) and P = less.prems(2) and D = less.prems(3)
  have parn: "rb_parent h n = par" using tree_at_parent[OF T less.prems(4)] .
  show ?case
  proof (cases "ps = [] \<or> (\<exists>s a u qs. ps = (s, a, RB_BLACK, u) # qs)")
    case True
    then have "\<not> (par \<noteq> NULL \<and> rb_is_red h par)" using P by auto
    then have "rb_insert_loop n (h, root) = Some (h, root)"
      by (subst rb_insert_loop.simps) (auto simp: Let_def parn)
    moreover have "tree_at h NULL root (plug ps t)"
      using plug_at[OF T P] T less.prems(4) by (cases t) auto
    moreover have "invc (plug ps t) \<and> invh (plug ps t)"
      using plug_inv[OF less.prems(8,6,7)] True by blast
    ultimately show ?thesis by blast
  next
    case False
    then obtain s p u s2 g w rs where ps: "ps = (s, p, RB_RED, u) # (s2, g, RB_BLACK, w) # rs"
      using less.prems(8) by (cases ps) auto
    have par: "par = p" using P by (simp add: ps)
    note T' = T[unfolded par] and P' = P[unfolded par ps] and D' = D[unfolded ps]
    note inv = less.prems(5-8)[unfolded ps]
    note loop = insert_loop_red[OF T' P' D' less.prems(4)]
    have w: "root_color w = RB_RED \<or> root_color w = RB_BLACK"
      using P' tree_at_colored[of h g "rb_child (h g) (\<not> s2)" w] by simp
    show ?thesis
    proof (cases "root_color w = RB_RED")
      case True
      then obtain wl b wr where wN: "w = Nd wl b RB_RED wr" by (cases w) auto
      let ?t = "mk s2 g RB_RED (mk s p RB_BLACK t u) (Nd wl b RB_BLACK wr)"
      let ?h = "rb_set_red (rb_set_black (rb_set_black h b) p) g"
      have "nodes (plug rs ?t) = nodes (plug ps t)"
        unfolding ps plug.simps by (intro nodes_plug_cong) (simp add: nodes_mk wN)
      moreover have "\<exists>h' root' t'. rb_insert_loop g (?h, root) = Some (h', root') \<and> tree_at h' NULL root' t' \<and>
          nodes t' = nodes (plug rs ?t) \<and> invc t' \<and> invh t'"
      proof (rule less.hyps)
        show "length rs < length ps" by (simp add: ps)
        show "tree_at ?h (rb_parent h g) g ?t" "path_at ?h root g (rb_parent h g) rs"
          using recolor_at[OF T' P' D' wN] by blast+
        show "distinct (nodes (plug rs ?t))" using D calculation by simp
        show "g \<noteq> NULL" using P' by simp
        show "root_color ?t = RB_RED" by simp
        show "invc ?t" "invh ?t" using inv by (auto simp: wN bheight_mk)
        show "path_inv rs (bheight ?t)" using inv by (simp add: wN bheight_mk)
      qed
      ultimately show ?thesis using loop(1)[OF True wN] by simp
    next
      case False
      then have wB: "root_color w = RB_BLACK" using w by blast
      show ?thesis
      proof (cases "s = s2")
        case True
        show ?thesis
          using insert_outer[OF T' P'[unfolded True] D'[unfolded True] less.prems(4) inv(2,3,1) _ wB] inv(4)
          by (simp only: ps True)
      next
        case False
        then have s: "s = (\<not> s2)" by simp
        show ?thesis
          using insert_inner[OF T' P'[unfolded s] D'[unfolded s] less.prems(4) inv(2,3,1) _ wB] inv(4)
          by (simp only: ps s)
      qed
    qed
  qed
qed

subsection \<open>Insertion as a whole\<close>

text \<open>A root pointer and the red-black tree it stands for.\<close>

definition rb_rep :: "rb_heap \<Rightarrow> addr \<Rightarrow> rbt \<Rightarrow> bool" where
  "rb_rep h root t \<longleftrightarrow> tree_at h NULL root t \<and> distinct (nodes t) \<and> rb_inv t"

text \<open>Every node of a tree is reached by a path.\<close>

lemma path_to:
  assumes "tree_at h par p t" "path_at h root p par ps" "a \<in> set (nodes t)"
  shows "\<exists>qs l c r. plug ps t = plug qs (Nd l a c r) \<and> tree_at h (rb_parent h a) a (Nd l a c r) \<and>
    path_at h root a (rb_parent h a) qs"
  using assms
proof (induction t arbitrary: par p ps)
  case (Nd l b c r)
  consider "a = b" | "a \<in> set (nodes l)" | "a \<in> set (nodes r)" using Nd.prems(3) by auto
  then show ?case
  proof cases
    case 1
    with Nd.prems show ?thesis by (intro exI[of _ ps] exI[of _ l] exI[of _ c] exI[of _ r]) auto
  next
    case 2
    have "path_at h root (rb_child (h b) RB_LEFT) b ((RB_LEFT, b, c, r) # ps)" using Nd.prems by auto
    with Nd.IH(1)[of b _ "(RB_LEFT, b, c, r) # ps"] 2 Nd.prems(1) show ?thesis by (simp add: mk.simps)
  next
    case 3
    have "path_at h root (rb_child (h b) RB_RIGHT) b ((RB_RIGHT, b, c, l) # ps)" using Nd.prems by auto
    with Nd.IH(2)[of b _ "(RB_RIGHT, b, c, l) # ps"] 3 Nd.prems(1) show ?thesis by (simp add: mk.simps)
  qed
qed simp

lemma path_inv_of_plug:
  assumes "invc (plug ps t)" "invh (plug ps t)" "root_color (plug ps t) = RB_BLACK" "tree_at h NULL root (plug ps t)"
  shows "invc t \<and> invh t \<and> path_inv ps (bheight t) \<and>
    (root_color t = RB_RED \<longrightarrow> (\<exists>s b v qs. ps = (s, b, RB_BLACK, v) # qs))"
  using assms
proof (induction ps t rule: plug.induct)
  case (2 s a c u ps t)
  then have IH: "invc (mk s a c t u)" "invh (mk s a c t u)" "path_inv ps (bheight (mk s a c t u))"
    "c = RB_RED \<longrightarrow> (\<exists>s b v qs. ps = (s, b, RB_BLACK, v) # qs)"
    by auto
  moreover have "c \<in> {RB_RED, RB_BLACK}"
  proof -
    have "colored (plug qs x) \<Longrightarrow> colored x" for qs x
      by (induction qs x rule: plug.induct) (auto simp: mk.simps split: if_splits)
    moreover have "tree_at h q p x \<Longrightarrow> colored x" for q p x
      by (induction x arbitrary: q p) (use rb_color_01 in auto)
    ultimately have "colored (mk s a c t u)" using 2(5) by fastforce
    then show ?thesis by (auto simp: mk.simps split: if_splits)
  qed
  ultimately show ?case by (auto simp: bheight_mk)
qed auto

lemma rb_insert_color_at:
  assumes "tree_at h par n t" "path_at h root n par ps" "distinct (nodes (plug ps t))" "n \<noteq> NULL"
    "root_color t = RB_RED" "invc t" "invh t" "path_inv ps (bheight t)"
  shows "\<exists>h' root' t'. rb_insert_color n (h, root) = Some (h', root') \<and> rb_rep h' root' t' \<and> nodes t' = nodes (plug ps t)"
proof -
  obtain h' root' t' where r: "rb_insert_loop n (h, root) = Some (h', root')" "tree_at h' NULL root' t'"
    "nodes t' = nodes (plug ps t)" "invc t'" "invh t'"
    using insert_loop_at[OF assms] by blast
  have "n \<in> set (nodes t')" using tree_at_ptr[OF assms(1,4)] set_nodes_plug r(3) by fastforce
  then obtain l a c rt where t': "t' = Nd l a c rt" by (cases t') auto
  let ?h = "rb_set_black h' root'" and ?t = "Nd l a RB_BLACK rt"
  have d: "distinct (nodes t')" using assms(3) r(3) by simp
  have "tree_at ?h q p x = tree_at h' q p x" if "root' \<notin> set (nodes x)" for q p x
    using that by (intro tree_at_cong) auto
  then have "tree_at ?h NULL root' ?t" using r(2) d by (auto simp: t')
  moreover have "rb_inv ?t" using r(4,5) by (auto simp: rb_inv_def t')
  moreover have "nodes ?t = nodes (plug ps t)" "distinct (nodes ?t)" using r(3) d by (simp_all add: t')
  moreover have "root' \<noteq> NULL" using r(2) by (simp add: t')
  ultimately have "rb_rep ?h root' ?t" "nodes ?t = nodes (plug ps t)" "root' \<noteq> NULL"
    unfolding rb_rep_def by blast+
  moreover from this r(1) have "rb_insert_color n (h, root) = Some (?h, root')" by (simp add: rb_insert_color_def)
  ultimately show ?thesis by blast
qed

text \<open>A new node next to \<open>p\<close> in the order.\<close>

fun insert_beside :: "bool \<Rightarrow> addr \<Rightarrow> addr \<Rightarrow> addr list \<Rightarrow> addr list" where
  "insert_beside s p n [] = []"
| "insert_beside s p n (x # xs) =
     (if x = p then if s then x # n # xs else n # x # xs else x # insert_beside s p n xs)"

lemma insert_beside_split:
  "p \<notin> set xs \<Longrightarrow> insert_beside s p n (xs @ p # ys) = xs @ (if s then p # n # ys else n # p # ys)"
  by (induction xs) auto

lemma insert_beside_append:
  "p \<notin> set xs \<Longrightarrow> insert_beside s p n (xs @ ys) = xs @ insert_beside s p n ys"
  "p \<in> set xs \<Longrightarrow> insert_beside s p n (xs @ ys) = insert_beside s p n xs @ ys"
  by (induction xs) auto

lemma nodes_plug_insert:
  assumes "distinct (nodes (plug ps t))" "p \<in> set (nodes t)" "nodes t' = insert_beside s p n (nodes t)"
  shows "nodes (plug ps t') = insert_beside s p n (nodes (plug ps t))"
  using assms
proof (induction ps t arbitrary: t' rule: plug.induct)
  case (2 d a c u ps t)
  note D = distinct_path[OF 2(2)]
  have "p \<noteq> a" "p \<notin> set (nodes u)" using D(3,5) 2(3) by auto
  then have "nodes (mk d a c t' u) = insert_beside s p n (nodes (mk d a c t u))"
    using 2(3,4) by (auto simp: nodes_mk insert_beside_append)
  with 2(1)[of "mk d a c t' u"] 2(2,3) show ?case by simp
qed simp

lemma set_insert_beside: "set (insert_beside s p n xs) \<subseteq> insert n (set xs)"
  by (induction s p n xs rule: insert_beside.induct) auto

lemma distinct_insert_beside: "distinct xs \<Longrightarrow> n \<notin> set xs \<Longrightarrow> distinct (insert_beside s p n xs)"
proof (induction s p n xs rule: insert_beside.induct)
  case (2 s p n x xs)
  then show ?case using set_insert_beside[of s p n xs] by auto
qed simp

lemma link_word: "aligned p \<Longrightarrow> p AND - 4 = p" "aligned p \<Longrightarrow> p AND 1 = 0"
  using pack_parent[of p 0] pack_color[of p 0] by simp_all

lemma both_sides: "f(True := a, False := a) = (\<lambda>_. a)"
proof (rule ext)
  fix x show "(f(True := a, False := a)) x = a" by (cases x) auto
qed

lemma link_fields:
  assumes "rb_link_node h root n par link = (h1, root')" "aligned par" "\<And>p s. link = Some (p, s) \<Longrightarrow> p \<noteq> n"
  shows "rb_parent h1 x = (if x = n then par else rb_parent h x)" "rb_color h1 x = (if x = n then RB_RED else rb_color h x)"
    "rb_child (h1 x) = (case link of Some (p, s) \<Rightarrow> if x = p then (rb_child (h p))(s := n)
        else if x = n then (\<lambda>_. NULL) else rb_child (h x) | None \<Rightarrow> if x = n then (\<lambda>_. NULL) else rb_child (h x))"
proof -
  have "h1 = fst (rb_link_node h root n par link)" by (simp add: assms(1))
  with assms(3) link_word[OF assms(2)]
  show "rb_parent h1 x = (if x = n then par else rb_parent h x)" "rb_color h1 x = (if x = n then RB_RED else rb_color h x)"
    "rb_child (h1 x) = (case link of Some (p, s) \<Rightarrow> if x = p then (rb_child (h p))(s := n)
        else if x = n then (\<lambda>_. NULL) else rb_child (h x) | None \<Rightarrow> if x = n then (\<lambda>_. NULL) else rb_child (h x))"
    by (auto simp: rb_link_node_def Let_def rb_parent_def rb_color_def set_child_def RB_RED_def both_sides split: option.splits)
qed

lemma rb_link_at:
  assumes "rb_rep h root t" "p \<in> set (nodes t)" "rb_child (h p) s = NULL" "n \<notin> set (nodes t)" "n \<noteq> NULL" "aligned n"
  shows "\<exists>h' root' t'. rb_insert_color n (rb_link_node h root n p (Some (p, s))) = Some (h', root') \<and>
    rb_rep h' root' t' \<and> nodes t' = insert_beside s p n (nodes t)"
proof -
  have T: "tree_at h NULL root t" and D: "distinct (nodes t)" and I: "invc t" "invh t" "root_color t = RB_BLACK"
    using assms(1) by (auto simp: rb_rep_def rb_inv_def)
  obtain qs l c r where q: "t = plug qs (Nd l p c r)" "tree_at h (rb_parent h p) p (Nd l p c r)"
    "path_at h root p (rb_parent h p) qs"
    using path_to[OF T _ assms(2), of root "[]"] by auto
  define u where "u = (if s then l else r)"
  have sub: "Nd l p c r = mk s p c Lf u"
    using q(2) assms(3) by (cases s; cases l; cases r) (auto simp: u_def mk.simps)
  let ?ps = "(s, p, c, u) # qs" and ?n = "Nd Lf n RB_RED Lf"
  obtain h1 where h1: "rb_link_node h root n p (Some (p, s)) = (h1, root)" by (simp add: rb_link_node_def Let_def)
  have p: "p \<noteq> n" "aligned p" "p \<noteq> NULL" using assms(2,4) q(2) by auto
  have fields: "rb_child (h1 x) = (if x = p then (rb_child (h p))(s := n) else if x = n then (\<lambda>_. NULL) else rb_child (h x))"
    "rb_parent h1 x = (if x = n then p else rb_parent h x)" "rb_color h1 x = (if x = n then RB_RED else rb_color h x)" for x
    using link_fields[OF h1 p(2)] p(1) by auto
  have tq: "t = plug ?ps Lf" using q(1) sub by simp
  have D': "distinct (nodes (plug ?ps Lf))" using D tq by simp
  note d = distinct_path[OF D']
  have out: "n \<notin> set (nodes u)" "n \<notin> path_nodes qs" using assms(4) unfolding tq set_nodes_plug by auto
  have "tree_at h1 a b u = tree_at h a b u" for a b
    using d(1) out by (intro tree_at_cong) (auto simp: fields)
  moreover have "path_at h1 root a b qs = path_at h root a b qs" for a b
    using d(2) out by (intro path_at_cong) (auto simp: fields)
  ultimately have P1: "path_at h1 root n p ?ps"
    using q(2,3) p unfolding sub by (simp add: fields)
  have T1: "tree_at h1 p n ?n" using assms(5,6) p by (simp add: fields)
  have nodes: "nodes (plug ?ps ?n) = insert_beside s p n (nodes t)"
    unfolding q(1) sub plug.simps
    using D d(1) by (intro nodes_plug_insert) (auto simp: q(1) sub nodes_mk insert_beside_split[of p "[]", simplified] insert_beside_split)
  have "path_inv ?ps 0"
    using path_inv_of_plug[of ?ps Lf h root] I T by (simp add: tq)
  moreover have "distinct (nodes (plug ?ps ?n))"
    unfolding nodes by (rule distinct_insert_beside[OF D assms(4)])
  ultimately show ?thesis
    using rb_insert_color_at[OF T1 P1] assms(5) nodes by (simp add: h1)
qed

text \<open>The first node of a tree.\<close>

lemma rb_link_first:
  assumes "n \<noteq> NULL" "aligned n"
  shows "\<exists>h' root' t'. rb_insert_color n (rb_link_node h NULL n NULL None) = Some (h', root') \<and>
    rb_rep h' root' t' \<and> nodes t' = [n]"
proof -
  obtain h1 where h1: "rb_link_node h NULL n NULL None = (h1, n)" by (simp add: rb_link_node_def Let_def)
  have "rb_child (h1 n) = (\<lambda>_. NULL)" "rb_parent h1 n = NULL" "rb_color h1 n = RB_RED"
    using link_fields[OF h1] by auto
  then show ?thesis
    using rb_insert_color_at[of h1 NULL n "Nd Lf n RB_RED Lf" n "[]"] assms by (simp add: h1)
qed

subsection \<open>Traversal\<close>

text \<open>The nodes before and after the hole of a path.\<close>

fun before_path :: "path \<Rightarrow> addr list" where
  "before_path [] = []"
| "before_path ((s, a, c, u) # ps) = before_path ps @ (if s then nodes u @ [a] else [])"

fun after_path :: "path \<Rightarrow> addr list" where
  "after_path [] = []"
| "after_path ((s, a, c, u) # ps) = (if s then [] else a # nodes u) @ after_path ps"

lemma nodes_plug: "nodes (plug ps t) = before_path ps @ nodes t @ after_path ps"
  by (induction ps t rule: plug.induct) (auto simp: nodes_mk)

definition next_of :: "addr list \<Rightarrow> addr" where "next_of ys = (if ys = [] then NULL else hd ys)"
definition prev_of :: "addr list \<Rightarrow> addr" where "prev_of xs = (if xs = [] then NULL else last xs)"

lemma ends_simps [simp]: "next_of [] = NULL" "next_of (y # ys) = y" "prev_of [] = NULL"
  "prev_of (xs @ y # ys) = prev_of (y # ys)" "next_of ((xs @ y # ys) @ zs) = next_of (xs @ y # ys)"
  "prev_of [y] = y" "prev_of (x # xs @ y # ys) = prev_of (y # ys)"
  by (simp_all add: next_of_def prev_of_def hd_append)

lemma next_of_append [simp]: "next_of (xs @ y # ys @ zs) = next_of (xs @ y # ys)"
  "prev_of (xs @ ys @ y # zs) = prev_of (y # zs)"
  by (simp_all add: next_of_def prev_of_def hd_append)

lemma rb_descend_at:
  assumes "tree_at h par p t" "p \<noteq> NULL"
  shows "rb_descend h RB_LEFT p = Some (next_of (nodes t)) \<and> rb_descend h RB_RIGHT p = Some (prev_of (nodes t))"
  using assms
proof (induction t arbitrary: par p)
  case (Nd l a c r)
  have left: "rb_descend h RB_LEFT a = Some (next_of (nodes (Nd l a c r)))"
  proof (cases l)
    case Lf
    with Nd.prems show ?thesis by (subst rb_descend.simps) simp
  next
    case (Nd ll b d lr)
    with Nd.prems Nd.IH(1)[of a b] show ?thesis
      by (subst rb_descend.simps) simp
  qed
  have right: "rb_descend h RB_RIGHT a = Some (prev_of (nodes (Nd l a c r)))"
  proof (cases r)
    case Lf
    with Nd.prems show ?thesis by (subst rb_descend.simps) simp
  next
    case (Nd rl b d rr)
    with Nd.prems Nd.IH(2)[of a b] show ?thesis
      by (subst rb_descend.simps) (simp add: prev_of_def)
  qed
  from left right Nd.prems show ?case by simp
qed simp

lemma rb_ascend_at:
  assumes "path_at h root a par ps" "a \<noteq> NULL" "rb_parent h a = par"
    "distinct (nodes (plug ps t))" "a \<in> set (nodes t)"
  shows "rb_ascend h RB_RIGHT a = Some (next_of (after_path ps)) \<and> rb_ascend h RB_LEFT a = Some (prev_of (before_path ps))"
  using assms
proof (induction ps t arbitrary: a par rule: plug.induct)
  case (1 t)
  then show ?case by (simp add: rb_ascend.simps[of h _ a] Let_def)
next
  case (2 s b c u ps t)
  note D = distinct_path[OF 2(5)]
  have b: "par = b" "b \<noteq> NULL" "rb_child (h b) s = a" "tree_at h b (rb_child (h b) (\<not> s)) u"
    "path_at h root b (rb_parent h b) ps"
    using 2(2) by auto
  have other: "rb_child (h b) (\<not> s) \<noteq> a" using tree_at_ptr[OF b(4)] 2(3,6) D(5) by auto
  have IH: "rb_ascend h RB_RIGHT b = Some (next_of (after_path ps))" "rb_ascend h RB_LEFT b = Some (prev_of (before_path ps))"
    using 2(1)[OF b(5,2) refl] 2(5) by auto
  show ?case
    using b(1-3) other IH 2(4)
    by (cases s) (auto simp: rb_ascend.simps[of h _ a] Let_def prev_of_def)
qed

lemma rb_step_at:
  assumes "rb_rep h root t" "nodes t = xs @ a # ys"
  shows "rb_next h a = Some (next_of ys) \<and> rb_prev h a = Some (prev_of xs)"
proof -
  have T: "tree_at h NULL root t" and D: "distinct (nodes t)" using assms(1) by (auto simp: rb_rep_def)
  obtain qs l c r where q: "t = plug qs (Nd l a c r)" "tree_at h (rb_parent h a) a (Nd l a c r)"
    "path_at h root a (rb_parent h a) qs"
    using path_to[OF T, of root "[]" a] assms(2) by auto
  have "xs @ a # ys = (before_path qs @ nodes l) @ a # (nodes r @ after_path qs)"
    using assms(2) by (simp add: q(1) nodes_plug)
  moreover have "a \<notin> set xs" "a \<notin> set ys" using D assms(2) by simp_all
  ultimately have parts: "xs = before_path qs @ nodes l" "ys = nodes r @ after_path qs"
    using append_Cons_eq_iff[of a xs ys "before_path qs @ nodes l" "nodes r @ after_path qs"] by simp_all
  have a: "a \<noteq> NULL" "tree_at h a (rb_child (h a) RB_LEFT) l" "tree_at h a (rb_child (h a) RB_RIGHT) r" using q(2) by auto
  have "rb_parent h a \<noteq> a"
    using path_at_par[OF q(3)] a(1) distinct_plug[of qs "Nd l a c r"] D q(1) by auto
  moreover note rb_ascend_at[OF q(3) a(1) refl, of "Nd l a c r"]
  ultimately show ?thesis
    using a(2,3) D q(1) rb_descend_at[OF a(2)] rb_descend_at[OF a(3)]
    by (cases l; cases r) (simp_all add: rb_next_def rb_prev_def rb_step_def parts)
qed

subsection \<open>Properties\<close>

text \<open>C6. Linking a new node into an empty slot below \<open>p\<close> and calling \<open>rb_insert_color\<close>
  returns a red-black tree with the same nodes in the same order and the new one immediately before
  or after \<open>p\<close>: the pointers, parent links and packed colours of the result are again those of
  a tree in which no red node has a red child and all paths have the same number of black nodes.\<close>

theorem rb_insert_correct:
  assumes "rb_rep h root t" "p \<in> set (nodes t)" "rb_child (h p) s = NULL"
    and "n \<notin> set (nodes t)" "n \<noteq> NULL" "aligned n"
  shows "\<exists>h' root' t'. rb_insert_color n (rb_link_node h root n p (Some (p, s))) = Some (h', root')
    \<and> rb_rep h' root' t' \<and> nodes t' = insert_beside s p n (nodes t)"
  by (rule rb_link_at[OF assms])

text \<open>C33. In a red-black tree \<open>rb_first\<close> and \<open>rb_last\<close> return the ends of the order of its
  nodes, and \<open>rb_next\<close> and \<open>rb_prev\<close> the neighbours of a node, NULL at the ends.\<close>

theorem rb_traversal:
  assumes "rb_rep h root t"
  shows "rb_first h root = Some (next_of (nodes t)) \<and> rb_last h root = Some (prev_of (nodes t))
    \<and> (\<forall>xs a ys. nodes t = xs @ a # ys \<longrightarrow> rb_next h a = Some (next_of ys) \<and> rb_prev h a = Some (prev_of xs))"
proof -
  have T: "tree_at h NULL root t" using assms by (simp add: rb_rep_def)
  have "rb_first h root = Some (next_of (nodes t)) \<and> rb_last h root = Some (prev_of (nodes t))"
  proof (cases "root = NULL")
    case True
    with T show ?thesis by (cases t) (auto simp: rb_first_def rb_last_def rb_end_def)
  next
    case False
    with rb_descend_at[OF T] show ?thesis by (simp add: rb_first_def rb_last_def rb_end_def)
  qed
  with rb_step_at[OF assms] show ?thesis by blast
qed

text \<open>A tree of two nodes, built by the code itself.\<close>

lemma demo_tree:
  obtains h root t where "rb_insert_color 16 (rb_link_node h0 NULL 16 NULL None) = Some (h, root)"
    "rb_rep h root t" "nodes t = [16]" "rb_child (h 16) s = NULL"
proof -
  have "aligned 16" by (simp add: aligned_def)
  with rb_link_first[of 16 h0] obtain h root t
    where r: "rb_insert_color 16 (rb_link_node h0 NULL 16 NULL None) = Some (h, root)" "rb_rep h root t" "nodes t = [16]"
    by auto
  have leaf: "nodes x = [] \<longleftrightarrow> x = Lf" for x by (cases x) auto
  from r(3) obtain c where "t = Nd Lf 16 c Lf" by (cases t) (auto simp: Cons_eq_append_conv append_eq_Cons_conv leaf)
  with r have "rb_child (h 16) s = NULL" by (cases s) (auto simp: rb_rep_def)
  with r that show thesis by blast
qed

theorem rb_insert_correct_witness:
  "\<exists>h root t h' root' t'. rb_rep h root t \<and> nodes t = [16]
    \<and> rb_insert_color 32 (rb_link_node h root 32 16 (Some (16, RB_RIGHT))) = Some (h', root')
    \<and> rb_rep h' root' t' \<and> nodes t' = [16, 32]"
proof -
  obtain h root t where r: "rb_rep h root t" "nodes t = [16]" "rb_child (h 16) RB_RIGHT = NULL"
    using demo_tree by metis
  have "aligned 32" by (simp add: aligned_def)
  with rb_insert_correct[of h root t 16 RB_RIGHT 32] r show ?thesis by fastforce
qed

theorem rb_traversal_witness:
  "\<exists>h root t. rb_rep h root t \<and> rb_first h root = Some 16 \<and> rb_next h 16 = Some NULL"
proof -
  obtain h root t where r: "rb_rep h root t" "nodes t = [16]" using demo_tree by metis
  from rb_traversal[OF r(1)] have "nodes t = [] @ 16 # [] \<longrightarrow> rb_next h 16 = Some (next_of [])" by blast
  with rb_traversal[OF r(1)] r show ?thesis by (intro exI[of _ h] exI[of _ root] exI[of _ t]) simp
qed

end
