(* ===== verification/RBErase.thy ===== *)
theory RBErase
  imports RBTree
begin

text \<open>
  Removal from a red-black tree: \<open>rb_erase\<close> of \<^verbatim>\<open>kernel/rbtree.c\<close> keeps the representation and the
  invariant. The loop of \<open>__rb_erase_color\<close> is followed with a tree that is one black node short
  below a path; the lemmas \<open>erase_stop\<close>, \<open>erase_sib_at\<close> and \<open>erase_red\<close> are its cases. The
  lemmas \<open>erase_one_at\<close> and \<open>erase_two_at\<close> describe how a node leaves the tree.
\<close>

subsection \<open>Removal\<close>

text \<open>\<open>painted t\<close> is \<open>t\<close> with a black root.\<close>

primrec painted :: "rbt \<Rightarrow> rbt" where
  "painted Lf = Lf"
| "painted (Nd l a c r) = Nd l a RB_BLACK r"

lemma painted_mk [simp]: "painted (mk s a c x y) = mk s a RB_BLACK x y"
  by (simp add: mk.simps)

lemma nodes_painted [simp]: "nodes (painted t) = nodes t"
  by (cases t) auto

lemma painted_black: "root_color t = RB_BLACK \<Longrightarrow> painted t = t"
  by (cases t) auto

lemma root_color_painted [simp]: "root_color (painted t) = RB_BLACK"
  by (cases t) auto

lemma set_black_at:
  assumes "tree_at h par p t" "p \<noteq> NULL" "distinct (nodes t)"
  shows "tree_at (rb_set_black h p) par p (painted t)"
proof (cases t)
  case (Nd l a c r)
  have "tree_at (rb_set_black h p) q b x = tree_at h q b x" if "p \<notin> set (nodes x)" for q b x
    using that by (intro tree_at_cong) auto
  with assms show ?thesis by (auto simp: Nd)
qed (use assms in simp)

lemma set_black_path: "p \<notin> path_nodes ps \<Longrightarrow> path_at (rb_set_black h p) root q par ps = path_at h root q par ps"
  by (intro path_at_cong) auto

lemma black_or_null_at: "tree_at h par p t \<Longrightarrow> black_or_null h p \<longleftrightarrow> root_color t = RB_BLACK"
  by (cases t) (auto simp: black_or_null_def)

text \<open>A subtree that is one black node short of what its path expects.\<close>

definition short_by_one :: "path \<Rightarrow> rbt \<Rightarrow> bool" where
  "short_by_one ps t \<longleftrightarrow> invc (painted t) \<and> invh t \<and> (root_color t = RB_RED \<or> root_color t = RB_BLACK) \<and>
     path_inv ps (bheight t + 1)"

text \<open>The result of the loop, with the last assignment of \<open>__rb_erase_color\<close>.\<close>

definition finished :: "(addr \<times> rb_heap \<times> addr) option \<Rightarrow> addr list \<Rightarrow> bool" where
  "finished res xs \<longleftrightarrow> (\<exists>n h root t. res = Some (n, (h, root)) \<and>
     rb_rep (if n \<noteq> NULL then rb_set_black h n else h) root t \<and> nodes t = xs)"

lemma erase_stop:
  assumes T: "tree_at h par n t" and P: "path_at h root n par ps" and D: "distinct (nodes (plug ps t))"
    and S: "short_by_one ps t" and stop: "root_color t = RB_RED \<or> ps = []"
  shows "finished (rb_erase_loop n par (h, root)) (nodes (plug ps t))"
proof -
  have d: "distinct (nodes t)" "set (nodes t) \<inter> path_nodes ps = {}" using distinct_plug[OF D] by blast+
  have loop: "rb_erase_loop n par (h, root) = Some (n, (h, root))"
    using stop black_or_null_at[OF T] P by (subst rb_erase_loop.simps) (auto simp: Let_def)
  let ?h = "if n \<noteq> NULL then rb_set_black h n else h"
  have null: "n = NULL \<Longrightarrow> t = Lf" using T by (cases t) auto
  have T': "tree_at ?h par n (painted t)"
  proof (cases "n = NULL")
    case True
    with null show ?thesis by simp
  next
    case False
    with set_black_at[OF T False d(1)] show ?thesis by simp
  qed
  have P': "path_at ?h root n par ps"
    using P set_black_path[of n ps h root n par] tree_at_ptr[OF T] d(2) by auto
  have "painted t \<noteq> Lf \<or> ps \<noteq> [] \<or> root = NULL" using T P by (cases t) auto
  from plug_at[OF T' P' this] have "tree_at ?h NULL root (plug ps (painted t))" .
  moreover have "rb_inv (plug ps (painted t))"
  proof -
    have "bheight (painted t) = bheight t + 1 \<or> ps = []"
      using stop by (cases t) (auto)
    then have "path_inv ps (bheight (painted t))" using S by (auto simp: short_by_one_def)
    moreover have "invc (painted t)" "invh (painted t)" using S by (cases t; simp add: short_by_one_def)+
    ultimately show ?thesis
      using plug_inv[of ps "painted t"] by (cases ps) (auto simp: rb_inv_def)
  qed
  moreover have "nodes (plug ps (painted t)) = nodes (plug ps t)" by (rule nodes_plug_cong) simp
  ultimately show ?thesis
    using loop D unfolding finished_def rb_rep_def
    by (intro exI[of _ n] exI[of _ h] exI[of _ root] exI[of _ "plug ps (painted t)"]) simp
qed

text \<open>The parts of a pass: the last rotation, and the treatment of a black sibling.\<close>

definition erase_tail :: "bool \<Rightarrow> addr \<Rightarrow> addr \<Rightarrow> rb_heap \<times> addr \<Rightarrow> (addr \<times> rb_heap \<times> addr) option" where
  "erase_tail side parent other st = do {
     let (h, root) = st;
     let h = rb_set_color h other (rb_color h parent);
     let h = rb_set_black h parent;
     let h = rb_set_black h (rb_child (h other) (\<not> side));
     (h, root) \<leftarrow> rb_rotate side parent (h, root);
     Some (root, (h, root))
   }"

definition erase_sib :: "bool \<Rightarrow> addr \<Rightarrow> addr \<Rightarrow> rb_heap \<times> addr \<Rightarrow> (addr \<times> rb_heap \<times> addr) option" where
  "erase_sib side parent other st = (let (h, root) = st in
     if other = NULL then None
     else if black_or_null h (rb_child (h other) RB_LEFT) \<and> black_or_null h (rb_child (h other) RB_RIGHT)
     then let h = rb_set_red h other in rb_erase_loop parent (rb_parent h parent) (h, root)
     else if black_or_null h (rb_child (h other) (\<not> side))
     then do {
       let h = rb_set_black h (rb_child (h other) side);
       let h = rb_set_red h other;
       (h, root) \<leftarrow> rb_rotate (\<not> side) other (h, root);
       erase_tail side parent (rb_child (h parent) (\<not> side)) (h, root)
     }
     else erase_tail side parent other (h, root))"

lemma erase_loop_sib:
  assumes "black_or_null h node" "node \<noteq> root" "parent \<noteq> NULL"
  defines "side \<equiv> rb_child (h parent) RB_LEFT \<noteq> node"
  defines "other \<equiv> rb_child (h parent) (\<not> side)"
  shows "rb_erase_loop node parent (h, root) =
    (if other = NULL then None
     else if rb_is_red h other
     then rb_rotate side parent (rb_set_red (rb_set_black h other) parent, root) \<bind>
       (\<lambda>st. erase_sib side parent (rb_child (fst st parent) (\<not> side)) st)
     else erase_sib side parent other (h, root))"
proof -
  have sib: "(if other = NULL then None
      else if black_or_null h (rb_child (h other) RB_LEFT) \<and> black_or_null h (rb_child (h other) RB_RIGHT)
      then let h = rb_set_red h other in rb_erase_loop parent (rb_parent h parent) (h, root)
      else do {
        (other, (h, root)) \<leftarrow>
          (if black_or_null h (rb_child (h other) (\<not> side))
           then do {
             let h = rb_set_black h (rb_child (h other) side);
             let h = rb_set_red h other;
             (h, root) \<leftarrow> rb_rotate (\<not> side) other (h, root);
             Some (rb_child (h parent) (\<not> side), (h, root))
           }
           else Some (other, (h, root)));
        let h = rb_set_color h other (rb_color h parent);
        let h = rb_set_black h parent;
        let h = rb_set_black h (rb_child (h other) (\<not> side));
        (h, root) \<leftarrow> rb_rotate side parent (h, root);
        Some (root, (h, root))
      }) = erase_sib side parent other (h, root)" for other h root
    by (cases "rb_rotate (\<not> side) other (rb_set_red (rb_set_black h (rb_child (h other) side)) other, root)")
      (simp_all add: erase_sib_def erase_tail_def Let_def split: prod.splits)
  show ?thesis
    using assms(1-3) unfolding rb_erase_loop.simps[of node parent] Let_def prod.case side_def[symmetric] other_def[symmetric]
    by (simp only: sib[unfolded Let_def] if_True if_False simp_thms) (simp add: split_def)
qed

lemma tree_at_same_ptr: "tree_at h q a t \<Longrightarrow> tree_at h' q' b t \<Longrightarrow> a = b"
  by (cases t) auto

lemma set_color_child [simp]: "rb_child (rb_set_color h r c q) = rb_child (h q)"
  by (simp add: rb_set_color_def)

lemma set_color_fields:
  assumes "c = RB_RED \<or> c = RB_BLACK"
  shows "rb_parent (rb_set_color h r c) q = rb_parent h q"
    "rb_color (rb_set_color h r c) q = (if q = r then c else rb_color h q)"
  using assms
  by (elim disjE; simp add: rb_set_color_def rb_parent_def rb_color_def color_parent color_set RB_RED_def RB_BLACK_def)+

text \<open>The sibling is black and its far child red.\<close>

lemma erase_tail_at:
  assumes T: "tree_at h p n t" and P: "path_at h root n p ((s, p, c, mk s k RB_BLACK x y) # ps)"
    and D: "distinct (nodes (plug ((s, p, c, mk s k RB_BLACK x y) # ps) t))" and y: "root_color y = RB_RED"
    and inv: "invc t" "invh t" "invc x" "invh x" "invc y" "invh y" "bheight x = bheight t" "bheight y = bheight t"
      "c \<in> {RB_RED, RB_BLACK}" "c = RB_RED \<longrightarrow> (\<exists>s' b v qs. ps = (s', b, RB_BLACK, v) # qs)"
      "path_inv ps (if c = RB_BLACK then bheight t + 2 else bheight t + 1)"
  shows "finished (erase_tail s p k (h, root)) (nodes (plug ((s, p, c, mk s k RB_BLACK x y) # ps) t))"
proof -
  obtain yl b yr where yN: "y = Nd yl b RB_RED yr" using y by (cases y) auto
  note d = distinct_path[OF D]
  have p: "p \<noteq> NULL" "rb_color h p = c" "rb_child (h p) s = n" "rb_child (h p) (\<not> s) = k" "rb_child (h k) (\<not> s) = b"
    "tree_at h k (rb_child (h k) s) x" "tree_at h k b y" "path_at h root p (rb_parent h p) ps" "k \<noteq> NULL" "aligned k"
    "rb_parent h k = p" "aligned p"
    using P by (auto simp: yN)
  have ne: "p \<noteq> k" "b \<noteq> p" "b \<noteq> k" using d by (auto simp: yN)
  have cc: "c = RB_RED \<or> c = RB_BLACK" using inv(9) by auto
  note [simp] = set_color_fields[OF cc]
  define h3 where "h3 = rb_set_black (rb_set_black (rb_set_color h k c) p) b"
  have keep: "tree_at h3 q a z = tree_at h q a z" if "{p, k, b} \<inter> set (nodes z) = {}" for q a z
    unfolding h3_def using that by (intro tree_at_cong) auto
  have disj: "{p, k, b} \<inter> set (nodes t) = {}" "{p, k, b} \<inter> set (nodes x) = {}"
    "{p, k, b} \<inter> set (nodes yl) = {}" "{p, k, b} \<inter> set (nodes yr) = {}"
    using d by (auto simp: yN)
  note keeps = keep[OF disj(1)] keep[OF disj(2)] keep[OF disj(3)] keep[OF disj(4)]
  have T3: "tree_at h3 (rb_parent h p) p (mk s p RB_BLACK t (mk s k c x (painted y)))"
    using T p ne by (simp add: keeps yN) (simp add: h3_def)
  have P3: "path_at h3 root p (rb_parent h p) ps"
    unfolding h3_def using p(8) d by (subst path_at_cong[where h = h]) (auto simp: yN)
  let ?all = "plug ((s, p, c, mk s k RB_BLACK x y) # ps) t"
  have n1: "nodes (plug ps (mk s p RB_BLACK t (mk s k c x (painted y)))) = nodes ?all"
    unfolding plug.simps by (intro nodes_plug_cong) (simp add: nodes_mk)
  let ?t = "mk s k c (mk s p RB_BLACK t x) (painted y)"
  have n2: "nodes (plug ps ?t) = nodes ?all"
    unfolding plug.simps by (intro nodes_plug_cong) (simp add: nodes_mk)
  have D3: "distinct (nodes (plug ps (mk s p RB_BLACK t (mk s k c x (painted y)))))" using D n1 by simp
  from rotate_at[OF T3 P3 D3] obtain h' root' where r: "rb_rotate s p (h3, root) = Some (h', root')"
    "tree_at h' (rb_parent h p) k ?t" "path_at h' root' k (rb_parent h p) ps" by blast
  have tail: "erase_tail s p k (h, root) = Some (root', (h', root'))"
    using r(1) ne p(2,5) by (simp add: erase_tail_def Let_def h3_def)
  have T': "tree_at h' NULL root' (plug ps ?t)" using plug_at[OF r(2,3)] by (simp add: mk.simps)
  have py: "bheight (painted y) = bheight t + 1" "invc (painted y)" "invh (painted y)" using inv by (auto simp: yN)
  have "path_inv ps (bheight ?t)" "invc ?t" "invh ?t"
    using inv py by (auto simp: bheight_mk)
  moreover have "root_color ?t = RB_BLACK \<or> (\<exists>s b v qs. ps = (s, b, RB_BLACK, v) # qs) \<or> ps = []" using inv by auto
  ultimately have I: "invc (plug ps ?t)" "invh (plug ps ?t)" "ps \<noteq> [] \<longrightarrow> root_color (plug ps ?t) = RB_BLACK"
    using plug_inv by blast+
  moreover have "ps = [] \<Longrightarrow> c = RB_BLACK" using inv(9,10) by auto
  ultimately have "rb_inv (plug ps ?t)" by (cases ps) (auto simp: rb_inv_def)
  moreover from this have "painted (plug ps ?t) = plug ps ?t" by (intro painted_black) (simp add: rb_inv_def)
  moreover have "root' \<noteq> NULL" using T' set_nodes_plug[of ps ?t] by (cases "plug ps ?t") auto
  ultimately have "rb_rep (rb_set_black h' root') root' (plug ps ?t)"
    using set_black_at[OF T'] D n2 by (simp add: rb_rep_def)
  with tail n2 \<open>root' \<noteq> NULL\<close> show ?thesis by (auto simp: finished_def)
qed

text \<open>The near child is red: a rotation of the sibling makes it the far one.\<close>

lemma erase_near:
  assumes T: "tree_at h p n t" and P: "path_at h root n p ((s, p, c, mk s k RB_BLACK x y) # ps)"
    and D: "distinct (nodes (plug ((s, p, c, mk s k RB_BLACK x y) # ps) t))" and x: "x = mk s b RB_RED x1 x2"
  defines "h1 \<equiv> rb_set_red (rb_set_black h (rb_child (h k) s)) k"
  shows "\<exists>h' root'. rb_rotate (\<not> s) k (h1, root) = Some (h', root') \<and> tree_at h' p n t \<and>
    path_at h' root' n p ((s, p, c, mk s b RB_BLACK x1 (mk s k RB_RED x2 y)) # ps) \<and> rb_child (h' p) (\<not> s) = b"
proof -
  note d = distinct_path[OF D]
  have p: "p \<noteq> NULL" "aligned p" "rb_color h p = c" "rb_child (h p) s = n" "rb_child (h p) (\<not> s) = k" "rb_child (h k) s = b"
    "tree_at h k b x" "tree_at h k (rb_child (h k) (\<not> s)) y" "path_at h root p (rb_parent h p) ps" "k \<noteq> NULL" "aligned k"
    "rb_parent h k = p"
    using P by (auto simp: x)
  have ne: "p \<noteq> k" "b \<noteq> p" "b \<noteq> k" using d by (auto simp: x)
  have keep: "tree_at h1 q a z = tree_at h q a z" if "{k, b} \<inter> set (nodes z) = {}" for q a z
    unfolding h1_def p(6) using that by (intro tree_at_cong) auto
  have disj: "{k, b} \<inter> set (nodes t) = {}" "{k, b} \<inter> set (nodes x1) = {}" "{k, b} \<inter> set (nodes x2) = {}"
    "{k, b} \<inter> set (nodes y) = {}"
    using d by (auto simp: x)
  note keeps = keep[OF disj(1)] keep[OF disj(2)] keep[OF disj(3)] keep[OF disj(4)]
  let ?ps = "(\<not> s, p, c, t) # ps"
  have T1: "tree_at h1 p k (mk (\<not> s) k RB_RED y (mk (\<not> s) b RB_BLACK x2 x1))"
    using p ne by (simp add: keeps x) (simp add: h1_def)
  have "path_at h1 root q a ps = path_at h root q a ps" for q a
    unfolding h1_def p(6) using d by (intro path_at_cong) (auto simp: x)
  then have P1: "path_at h1 root k p ?ps"
    using p T ne by (simp add: keeps) (simp add: h1_def p(6))
  have "nodes (plug ?ps (mk (\<not> s) k RB_RED y (mk (\<not> s) b RB_BLACK x2 x1))) =
      nodes (plug ((s, p, c, mk s k RB_BLACK x y) # ps) t)"
    unfolding plug.simps mk_flip by (intro nodes_plug_cong) (simp add: nodes_mk x)
  then have "distinct (nodes (plug ?ps (mk (\<not> s) k RB_RED y (mk (\<not> s) b RB_BLACK x2 x1))))" using D by simp
  from rotate_at[OF T1 P1 this] obtain h' root' where r: "rb_rotate (\<not> s) k (h1, root) = Some (h', root')"
    "tree_at h' p b (mk (\<not> s) b RB_BLACK (mk (\<not> s) k RB_RED y x2) x1)" "path_at h' root' b p ?ps"
    by blast
  have "rb_child (h' p) s = n"
    using r(3) T by (auto intro: tree_at_same_ptr)
  with r show ?thesis by (simp add: mk_flip)
qed

text \<open>The sibling is black. \<open>IH\<close> is what the loop does one level up.\<close>

lemma erase_sib_at:
  assumes T: "tree_at h p n t" and P: "path_at h root n p ((s, p, c, mk s k RB_BLACK x y) # ps)"
    and D: "distinct (nodes (plug ((s, p, c, mk s k RB_BLACK x y) # ps) t))" and t: "root_color t = RB_BLACK"
    and inv: "invc t" "invh t" "path_inv ((s, p, c, mk s k RB_BLACK x y) # ps) (bheight t + 1)"
    and IH: "\<And>h' t'. tree_at h' (rb_parent h p) p t' \<Longrightarrow> path_at h' root p (rb_parent h p) ps \<Longrightarrow>
      distinct (nodes (plug ps t')) \<Longrightarrow> short_by_one ps t' \<Longrightarrow> root_color t' = c \<Longrightarrow>
      finished (rb_erase_loop p (rb_parent h p) (h', root)) (nodes (plug ps t'))"
  shows "finished (erase_sib s p k (h, root)) (nodes (plug ((s, p, c, mk s k RB_BLACK x y) # ps) t))"
proof -
  have I: "invc x" "invh x" "invc y" "invh y" "bheight x = bheight t" "bheight y = bheight t"
    "c \<in> {RB_RED, RB_BLACK}" "c = RB_RED \<longrightarrow> (\<exists>s' b v qs. ps = (s', b, RB_BLACK, v) # qs)"
    "path_inv ps (if c = RB_BLACK then bheight t + 2 else bheight t + 1)"
    using inv(3) by (auto simp: bheight_mk)
  have k: "k \<noteq> NULL" "tree_at h k (rb_child (h k) s) x" "tree_at h k (rb_child (h k) (\<not> s)) y"
    "rb_child (h p) (\<not> s) = k" "rb_child (h p) s = n" "p \<noteq> NULL" "path_at h root p (rb_parent h p) ps" "aligned p"
    "rb_color h p = c"
    using P by auto
  have kids: "black_or_null h (rb_child (h k) s) \<longleftrightarrow> root_color x = RB_BLACK"
    "black_or_null h (rb_child (h k) (\<not> s)) \<longleftrightarrow> root_color y = RB_BLACK"
    using black_or_null_at[OF k(2)] black_or_null_at[OF k(3)] by simp_all
  have both: "black_or_null h (rb_child (h k) RB_LEFT) \<and> black_or_null h (rb_child (h k) RB_RIGHT) \<longleftrightarrow>
      root_color x = RB_BLACK \<and> root_color y = RB_BLACK"
    using kids by (cases s) auto
  note d = distinct_path[OF D]
  consider "root_color x = RB_BLACK" "root_color y = RB_BLACK" | "root_color y = RB_RED" | "root_color x = RB_RED" "root_color y = RB_BLACK"
    using tree_at_colored[OF k(2)] tree_at_colored[OF k(3)] by blast
  then show ?thesis
  proof cases
    case 1
    let ?t = "mk s p c t (mk s k RB_RED x y)" and ?h = "rb_set_red h k"
    have "erase_sib s p k (h, root) = rb_erase_loop p (rb_parent h p) (?h, root)"
      using 1 k(1) by (simp add: erase_sib_def both Let_def)
    moreover have "nodes (plug ps ?t) = nodes (plug ((s, p, c, mk s k RB_BLACK x y) # ps) t)"
      unfolding plug.simps by (intro nodes_plug_cong) (simp add: nodes_mk)
    moreover have "finished (rb_erase_loop p (rb_parent h p) (?h, root)) (nodes (plug ps ?t))"
    proof (rule IH)
      have keep: "tree_at ?h q a z = tree_at h q a z" if "k \<notin> set (nodes z)" for q a z
        using that by (intro tree_at_cong) auto
      show "tree_at ?h (rb_parent h p) p ?t" using T P d by (auto simp: keep)
      show "path_at ?h root p (rb_parent h p) ps"
        using k(7) d by (subst path_at_cong[where h = h]) auto
      show "distinct (nodes (plug ps ?t))" using calculation(2) D by simp
      show "short_by_one ps ?t" using I 1 t inv(1,2) by (auto simp: short_by_one_def bheight_mk)
      show "root_color ?t = c" by simp
    qed
    ultimately show ?thesis by simp
  next
    case 2
    then have "erase_sib s p k (h, root) = erase_tail s p k (h, root)"
      using k(1) kids(2) both by (auto simp: erase_sib_def Let_def)
    with erase_tail_at[OF T P D 2 inv(1,2) I] show ?thesis by simp
  next
    case 3
    obtain b x1 x2 where x: "x = mk s b RB_RED x1 x2" using 3 by (cases x; cases s) (auto simp: mk.simps)
    let ?u = "mk s b RB_BLACK x1 (mk s k RB_RED x2 y)"
    obtain h' root' where r: "rb_rotate (\<not> s) k (rb_set_red (rb_set_black h (rb_child (h k) s)) k, root) = Some (h', root')"
      "tree_at h' p n t" "path_at h' root' n p ((s, p, c, ?u) # ps)" "rb_child (h' p) (\<not> s) = b"
      using erase_near[OF T P D x] by blast
    have "erase_sib s p k (h, root) = erase_tail s p b (h', root')"
      using k(1) kids(2) both 3 r(1,4) by (auto simp: erase_sib_def Let_def)
    moreover have n: "nodes (plug ((s, p, c, ?u) # ps) t) = nodes (plug ((s, p, c, mk s k RB_BLACK x y) # ps) t)"
      unfolding plug.simps by (intro nodes_plug_cong) (simp add: nodes_mk x)
    moreover have "finished (erase_tail s p b (h', root')) (nodes (plug ((s, p, c, ?u) # ps) t))"
      using I 3 inv(1,2) n D by (intro erase_tail_at[OF r(2,3)]) (auto simp: x bheight_mk)
    ultimately show ?thesis by simp
  qed
qed

lemma root_not_hole:
  assumes "path_at h root n par ps" "ps \<noteq> []" "tree_at h par n t" "distinct (nodes (plug ps t))"
  shows "n \<noteq> root"
proof -
  have "path_at h root q b qs \<Longrightarrow> root \<in> insert q (path_nodes qs) \<and> (qs \<noteq> [] \<longrightarrow> root \<in> path_nodes qs \<and> root \<noteq> NULL)" for q b qs
  proof (induction qs arbitrary: q b)
    case (Cons x qs)
    obtain s a c u where x: "x = (s, a, c, u)" by (cases x)
    with Cons.prems Cons.IH[of a "rb_parent h a"] show ?case by (cases qs) auto
  qed simp
  with assms have "root \<in> path_nodes ps" "root \<noteq> NULL" by blast+
  then show ?thesis
    using tree_at_ptr[OF assms(3)] distinct_plug[OF assms(4)] by auto
qed

lemma mk_cases:
  assumes "t \<noteq> Lf"
  obtains a c x y where "t = mk s a c x y"
proof -
  from assms obtain l a c r where "t = Nd l a c r" by (cases t) auto
  then have "t = mk s a c (if s then r else l) (if s then l else r)" by (simp add: mk.simps)
  with that show thesis by blast
qed

text \<open>A red sibling is rotated away; its near child is the new, black sibling.\<close>

lemma erase_red:
  assumes T: "tree_at h p n t" and P: "path_at h root n p ((s, p, RB_BLACK, mk s k RB_RED x y) # ps)"
    and D: "distinct (nodes (plug ((s, p, RB_BLACK, mk s k RB_RED x y) # ps) t))"
  shows "\<exists>h' root'. rb_rotate s p (rb_set_red (rb_set_black h k) p, root) = Some (h', root') \<and> tree_at h' p n t \<and>
    path_at h' root' n p ((s, p, RB_RED, x) # (s, k, RB_BLACK, y) # ps)"
proof -
  note d = distinct_path[OF D]
  let ?h = "rb_set_red (rb_set_black h k) p"
  have p: "p \<noteq> NULL" "aligned p" "rb_child (h p) s = n" "rb_child (h p) (\<not> s) = k" "path_at h root p (rb_parent h p) ps"
    "tree_at h k (rb_child (h k) s) x" "tree_at h k (rb_child (h k) (\<not> s)) y" "k \<noteq> NULL" "aligned k" "rb_parent h k = p"
    using P by auto
  have ne: "p \<noteq> k" using d by auto
  have keep: "tree_at ?h q a z = tree_at h q a z" if "{k, p} \<inter> set (nodes z) = {}" for q a z
    using that by (intro tree_at_cong) auto
  have disj: "{k, p} \<inter> set (nodes t) = {}" "{k, p} \<inter> set (nodes x) = {}" "{k, p} \<inter> set (nodes y) = {}"
    using d by auto
  note keeps = keep[OF disj(1)] keep[OF disj(2)] keep[OF disj(3)]
  have T1: "tree_at ?h (rb_parent h p) p (mk s p RB_RED t (mk s k RB_BLACK x y))"
    using p T ne by (simp add: keeps)
  have P1: "path_at ?h root p (rb_parent h p) ps"
    using p(5) d by (subst path_at_cong[where h = h]) auto
  have "nodes (plug ps (mk s p RB_RED t (mk s k RB_BLACK x y))) = nodes (plug ((s, p, RB_BLACK, mk s k RB_RED x y) # ps) t)"
    unfolding plug.simps by (intro nodes_plug_cong) (simp add: nodes_mk)
  then have "distinct (nodes (plug ps (mk s p RB_RED t (mk s k RB_BLACK x y))))" using D by simp
  from rotate_at[OF T1 P1 this] obtain h' root' where r: "rb_rotate s p (?h, root) = Some (h', root')"
    "tree_at h' (rb_parent h p) k (mk s k RB_BLACK (mk s p RB_RED t x) y)" "path_at h' root' k (rb_parent h p) ps"
    by blast
  moreover have "rb_child (h' p) s = n" using r(2) T by (auto intro: tree_at_same_ptr)
  ultimately show ?thesis by auto
qed

lemma erase_loop_at:
  assumes "tree_at h par n t" "path_at h root n par ps" "distinct (nodes (plug ps t))" "short_by_one ps t"
  shows "finished (rb_erase_loop n par (h, root)) (nodes (plug ps t))"
  using assms
proof (induction "length ps" arbitrary: ps h root par n t rule: less_induct)
  case less
  note T = less.prems(1) and P = less.prems(2) and D = less.prems(3) and S = less.prems(4)
  show ?case
  proof (cases "root_color t = RB_RED \<or> ps = []")
    case True
    then show ?thesis using erase_stop[OF T P D S] by blast
  next
    case False
    then have t: "root_color t = RB_BLACK" and ne: "ps \<noteq> []" using S by (auto simp: short_by_one_def)
    then obtain s p c u qs where ps: "ps = (s, p, c, u) # qs" by (cases ps) auto
    have par: "par = p" using P by (simp add: ps)
    note P' = P[unfolded ps par] and D' = D[unfolded ps] and T' = T[unfolded par]
    have I: "invc t" "invh t" "path_inv ((s, p, c, u) # qs) (bheight t + 1)"
      using S painted_black[OF t] by (auto simp: short_by_one_def ps)
    have p: "p \<noteq> NULL" "rb_child (h p) s = n" "tree_at h p (rb_child (h p) (\<not> s)) u" "path_at h root p (rb_parent h p) qs"
      using P' by auto
    have "u \<noteq> Lf" using I(3) by auto
    then obtain k d x y where u: "u = mk s k d x y" using mk_cases by metis
    have k: "rb_child (h p) (\<not> s) = k" "k \<noteq> NULL" "rb_color h k = d" using p(3) by (auto simp: u)
    have "k \<noteq> n" using tree_at_ptr[OF T] distinct_path(5)[OF D'] k(2) by (auto simp: u)
    then have side: "(rb_child (h p) RB_LEFT \<noteq> n) = s" using p(2) k(1) by (cases s) auto
    have loop: "rb_erase_loop n p (h, root) =
        (if d = RB_RED then rb_rotate s p (rb_set_red (rb_set_black h k) p, root) \<bind>
           (\<lambda>st. erase_sib s p (rb_child (fst st p) (\<not> s)) st)
         else erase_sib s p k (h, root))"
      using erase_loop_sib[of h n root p] black_or_null_at[OF T] t root_not_hole[OF P ne T D] p(1) k
      unfolding side by simp
    have d: "d = RB_RED \<or> d = RB_BLACK" using tree_at_colored[OF p(3)] by (simp add: u)
    show ?thesis
    proof (cases "d = RB_RED")
      case False
      with d have dB: "d = RB_BLACK" by simp
      have "finished (erase_sib s p k (h, root)) (nodes (plug ((s, p, c, mk s k RB_BLACK x y) # qs) t))"
        using less.hyps[of qs] I by (intro erase_sib_at[OF T' P'[unfolded u dB] D'[unfolded u dB] t]) (auto simp: ps u dB)
      with loop False show ?thesis by (simp add: par ps u dB)
    next
      case True
      have c: "c = RB_BLACK" using I(3) True by (auto simp: u)
      obtain h' root' where r: "rb_rotate s p (rb_set_red (rb_set_black h k) p, root) = Some (h', root')" "tree_at h' p n t"
        "path_at h' root' n p ((s, p, RB_RED, x) # (s, k, RB_BLACK, y) # qs)"
        using erase_red[OF T' P'[unfolded u True c] D'[unfolded u True c]] by blast
      let ?ps = "(s, p, RB_RED, x) # (s, k, RB_BLACK, y) # qs"
      have n: "nodes (plug ?ps t) = nodes (plug ps t)"
        unfolding ps u plug.simps by (intro nodes_plug_cong) (simp add: nodes_mk)
      have I': "invc x" "invh x" "root_color x = RB_BLACK" "bheight x = bheight t + 1" "invc y" "invh y" "bheight y = bheight t + 1"
        "path_inv qs (bheight t + 2)"
        using I(3) by (auto simp: u True c bheight_mk)
      then have pinv: "path_inv ?ps (bheight t + 1)" by simp
      have "x \<noteq> Lf" using I'(4) by auto
      then obtain m e x1 x2 where x: "x = mk s m e x1 x2" using mk_cases by metis
      have eB: "e = RB_BLACK" using I'(3) by (simp add: x)
      have other: "rb_child (h' p) (\<not> s) = m" using r(3) by (simp add: x)
      have "finished (erase_sib s p m (h', root')) (nodes (plug ((s, p, RB_RED, mk s m RB_BLACK x1 x2) # (s, k, RB_BLACK, y) # qs) t))"
      proof (rule erase_sib_at[OF r(2) r(3)[unfolded x eB] _ t I(1,2)])
        show "distinct (nodes (plug ((s, p, RB_RED, mk s m RB_BLACK x1 x2) # (s, k, RB_BLACK, y) # qs) t))"
          using n D by (simp add: x eB)
        show "path_inv ((s, p, RB_RED, mk s m RB_BLACK x1 x2) # (s, k, RB_BLACK, y) # qs) (bheight t + 1)"
          using pinv by (simp add: x eB)
        fix h2 t2
        assume "tree_at h2 (rb_parent h' p) p t2" "path_at h2 root' p (rb_parent h' p) ((s, k, RB_BLACK, y) # qs)"
          "distinct (nodes (plug ((s, k, RB_BLACK, y) # qs) t2))" "short_by_one ((s, k, RB_BLACK, y) # qs) t2"
          "root_color t2 = RB_RED"
        then show "finished (rb_erase_loop p (rb_parent h' p) (h2, root')) (nodes (plug ((s, k, RB_BLACK, y) # qs) t2))"
          by (intro erase_stop) simp_all
      qed
      with loop True r(1) other n show ?thesis by (simp add: par x eB)
    qed
  qed
qed
subsection \<open>Removal\<close>

lemma tree_at_nonnull: "tree_at h q p t \<Longrightarrow> a \<in> set (nodes t) \<Longrightarrow> a \<noteq> NULL"
  by (induction t arbitrary: q p) auto

text \<open>After a node with at most one child has left its place: when it was black its side is one
  black node short, otherwise the tree is already well formed.\<close>

lemma erase_finish:
  assumes T: "tree_at h par n t" and P: "path_at h root n par ps" and D: "distinct (nodes (plug ps t))"
    and I: "invc (mk s a c t Lf)" "invh (mk s a c t Lf)" "path_inv ps (bheight (mk s a c t Lf))"
    and c: "c = RB_RED \<longrightarrow> ps \<noteq> []" "c = RB_RED \<or> c = RB_BLACK"
  shows "\<exists>h' root' t'. (if c = RB_BLACK then rb_erase_color n par (h, root) else Some (h, root)) = Some (h', root') \<and>
    rb_rep h' root' t' \<and> nodes t' = nodes (plug ps t)"
proof (cases "c = RB_BLACK")
  case True
  have "invc (painted t)" using I(1) by (cases t) auto
  then have "short_by_one ps t"
    using I True tree_at_colored[OF T] by (auto simp: short_by_one_def bheight_mk)
  from erase_loop_at[OF T P D this] obtain n' h' root' t' where
    "rb_erase_loop n par (h, root) = Some (n', (h', root'))"
    "rb_rep (if n' \<noteq> NULL then rb_set_black h' n' else h') root' t'" "nodes t' = nodes (plug ps t)"
    unfolding finished_def by blast
  with True show ?thesis by (cases "n' = NULL") (auto simp: rb_erase_color_def)
next
  case False
  with c have ne: "ps \<noteq> []" by blast
  have "rb_inv (plug ps t)"
    using plug_inv[of ps t] I False c ne by (auto simp: rb_inv_def bheight_mk)
  with plug_at[OF T P] D False ne show ?thesis by (auto simp: rb_rep_def)
qed

lemma erase_one_at:
  assumes T: "tree_at h par a (mk s a c x Lf)" and P: "path_at h root a par ps"
    and D: "distinct (nodes (plug ps (mk s a c x Lf)))" and n: "n = rb_child (h a) s"
  shows "\<exists>h' root'. rb_erase_one a n (h, root) = (h', root', n, par, c) \<and>
    tree_at h' par n x \<and> path_at h' root' n par ps"
proof -
  let ?h = "if n \<noteq> NULL then rb_set_parent h n par else h"
  have a: "a \<noteq> NULL" "rb_parent h a = par" "rb_color h a = c" "tree_at h a n x" using T n by auto
  have d: "a \<notin> path_nodes ps" "set (nodes x) \<inter> path_nodes ps = {}" "distinct (nodes x)"
    using distinct_plug[OF D] by auto
  note al = path_at_aligned[OF P]
  have nx: "n \<noteq> NULL \<Longrightarrow> n \<in> set (nodes x)" using tree_at_ptr[OF a(4)] .
  have P1: "path_at ?h root a par ps"
    using P nx d(2) al by (subst path_at_cong[where h = h]) auto
  obtain h' root' where r: "relink ?h root par RB_LEFT a n = (h', root')" by force
  note rl = relink_path[OF P1 a(1) d(1) D r]
  have "tree_at h' par n x"
  proof (rule tree_at_reparent[OF a(4) d(3)])
    fix b assume b: "b \<in> set (nodes x)"
    then have "b \<noteq> par" "b \<noteq> NULL" using path_at_par[OF P] d(2) tree_at_nonnull[OF a(4)] by auto
    then show "rb_color h' b = rb_color h b \<and> rb_child (h' b) = rb_child (h b) \<and>
      rb_parent h' b = (if b = n then par else rb_parent h b)"
      using rl(2-4) al by auto
  qed
  moreover have "rb_erase_one a n (h, root) = (h', root', n, par, c)"
    unfolding rb_erase_one_def Let_def prod.case a(2,3) r by (rule refl)
  ultimately show ?thesis using rl(1) by blast
qed

text \<open>A part of a path: from a hole up to the pointer \<open>tp\<close>, whose parent is \<open>q\<close>.\<close>

fun seg_at :: "rb_heap \<Rightarrow> addr \<Rightarrow> addr \<Rightarrow> addr \<Rightarrow> addr \<Rightarrow> path \<Rightarrow> bool" where
  "seg_at h tp q p par [] \<longleftrightarrow> par = q \<and> tp = p"
| "seg_at h tp q p par ((s, a, c, u) # ps) \<longleftrightarrow>
     par = a \<and> a \<noteq> NULL \<and> aligned a \<and> rb_color h a = c \<and> rb_child (h a) s = p \<and>
     tree_at h a (rb_child (h a) (\<not> s)) u \<and> seg_at h tp q a (rb_parent h a) ps"

lemma seg_top: "seg_at h tp q p par qs \<Longrightarrow> qs \<noteq> [] \<Longrightarrow> tp \<in> path_nodes qs"
  by (induction qs arbitrary: p par; force)

lemma plug_append: "plug (qs @ ps) t = plug ps (plug qs t)"
  by (induction qs t rule: plug.induct) auto

lemma path_at_append: "path_at h root p par (qs @ ps) \<longleftrightarrow> (\<exists>b q. seg_at h b q p par qs \<and> path_at h root b q ps)"
  by (induction qs arbitrary: p par) (simp, force)

lemma seg_at_append: "seg_at h tp q p par (qs @ ps) \<longleftrightarrow> (\<exists>b r. seg_at h b r p par qs \<and> seg_at h tp q b r ps)"
  by (induction qs arbitrary: p par) (simp, force)

text \<open>The path to the leftmost node.\<close>

lemma leftmost:
  assumes "tree_at h q p t" "t \<noteq> Lf"
  shows "\<exists>qs m d r. t = plug qs (Nd Lf m d r) \<and> seg_at h p q m (rb_parent h m) qs \<and>
    tree_at h (rb_parent h m) m (Nd Lf m d r) \<and> before_path qs = []"
  using assms
proof (induction t arbitrary: q p)
  case (Nd l a c r)
  show ?case
  proof (cases "l = Lf")
    case True
    with Nd.prems have "Nd l a c r = plug [] (Nd Lf a c r) \<and> seg_at h p q a (rb_parent h a) [] \<and>
      tree_at h (rb_parent h a) a (Nd Lf a c r) \<and> before_path [] = []" by auto
    then show ?thesis by blast
  next
    case False
    have "tree_at h a (rb_child (h a) RB_LEFT) l" using Nd.prems by simp
    from Nd.IH(1)[OF this False] obtain qs m d r' where m: "l = plug qs (Nd Lf m d r')"
      "seg_at h (rb_child (h a) RB_LEFT) a m (rb_parent h m) qs" "tree_at h (rb_parent h m) m (Nd Lf m d r')"
      "before_path qs = []"
      by blast
    let ?qs = "qs @ [(RB_LEFT, a, c, r)]"
    have "Nd l a c r = plug ?qs (Nd Lf m d r')" by (simp add: plug_append m(1)[symmetric] mk.simps)
    moreover have "seg_at h p q m (rb_parent h m) ?qs"
      using m(2) Nd.prems by (auto simp: seg_at_append)
    moreover have "before_path ?qs = []" using m(4) by (induction qs rule: before_path.induct) auto
    ultimately show ?thesis using m(3) by blast
  qed
qed simp

text \<open>The segment after its lower pointer and the parent of its top have been changed.\<close>

lemma seg_move:
  assumes "seg_at h tp q p par qs" "qs \<noteq> []" "distinct (nodes (plug qs t))"
    "\<And>a. a \<in> path_nodes qs \<Longrightarrow> rb_color h' a = rb_color h a \<and> rb_parent h' a = (if a = tp then q' else rb_parent h a)"
    "\<And>a. a \<in> path_nodes qs \<Longrightarrow> rb_child (h' a) = (if a = par then (rb_child (h par))(fst (hd qs) := p') else rb_child (h a))"
  shows "seg_at h' tp q' p' par qs"
  using assms
proof (induction qs arbitrary: p par t p')
  case (Cons z qs)
  obtain s a c u where z: "z = (s, a, c, u)" by (cases z)
  have a: "par = a" "a \<noteq> NULL" "aligned a" "rb_color h a = c" "rb_child (h a) s = p"
    "tree_at h a (rb_child (h a) (\<not> s)) u" "seg_at h tp q a (rb_parent h a) qs"
    using Cons.prems(1) by (simp_all add: z)
  note d = distinct_path[OF Cons.prems(3)[unfolded z]]
  have last: "qs \<noteq> [] \<Longrightarrow> tp \<in> path_nodes qs" using a(7) seg_top by blast
  have tp: "tp \<notin> set (nodes u)"
  proof (cases "qs = []")
    case True
    then show ?thesis using a(7) d by simp
  next
    case False
    then show ?thesis using last d(4) by blast
  qed
  have u: "tree_at h' a b u = tree_at h a b u" for b
    using Cons.prems(4,5) d(1) tp by (intro tree_at_cong) (auto simp: z a(1))
  show ?case
  proof (cases "qs = []")
    case True
    with a Cons.prems(4,5)[of a] u show ?thesis by (auto simp: z)
  next
    case False
    have "a \<noteq> tp" using last[OF False] d(2) by blast
    have "seg_at h' tp q' a (rb_parent h a) qs"
    proof (rule Cons.IH[OF a(7) False])
      show "distinct (nodes (plug qs (mk s a c t u)))" using Cons.prems(3) by (simp add: z)
      show "rb_color h' b = rb_color h b \<and> rb_parent h' b = (if b = tp then q' else rb_parent h b)" if "b \<in> path_nodes qs" for b
        using Cons.prems(4)[of b] that by (simp add: z)
      show "rb_child (h' b) = (if b = rb_parent h a then (rb_child (h (rb_parent h a)))(fst (hd qs) := a) else rb_child (h b))"
        if "b \<in> path_nodes qs" for b
      proof -
        have "rb_child (h' b) = rb_child (h b)" using Cons.prems(5)[of b] that d(2) by (auto simp: z a(1))
        moreover have "rb_child (h (rb_parent h a)) (fst (hd qs)) = a" using a(7) False by (cases qs) auto
        ultimately show ?thesis by (auto simp: fun_upd_idem)
      qed
    qed
    moreover have "rb_parent h' a = rb_parent h a" using Cons.prems(4)[of a] \<open>a \<noteq> tp\<close> by (simp add: z)
    ultimately show ?thesis using a u Cons.prems(4)[of a] Cons.prems(5)[of a] by (simp add: z)
  qed
qed simp

lemma copy_word [simp]:
  "rb_parent (h(m := (h m)\<lparr>rb_parent_color := rb_parent_color (h a)\<rparr>)) q = (if q = m then rb_parent h a else rb_parent h q)"
  "rb_color (h(m := (h m)\<lparr>rb_parent_color := rb_parent_color (h a)\<rparr>)) q = (if q = m then rb_color h a else rb_color h q)"
  "rb_child ((h(m := (h m)\<lparr>rb_parent_color := w\<rparr>)) q) = rb_child (h q)"
  by (simp_all add: rb_parent_def rb_color_def)

text \<open>The fields after \<open>rb_erase_two\<close>. The successor \<open>m\<close> of \<open>a\<close> hangs below \<open>b\<close> and has the
  right child \<open>n\<close>.\<close>

lemma erase_two_fields:
  assumes m: "rb_descend h RB_LEFT (rb_child (h a) RB_RIGHT) = Some m" "rb_parent h m = b"
    and r: "relink h root (rb_parent h a) RB_LEFT a m = (h0, root')"
    and h0: "rb_parent h0 = rb_parent h" "rb_color h0 = rb_color h" "\<And>q. q \<noteq> rb_parent h a \<Longrightarrow> rb_child (h0 q) = rb_child (h q)"
    and al: "aligned m" "aligned b"
    and ne: "a \<noteq> m" "a \<noteq> rb_child (h m) RB_RIGHT" "rb_parent h a \<notin> {a, b, m}" "b \<noteq> m" "m \<noteq> rb_child (h a) RB_LEFT"
      "b = a \<longleftrightarrow> m = rb_child (h a) RB_RIGHT" "a \<noteq> rb_child (h a) RB_RIGHT" "rb_child (h m) RB_RIGHT \<noteq> m"
  shows "\<exists>h'. rb_erase_two a (h, root) = Some (h', root', rb_child (h m) RB_RIGHT, if b = a then m else b, rb_color h m) \<and>
    (\<forall>q. rb_color h' q = (if q = m then rb_color h a else rb_color h q) \<and>
      rb_parent h' q = (if q = m then rb_parent h a else if q \<in> {rb_child (h a) RB_LEFT, rb_child (h a) RB_RIGHT} then m
        else if b \<noteq> a \<and> q = rb_child (h m) RB_RIGHT \<and> q \<noteq> NULL then b else rb_parent h q) \<and>
      rb_child (h' q) = (if q = m then (rb_child (h m))(RB_LEFT := rb_child (h a) RB_LEFT,
           RB_RIGHT := rb_child (h (if b = a then m else a)) RB_RIGHT)
        else if b \<noteq> a \<and> q = b then (rb_child (h b))(RB_LEFT := rb_child (h m) RB_RIGHT) else rb_child (h0 q)))"
proof -
  have c: "rb_child (h0 m) = rb_child (h m)" "rb_child (h0 a) = rb_child (h a)" "rb_child (h0 b) = rb_child (h b)"
    using h0(3) ne by auto
  let ?la = "rb_child (h a) RB_LEFT" and ?ra = "rb_child (h a) RB_RIGHT" and ?n = "rb_child (h m) RB_RIGHT"
  show ?thesis
  proof (cases "b = a")
    case True
    let ?h' = "rb_set_parent (set_child (h0(m := (h0 m)\<lparr>rb_parent_color := rb_parent_color (h0 a)\<rparr>)) m RB_LEFT ?la) ?la m"
    have "rb_erase_two a (h, root) = Some (?h', root', ?n, m, rb_color h m)"
      using ne(1) by (simp add: rb_erase_two_def m True r Let_def h0(1,2) c set_child_def)
    then show ?thesis using ne al True by (intro exI[of _ ?h']) (auto simp: h0 c fun_eq_iff)
  next
    case False
    let ?h1 = "set_child (if ?n \<noteq> NULL then rb_set_parent h0 ?n b else h0) b RB_LEFT ?n"
    let ?h2 = "rb_set_parent (set_child ?h1 m RB_RIGHT ?ra) ?ra m"
    let ?h' = "rb_set_parent (set_child (?h2(m := (?h2 m)\<lparr>rb_parent_color := rb_parent_color (?h2 a)\<rparr>)) m RB_LEFT ?la) ?la m"
    have "rb_erase_two a (h, root) = Some (?h', root', ?n, b, rb_color h m)"
      using ne(1) False by (simp add: rb_erase_two_def m r Let_def h0(1,2) c)
    then show ?thesis using ne al False by (intro exI[of _ ?h']) (auto simp: h0 c fun_eq_iff)
  qed
qed

lemma erase_two_at:
  assumes T: "tree_at h par a (Nd l a c (plug qs (Nd Lf m d r)))" and P: "path_at h root a par ps"
    and D: "distinct (nodes (plug ps (Nd l a c (plug qs (Nd Lf m d r)))))" and l: "l \<noteq> Lf"
    and S: "seg_at h (rb_child (h a) RB_RIGHT) a m b qs" and M: "tree_at h b m (Nd Lf m d r)" and B: "before_path qs = []"
  shows "\<exists>h' root' par'. rb_erase_two a (h, root) = Some (h', root', rb_child (h m) RB_RIGHT, par', d) \<and>
    tree_at h' par' (rb_child (h m) RB_RIGHT) r \<and> path_at h' root' (rb_child (h m) RB_RIGHT) par' (qs @ (RB_RIGHT, m, c, l) # ps)"
proof -
  let ?R = "plug qs (Nd Lf m d r)" and ?la = "rb_child (h a) RB_LEFT" and ?ra = "rb_child (h a) RB_RIGHT" and ?n = "rb_child (h m) RB_RIGHT"
  have a: "a \<noteq> NULL" "aligned a" "rb_parent h a = par" "rb_color h a = c" "tree_at h a ?la l" "tree_at h a ?ra ?R" using T by auto
  have m: "m \<noteq> NULL" "aligned m" "rb_parent h m = b" "rb_color h m = d" "tree_at h m ?n r" "rb_child (h m) RB_LEFT = NULL" using M by auto
  have D1: "distinct (nodes l)" "distinct (nodes ?R)" "a \<notin> set (nodes l)" "a \<notin> set (nodes ?R)" "set (nodes l) \<inter> set (nodes ?R) = {}"
    "a \<notin> path_nodes ps" "set (nodes l) \<inter> path_nodes ps = {}" "set (nodes ?R) \<inter> path_nodes ps = {}"
    using distinct_plug[OF D] by auto
  have sR: "set (nodes ?R) = insert m (set (nodes r)) \<union> path_nodes qs" by (simp add: set_nodes_plug)
  have D2: "m \<notin> set (nodes r)" "distinct (nodes r)" "m \<notin> path_nodes qs" "set (nodes r) \<inter> path_nodes qs = {}"
    using distinct_plug[OF D1(2)] by auto
  note D3 = D1(4,5,8)[unfolded sR]
  have nul: "NULL \<notin> set (nodes l)" "NULL \<notin> set (nodes ?R)" using tree_at_nonnull[OF a(5)] tree_at_nonnull[OF a(6)] by blast+
  have la: "?la \<in> set (nodes l)" using l a(5) by (cases l) auto
  have ra: "?ra \<in> set (nodes ?R)" using tree_at_ptr[OF a(6)] a(6) sR by (cases ?R) auto
  have raN: "?ra \<noteq> NULL" using ra nul(2) by metis
  have n: "?n \<noteq> NULL \<Longrightarrow> ?n \<in> set (nodes r)" using tree_at_ptr[OF m(5)] .
  have par: "par = NULL \<or> par \<in> path_nodes ps" using path_at_par[OF P] by blast
  have b: "if qs = [] then b = a \<and> ?ra = m else b \<in> path_nodes qs \<and> ?ra \<in> path_nodes qs"
    using S seg_top[OF S] by (cases qs) auto
  have alb: "aligned b" using S a(2) by (cases qs) auto
  obtain h0 root' where rl: "relink h root (rb_parent h a) RB_LEFT a m = (h0, root')" by force
  note R = relink_path[OF P a(1) D1(6) D rl[unfolded a(3)]]
  have dm: "rb_descend h RB_LEFT ?ra = Some m"
    using rb_descend_at[OF a(6) raN] nodes_plug[of qs "Nd Lf m d r"] B by simp
  have ne: "a \<noteq> m" "a \<noteq> ?n" "rb_parent h a \<notin> {a, b, m}" "b \<noteq> m" "m \<noteq> ?la" "b = a \<longleftrightarrow> m = ?ra" "a \<noteq> ?ra" "?n \<noteq> m"
    using a(1,3) m(1) D1 D2 D3 b n la ra par nul sR by (auto split: if_splits)
  have h0c: "rb_child (h0 q) = rb_child (h q)" if "q \<noteq> rb_parent h a" for q using R(4) that a(3) by simp
  let ?b = "if b = a then m else b"
  let ?F = "\<lambda>h' q. rb_color h' q = (if q = m then c else rb_color h q) \<and>
      rb_parent h' q = (if q = m then par else if q \<in> {?la, ?ra} then m
        else if b \<noteq> a \<and> q = ?n \<and> q \<noteq> NULL then b else rb_parent h q) \<and>
      rb_child (h' q) = (if q = m then (rb_child (h m))(RB_LEFT := ?la, RB_RIGHT := rb_child (h (if b = a then m else a)) RB_RIGHT)
        else if b \<noteq> a \<and> q = b then (rb_child (h b))(RB_LEFT := ?n) else rb_child (h0 q))"
  have "\<exists>h'. rb_erase_two a (h, root) = Some (h', root', ?n, ?b, d) \<and> (\<forall>q. ?F h' q)"
    using erase_two_fields[OF dm m(3) rl R(2,3) h0c m(2) alb ne] unfolding a(3,4) m(4) .
  then obtain h' where e: "rb_erase_two a (h, root) = Some (h', root', ?n, ?b, d)" and F0: "\<And>q. ?F h' q" by blast
  note F = F0[THEN conjunct1] F0[THEN conjunct2, THEN conjunct1] F0[THEN conjunct2, THEN conjunct2]
  have off: "rb_child (h' q) = rb_child (h q)" if "q \<noteq> m" "q \<noteq> b \<or> b = a" "q \<noteq> par" for q
    using that F(3)[of q] h0c[of q] a(3) by auto
  have ba: "b = a \<longleftrightarrow> qs = []" using b D3(1) by (auto split: if_splits)
  have Tr: "tree_at h' ?b ?n r"
  proof (rule tree_at_reparent[OF m(5) D2(2)])
    fix q assume q: "q \<in> set (nodes r)"
    then have "q \<noteq> m" "q \<noteq> ?la" "q \<noteq> par" "q \<noteq> NULL" "q \<noteq> b \<or> b = a" "q \<noteq> ?ra"
      using D2 D3 la par b nul sR tree_at_nonnull[OF m(5)] by (auto split: if_splits)
    then show "rb_color h' q = rb_color h q \<and> rb_child (h' q) = rb_child (h q) \<and>
        rb_parent h' q = (if q = ?n then ?b else rb_parent h q)"
      using F(1,2)[of q] off[of q] tree_at_parent[OF m(5)] by auto
  qed
  have Tl: "tree_at h' m ?la l"
  proof (rule tree_at_reparent[OF a(5) D1(1)])
    fix q assume q: "q \<in> set (nodes l)"
    then have "q \<noteq> m" "q \<noteq> par" "q \<noteq> b \<or> b = a" "q \<noteq> ?ra" "q \<noteq> NULL \<longrightarrow> q \<noteq> ?n"
      using D1 D3 par b nul n ra by (auto split: if_splits)
    then show "rb_color h' q = rb_color h q \<and> rb_child (h' q) = rb_child (h q) \<and>
        rb_parent h' q = (if q = ?la then m else rb_parent h q)"
      using F(1,2)[of q] off[of q] by auto
  qed
  have Pp: "path_at h' root' m par ps"
  proof -
    have "rb_parent h' q = rb_parent h0 q \<and> rb_color h' q = rb_color h0 q \<and> rb_child (h' q) = rb_child (h0 q)"
      if "q \<in> path_nodes ps" for q
    proof -
      have "q \<noteq> m" "q \<noteq> ?la" "q \<noteq> ?ra" "q \<noteq> b \<or> b = a" "q \<noteq> NULL \<longrightarrow> q \<noteq> ?n"
        using that D1 D3 la ra n b by (auto split: if_splits)
      then show ?thesis using F[of q] R(2,3) by auto
    qed
    then show ?thesis using R(1) path_at_cong[of ps h' h0] by blast
  qed
  have M': "m \<noteq> NULL" "aligned m" "rb_color h' m = c" "rb_parent h' m = par" "rb_child (h' m) RB_LEFT = ?la"
    "rb_child (h' m) RB_RIGHT = (if b = a then ?n else ?ra)"
    using m F[of m] by auto
  have Sg: "seg_at h' (if b = a then ?n else ?ra) m ?n ?b qs"
  proof (cases "qs = []")
    case False
    have hd: "fst (hd qs) = RB_LEFT" using B False by (cases qs) (auto split: if_splits)
    have "seg_at h' ?ra m ?n b qs"
    proof (rule seg_move[OF S False D1(2)])
      fix q assume q: "q \<in> path_nodes qs"
      then have "q \<noteq> m" "q \<noteq> ?la" "q \<noteq> par" "q \<noteq> NULL \<longrightarrow> q \<noteq> ?n" "q \<noteq> NULL"
        using D1 D2 D3 la n par nul sR by auto
      then show "rb_color h' q = rb_color h q \<and> rb_parent h' q = (if q = ?ra then m else rb_parent h q)"
        "rb_child (h' q) = (if q = b then (rb_child (h b))(fst (hd qs) := ?n) else rb_child (h q))"
        using F[of q] off[of q] hd ba False by auto
    qed
    with ba False show ?thesis by simp
  qed (use ba in simp)
  have "path_at h' root' ?n ?b (qs @ (RB_RIGHT, m, c, l) # ps)"
    unfolding path_at_append using Sg Tl Pp M' by auto
  with e Tr show ?thesis by blast
qed

text \<open>The names of the nodes of a path do not matter for its invariant.\<close>

lemma path_inv_rename: "path_inv (qs @ (s, a, c, u) # ps) n = path_inv (qs @ (s, m, c, u) # ps) n"
proof (induction qs arbitrary: n)
  case (Cons z qs)
  obtain s' b e v where z: "z = (s', b, e, v)" by (cases z)
  have "(\<exists>s' b v rs. qs @ (s, a, c, u) # ps = (s', b, RB_BLACK, v) # rs) \<longleftrightarrow>
      (\<exists>s' b v rs. qs @ (s, m, c, u) # ps = (s', b, RB_BLACK, v) # rs)" by (cases qs) auto
  with Cons show ?case by (simp add: z)
qed simp

lemma rb_erase_at:
  assumes "rb_rep h root t" "a \<in> set (nodes t)"
  shows "\<exists>h' root' t'. rb_erase a (h, root) = Some (h', root') \<and> rb_rep h' root' t' \<and> nodes t' = remove1 a (nodes t)"
proof -
  have T: "tree_at h NULL root t" and D: "distinct (nodes t)" and I: "invc t" "invh t" "root_color t = RB_BLACK"
    using assms(1) by (auto simp: rb_rep_def rb_inv_def)
  obtain ps l c r where q: "t = plug ps (Nd l a c r)" "tree_at h (rb_parent h a) a (Nd l a c r)"
    "path_at h root a (rb_parent h a) ps"
    using path_to[OF T _ assms(2), of root "[]"] by auto
  note D' = D[unfolded q(1)]
  have rem: "remove1 a (nodes t) = before_path ps @ nodes l @ nodes r @ after_path ps"
    using D by (auto simp: q(1) nodes_plug remove1_append)
  have col: "x = RB_RED \<or> x = RB_BLACK" if "rb_color h y = x" for x y using rb_color_01[of h y] that by auto
  consider s x where "Nd l a c r = mk s a c x Lf" "rb_child (h a) RB_LEFT = NULL \<or> rb_child (h a) RB_RIGHT = NULL"
      "rb_child (h a) s = (if rb_child (h a) RB_LEFT = NULL then rb_child (h a) RB_RIGHT else rb_child (h a) RB_LEFT)"
    | "l \<noteq> Lf" "r \<noteq> Lf"
  proof -
    have "l = Lf \<Longrightarrow> Nd l a c r = mk RB_RIGHT a c r Lf" "r = Lf \<Longrightarrow> Nd l a c r = mk RB_LEFT a c l Lf" by (simp_all add: mk.simps)
    moreover have "l = Lf \<longleftrightarrow> rb_child (h a) RB_LEFT = NULL" "r = Lf \<longleftrightarrow> rb_child (h a) RB_RIGHT = NULL"
      using q(2) by (cases l; cases r; auto)+
    ultimately show thesis using that by metis
  qed
  then show ?thesis
  proof cases
    case (1 s x)
    obtain h' root' where e: "rb_erase_one a (rb_child (h a) s) (h, root) = (h', root', rb_child (h a) s, rb_parent h a, c)"
      "tree_at h' (rb_parent h a) (rb_child (h a) s) x" "path_at h' root' (rb_child (h a) s) (rb_parent h a) ps"
      using erase_one_at[OF q(2)[unfolded 1(1)] q(3) D'[unfolded 1(1)] refl] by blast
    have inv: "invc (mk s a c x Lf)" "invh (mk s a c x Lf)" "path_inv ps (bheight (mk s a c x Lf))" "c = RB_RED \<longrightarrow> ps \<noteq> []"
      using path_inv_of_plug[of ps "Nd l a c r" h root] I T by (auto simp: q(1) 1(1))
    have nx: "nodes l @ nodes r = nodes x" using 1(1) by (auto simp: mk.simps split: if_splits)
    have n: "nodes (plug ps x) = remove1 a (nodes t)" by (simp add: rem nx[symmetric] nodes_plug)
    have d: "distinct (nodes (plug ps x))" unfolding n using D by simp
    have c: "c = RB_RED \<or> c = RB_BLACK" using col q(2) by auto
    have "rb_erase a (h, root) = (if c = RB_BLACK then rb_erase_color (rb_child (h a) s) (rb_parent h a) (h', root') else Some (h', root'))"
      using e(1) 1(2,3) by (auto simp: rb_erase_def split: if_splits)
    with erase_finish[OF e(2,3) d inv c] n show ?thesis by simp
  next
    case 2
    have R: "tree_at h a (rb_child (h a) RB_RIGHT) r" "rb_child (h a) RB_LEFT \<noteq> NULL" "rb_child (h a) RB_RIGHT \<noteq> NULL"
      using q(2) 2 by (cases l; cases r; auto)+
    obtain qs m d rr where m: "r = plug qs (Nd Lf m d rr)" "seg_at h (rb_child (h a) RB_RIGHT) a m (rb_parent h m) qs"
      "tree_at h (rb_parent h m) m (Nd Lf m d rr)" "before_path qs = []"
      using leftmost[OF R(1) 2(2)] by blast
    let ?n = "rb_child (h m) RB_RIGHT" and ?ps = "qs @ (RB_RIGHT, m, c, l) # ps"
    obtain h' root' par' where e: "rb_erase_two a (h, root) = Some (h', root', ?n, par', d)" "tree_at h' par' ?n rr"
      "path_at h' root' ?n par' ?ps"
      using erase_two_at[OF q(2)[unfolded m(1)] q(3) D'[unfolded m(1)] 2(1) m(2-4)] by blast
    have t: "t = plug (qs @ (RB_RIGHT, a, c, l) # ps) (mk RB_RIGHT m d rr Lf)"
      by (simp add: q(1) m(1) plug_append mk.simps)
    have inv: "invc (mk RB_RIGHT m d rr Lf)" "invh (mk RB_RIGHT m d rr Lf)" "path_inv ?ps (bheight (mk RB_RIGHT m d rr Lf))"
      using path_inv_of_plug[of "qs @ (RB_RIGHT, a, c, l) # ps" "mk RB_RIGHT m d rr Lf" h root] I T
      by (auto simp: t path_inv_rename[of qs RB_RIGHT a c l ps _ m])
    have n: "nodes (plug ?ps rr) = remove1 a (nodes t)"
      using m(4) by (simp add: rem m(1) plug_append nodes_plug nodes_mk)
    have dd: "distinct (nodes (plug ?ps rr))" unfolding n using D by simp
    have d: "d = RB_RED \<or> d = RB_BLACK" "d = RB_RED \<longrightarrow> ?ps \<noteq> []" using col m(3) by auto
    have "rb_erase a (h, root) = (if d = RB_BLACK then rb_erase_color ?n par' (h', root') else Some (h', root'))"
      using e(1) R(2,3) by (simp add: rb_erase_def)
    with erase_finish[OF e(2,3) dd inv d(2,1)] n show ?thesis by simp
  qed
qed
subsection \<open>Properties\<close>

text \<open>C7. \<open>rb_erase\<close> returns for every node of a red-black tree, and the result is a red-black
  tree of the remaining nodes in the same order, whatever the shape of the tree: the node with two
  children is replaced by its successor and every rebalancing case of \<open>__rb_erase_color\<close>
  restores the invariant.\<close>

theorem rb_erase_correct:
  assumes "rb_rep h root t" "a \<in> set (nodes t)"
  shows "\<exists>h' root' t'. rb_erase a (h, root) = Some (h', root') \<and> rb_rep h' root' t' \<and> nodes t' = remove1 a (nodes t)"
  by (rule rb_erase_at[OF assms])

theorem rb_erase_correct_witness:
  "\<exists>h root t h' root' t'. rb_rep h root t \<and> nodes t = [16, 32] \<and> rb_erase 16 (h, root) = Some (h', root')
    \<and> rb_rep h' root' t' \<and> nodes t' = [32]"
proof -
  obtain h0 root0 t0 where "rb_rep h0 root0 t0" "nodes t0 = [16]" "rb_child (h0 16) RB_RIGHT = NULL"
    using demo_tree by metis
  moreover have "aligned 32" by (simp add: aligned_def)
  ultimately obtain h root t where r: "rb_rep h root t" "nodes t = [16, 32]"
    using rb_link_at[of h0 root0 t0 16 RB_RIGHT 32] by fastforce
  from rb_erase_correct[OF r(1), of 16] r show ?thesis by fastforce
qed


end
