(* ===== verification/ListHead.thy ===== *)
theory ListHead
  imports Prelude
begin

text \<open>
  The intrusive doubly linked lists of \<^verbatim>\<open>include/scaraOS/list.h\<close>.

  A store maps every \<open>struct list_head\<close> (named by a value of a type \<open>'n\<close> that the client
  picks, one name per embedded \<open>list_head\<close>) to its two pointers, and every operation is
  the source's sequence of pointer writes on that store.  \<open>dll\<close> says that the pointers
  from a head run once round a list of distinct nodes in both directions; \<open>lists_rep\<close>
  lifts it to a family of disjoint lists, in which a detached (self-linked) node is a head
  with no members.  The locale \<open>intrusive_lists\<close> is the contract the clients of
  \<^verbatim>\<open>list.h\<close> rely on; its interpretation \<open>lh\<close> discharges it for the pointer code.
\<close>

subsection \<open>The data and the operations\<close>

record 'n list_head =
  lh_next :: 'n
  lh_prev :: 'n

type_synonym 'n lstore = "'n \<Rightarrow> 'n list_head"

definition set_next :: "'n lstore \<Rightarrow> 'n \<Rightarrow> 'n \<Rightarrow> 'n lstore" where
  "set_next st p v = st(p := (st p)\<lparr>lh_next := v\<rparr>)"

definition set_prev :: "'n lstore \<Rightarrow> 'n \<Rightarrow> 'n \<Rightarrow> 'n lstore" where
  "set_prev st p v = st(p := (st p)\<lparr>lh_prev := v\<rparr>)"

definition INIT_LIST_HEAD :: "'n lstore \<Rightarrow> 'n \<Rightarrow> 'n lstore" where
  "INIT_LIST_HEAD st p = set_prev (set_next st p p) p p"

definition list_add_internal :: "'n lstore \<Rightarrow> 'n \<Rightarrow> 'n \<Rightarrow> 'n \<Rightarrow> 'n lstore" where
  "list_add_internal st new p nxt =
     (let st = set_prev st nxt new;
          st = set_next st new nxt;
          st = set_prev st new p
      in set_next st p new)"

definition list_add :: "'n lstore \<Rightarrow> 'n \<Rightarrow> 'n \<Rightarrow> 'n lstore" where
  "list_add st new head = list_add_internal st new head (lh_next (st head))"

definition list_add_tail :: "'n lstore \<Rightarrow> 'n \<Rightarrow> 'n \<Rightarrow> 'n lstore" where
  "list_add_tail st new head = list_add_internal st new (lh_prev (st head)) head"

definition list_del_internal :: "'n lstore \<Rightarrow> 'n \<Rightarrow> 'n \<Rightarrow> 'n lstore" where
  "list_del_internal st p nxt = set_next (set_prev st nxt p) p nxt"

definition list_del :: "'n lstore \<Rightarrow> 'n \<Rightarrow> 'n lstore" where
  "list_del st entry =
     INIT_LIST_HEAD (list_del_internal st (lh_prev (st entry)) (lh_next (st entry))) entry"

definition list_move :: "'n lstore \<Rightarrow> 'n \<Rightarrow> 'n \<Rightarrow> 'n lstore" where
  "list_move st l head =
     list_add (list_del_internal st (lh_prev (st l)) (lh_next (st l))) l head"

definition list_move_tail :: "'n lstore \<Rightarrow> 'n \<Rightarrow> 'n \<Rightarrow> 'n lstore" where
  "list_move_tail st l head =
     list_add_tail (list_del_internal st (lh_prev (st l)) (lh_next (st l))) l head"

definition list_empty :: "'n lstore \<Rightarrow> 'n \<Rightarrow> bool" where
  "list_empty st head \<longleftrightarrow> lh_next (st head) = head"

definition list_splice :: "'n lstore \<Rightarrow> 'n \<Rightarrow> 'n \<Rightarrow> 'n lstore" where
  "list_splice st l head =
     (if list_empty st l then st
      else let first = lh_next (st l);
               last = lh_prev (st l);
               at = lh_next (st head);
               st = set_prev st first head;
               st = set_next st head first;
               st = set_next st last at;
               st = set_prev st at last
           in INIT_LIST_HEAD st l)"

text \<open>
  \<open>list_for_each_entry_safe(pos, n, head)\<close>: the loop keeps the next entry in \<open>n\<close> before
  the body runs and reads \<open>n->next\<close> after it.  The whole state \<open>s\<close> is threaded through
  the body; \<open>links\<close> selects the list pointers in it.  The loop need not end on a
  malformed store, so it is a partial function.
\<close>

partial_function (option) for_each_safe ::
  "('s \<Rightarrow> 'n lstore) \<Rightarrow> 'n \<Rightarrow> ('n \<Rightarrow> 's \<Rightarrow> 's option) \<Rightarrow> 'n \<Rightarrow> 'n \<Rightarrow> 's \<Rightarrow> 's option" where
  "for_each_safe links head body pos n s =
     (if pos = head then Some s
      else do {
        s' \<leftarrow> body pos s;
        for_each_safe links head body n (lh_next (links s' n)) s'
      })"

definition list_for_each_entry_safe ::
  "('s \<Rightarrow> 'n lstore) \<Rightarrow> 'n \<Rightarrow> ('n \<Rightarrow> 's \<Rightarrow> 's option) \<Rightarrow> 's \<Rightarrow> 's option" where
  "list_for_each_entry_safe links head body s =
     (let pos = lh_next (links s head)
      in for_each_safe links head body pos (lh_next (links s pos)) s)"

lemmas list_op_defs = list_add_internal_def list_add_def list_add_tail_def
  list_del_internal_def list_del_def list_move_def list_move_tail_def
  INIT_LIST_HEAD_def set_next_def set_prev_def

lemma next_add_internal [simp]:
  "n \<noteq> p \<Longrightarrow> lh_next (list_add_internal st n p q m) =
     (if m = p then n else if m = n then q else lh_next (st m))"
  by (auto simp: list_op_defs Let_def)

lemma prev_add_internal [simp]:
  "n \<noteq> q \<Longrightarrow> lh_prev (list_add_internal st n p q m) =
     (if m = n then p else if m = q then n else lh_prev (st m))"
  by (auto simp: list_op_defs Let_def)

lemma next_del_internal [simp]:
  "lh_next (list_del_internal st p q m) = (if m = p then q else lh_next (st m))"
  by (auto simp: list_op_defs Let_def)

lemma prev_del_internal [simp]:
  "lh_prev (list_del_internal st p q m) = (if m = q then p else lh_prev (st m))"
  by (auto simp: list_op_defs Let_def)

subsection \<open>Pointer structure: one list\<close>

primrec chain :: "'n lstore \<Rightarrow> 'n \<Rightarrow> 'n list \<Rightarrow> 'n \<Rightarrow> bool" where
  "chain st a [] b \<longleftrightarrow> lh_next (st a) = b \<and> lh_prev (st b) = a"
| "chain st a (x # xs) b \<longleftrightarrow> lh_next (st a) = x \<and> lh_prev (st x) = a \<and> chain st x xs b"

definition dll :: "'n lstore \<Rightarrow> 'n \<Rightarrow> 'n list \<Rightarrow> bool" where
  "dll st h xs \<longleftrightarrow> distinct (h # xs) \<and> chain st h xs h"

lemma chain_append [simp]:
  "chain st a (xs @ y # ys) b \<longleftrightarrow> chain st a xs y \<and> chain st y ys b"
  by (induction xs arbitrary: a) auto

text \<open>A chain looks at the \<open>next\<close> of all but its end and at the \<open>prev\<close> of all but its start.\<close>

lemma chain_cong:
  assumes "\<And>n. n \<in> set (a # xs) \<Longrightarrow> lh_next (st n) = lh_next (st' n)"
    and "\<And>n. n \<in> set (xs @ [b]) \<Longrightarrow> lh_prev (st n) = lh_prev (st' n)"
  shows "chain st a xs b = chain st' a xs b"
  using assms by (induction xs arbitrary: a) auto

lemma chain_next: "chain st a xs b \<Longrightarrow> lh_next (st a) = hd (xs @ [b])"
  by (cases xs) auto

lemma chain_prev: "chain st a xs b \<Longrightarrow> lh_prev (st b) = last (a # xs)"
  by (induction xs arbitrary: a) auto

lemma dll_next: "dll st h xs \<Longrightarrow> lh_next (st h) = (case xs of [] \<Rightarrow> h | x # _ \<Rightarrow> x)"
  by (auto simp: dll_def split: list.splits)

lemma dll_prev: "dll st h xs \<Longrightarrow> lh_prev (st h) = last (h # xs)"
  by (auto simp: dll_def dest: chain_prev)

lemma dll_empty: "dll st h xs \<Longrightarrow> list_empty st h \<longleftrightarrow> xs = []"
  by (auto simp: list_empty_def dll_next split: list.splits) (auto simp: dll_def)

lemma dll_Nil: "dll st h [] \<longleftrightarrow> lh_next (st h) = h \<and> lh_prev (st h) = h"
  by (simp add: dll_def)

lemma dll_frame:
  assumes "dll st h xs" "\<And>n. n \<in> set (h # xs) \<Longrightarrow> st' n = st n"
  shows "dll st' h xs"
  using assms chain_cong[of h xs st' st h] by (auto simp: dll_def)

lemma chain_retarget:
  assumes "chain st a xs b" "distinct (a # xs)" "p = last (a # xs)"
    and "\<And>m. m \<in> set (a # xs) \<Longrightarrow> m \<noteq> p \<Longrightarrow> lh_next (st' m) = lh_next (st m)"
    and "lh_next (st' p) = b'"
    and "\<And>m. m \<in> set xs \<Longrightarrow> lh_prev (st' m) = lh_prev (st m)"
    and "lh_prev (st' b') = p"
  shows "chain st' a xs b'"
  using assms
proof (induction xs arbitrary: a)
  case Nil
  then show ?case by simp
next
  case (Cons x xs)
  have "chain st' x xs b'"
    using Cons.prems by (intro Cons.IH) auto
  moreover have "a \<noteq> p"
    using Cons.prems(2,3) last_in_set[of "x # xs"] by auto
  ultimately show ?case
    using Cons.prems(1,4,6) by auto
qed

lemma dll_insert:
  assumes d: "dll st h (xs @ ys)" and n: "n \<notin> set (h # xs @ ys)"
    and p: "p = last (h # xs)" and q: "q = hd (ys @ [h])"
  shows "dll (list_add_internal st n p q) h (xs @ n # ys)"
proof -
  let ?st = "list_add_internal st n p q"
  have p_in: "p \<in> set (h # xs)" unfolding p by (rule last_in_set) simp
  have np: "n \<noteq> p" using p_in n by auto
  have nq: "n \<noteq> q" using n q by (cases ys) auto
  have dist: "distinct (h # xs @ n # ys)" using d n by (auto simp: dll_def)
  show ?thesis
  proof (cases ys)
    case Nil
    with d q have c: "chain st h xs h" "q = h" by (simp_all add: dll_def)
    have "chain ?st h xs n"
      using dist Nil np c(2) by (intro chain_retarget[OF c(1) _ p]) auto
    moreover have "chain ?st n [] h" using np nq c(2) by simp
    ultimately show ?thesis using dist Nil by (simp add: dll_def)
  next
    case (Cons y zs)
    with d q have c: "chain st h xs y" "chain st y zs h" "q = y" by (auto simp: dll_def)
    have zp: "y \<noteq> p" "p \<notin> set zs" using p_in dist Cons by auto
    have "chain ?st h xs n"
      using dist Cons np c(3) by (intro chain_retarget[OF c(1) _ p]) auto
    moreover have "chain ?st y zs h = chain st y zs h"
      using dist Cons np zp c(3) by (intro chain_cong) auto
    moreover have "lh_next (?st n) = y" "lh_prev (?st y) = n"
      using np nq c(3) by auto
    ultimately show ?thesis using dist Cons c(2) by (simp add: dll_def)
  qed
qed

lemma dll_unlink:
  assumes d: "dll st h (xs @ e # ys)"
  shows "dll (list_del_internal st (lh_prev (st e)) (lh_next (st e))) h (xs @ ys)"
proof -
  have c: "chain st h xs e" "chain st e ys h" and dist: "distinct (h # xs @ e # ys)"
    using d by (auto simp: dll_def)
  define p q where "p = lh_prev (st e)" and "q = lh_next (st e)"
  have p: "p = last (h # xs)" unfolding p_def using c(1) by (rule chain_prev)
  have q: "q = hd (ys @ [h])" unfolding q_def using c(2) by (rule chain_next)
  let ?st = "list_del_internal st p q"
  have p_in: "p \<in> set (h # xs)" unfolding p by (rule last_in_set) simp
  have "dll ?st h (xs @ ys)"
  proof (cases ys)
    case Nil
    have "chain ?st h xs h"
      using dist Nil q by (intro chain_retarget[OF c(1) _ p]) auto
    then show ?thesis using dist Nil by (simp add: dll_def)
  next
    case (Cons y zs)
    have c2: "chain st y zs h" "q = y" using c(2) q Cons by simp_all
    have zp: "y \<noteq> p" "p \<notin> set zs" using p_in dist Cons by auto
    have "chain ?st h xs y"
      using dist Cons c2(2) by (intro chain_retarget[OF c(1) _ p]) auto
    moreover have "chain ?st y zs h = chain st y zs h"
      using dist Cons zp c2(2) by (intro chain_cong) auto
    ultimately show ?thesis using dist Cons c2 by (simp add: dll_def)
  qed
  then show ?thesis by (simp only: p_def q_def)
qed

subsection \<open>Pointer structure: a family of lists\<close>

definition lists_rep :: "'n lstore \<Rightarrow> 'n set \<Rightarrow> ('n \<Rightarrow> 'n list) \<Rightarrow> bool" where
  "lists_rep st H L \<longleftrightarrow>
     (\<forall>h\<in>H. dll st h (L h)) \<and>
     (\<forall>h\<in>H. \<forall>g\<in>H. h \<noteq> g \<longrightarrow> set (h # L h) \<inter> set (g # L g) = {})"

lemma lists_rep_dll: "lists_rep st H L \<Longrightarrow> h \<in> H \<Longrightarrow> dll st h (L h)"
  by (simp add: lists_rep_def)

lemma lists_rep_head_notin: "lists_rep st H L \<Longrightarrow> h \<in> H \<Longrightarrow> g \<in> H \<Longrightarrow> g \<notin> set (L h)"
  unfolding lists_rep_def dll_def by (cases "g = h") auto

lemma lists_rep_member_unique:
  "lists_rep st H L \<Longrightarrow> h \<in> H \<Longrightarrow> g \<in> H \<Longrightarrow> e \<in> set (L h) \<Longrightarrow> e \<in> set (L g) \<Longrightarrow> g = h"
  unfolding lists_rep_def by (cases "g = h") auto

text \<open>An update that touches only one list, and keeps that one a list, keeps the family.\<close>

lemma lists_rep_upd:
  assumes rep: "lists_rep st H L" and h: "h \<in> H"
    and new: "dll st' h xs"
    and sub: "\<And>g. g \<in> H \<Longrightarrow> g \<noteq> h \<Longrightarrow> set xs \<inter> set (g # L g) = {}"
    and frame: "\<And>g m. g \<in> H \<Longrightarrow> g \<noteq> h \<Longrightarrow> m \<in> set (g # L g) \<Longrightarrow> st' m = st m"
  shows "lists_rep st' H (L(h := xs))"
  unfolding lists_rep_def
proof (intro conjI ballI impI)
  fix g assume g: "g \<in> H"
  show "dll st' g ((L(h := xs)) g)"
    using new g frame[OF g] dll_frame[OF lists_rep_dll[OF rep g], of st'] by (cases "g = h") auto
next
  fix g k assume g: "g \<in> H" and k: "k \<in> H" and ne: "g \<noteq> k"
  have hn: "h \<notin> set (g' # L g')" if "g' \<in> H" "g' \<noteq> h" for g'
    using lists_rep_head_notin[OF rep that(1) h] that by auto
  show "set (g # (L(h := xs)) g) \<inter> set (k # (L(h := xs)) k) = {}"
  proof (cases "g = h \<or> k = h")
    case True
    then show ?thesis using ne sub[OF g] sub[OF k] hn[OF g] hn[OF k] by auto
  next
    case False
    then show ?thesis using rep g k ne by (auto simp: lists_rep_def)
  qed
qed

lemma add_internal_frame: "m \<notin> {n, p, q} \<Longrightarrow> list_add_internal st n p q m = st m"
  by (auto simp: list_op_defs Let_def)

lemma del_internal_frame: "m \<notin> {p, q} \<Longrightarrow> list_del_internal st p q m = st m"
  by (auto simp: list_op_defs Let_def)

lemma lists_rep_insert:
  assumes rep: "lists_rep st H L" and h: "h \<in> H" and L: "L h = xs @ ys"
    and n: "n \<notin> H" "\<And>g. g \<in> H \<Longrightarrow> n \<notin> set (L g)"
  shows "lists_rep (list_add_internal st n (last (h # xs)) (hd (ys @ [h]))) H (L(h := xs @ n # ys))"
proof (rule lists_rep_upd[OF rep h])
  have nh: "n \<notin> set (h # xs @ ys)" using n h L by (metis set_ConsD)
  then show "dll (list_add_internal st n (last (h # xs)) (hd (ys @ [h]))) h (xs @ n # ys)"
    using lists_rep_dll[OF rep h] L by (intro dll_insert) simp_all
  have in_h: "{last (h # xs), hd (ys @ [h])} \<subseteq> set (h # xs @ ys)"
    using last_in_set[of "h # xs"] by (cases ys) auto
  fix g assume g: "g \<in> H" "g \<noteq> h"
  have dis: "set (h # xs @ ys) \<inter> set (g # L g) = {}"
    using rep h g L unfolding lists_rep_def by metis
  then show "set (xs @ n # ys) \<inter> set (g # L g) = {}"
    using n(1) n(2)[OF g(1)] g by auto
  fix m assume m: "m \<in> set (g # L g)"
  have "m \<noteq> n" using m n(1) n(2)[OF g(1)] g by auto
  moreover have "m \<notin> set (h # xs @ ys)" using m dis by blast
  ultimately show "list_add_internal st n (last (h # xs)) (hd (ys @ [h])) m = st m"
    using in_h by (intro add_internal_frame) auto
qed

lemma lists_rep_unlink:
  assumes rep: "lists_rep st H L" and h: "h \<in> H" and L: "L h = xs @ e # ys"
  shows "lists_rep (list_del_internal st (lh_prev (st e)) (lh_next (st e))) H (L(h := xs @ ys))"
proof (rule lists_rep_upd[OF rep h])
  have d: "dll st h (xs @ e # ys)" using lists_rep_dll[OF rep h] L by simp
  then show "dll (list_del_internal st (lh_prev (st e)) (lh_next (st e))) h (xs @ ys)"
    by (rule dll_unlink)
  have "chain st h xs e" "chain st e ys h" using d by (auto simp: dll_def)
  then have pq: "lh_prev (st e) = last (h # xs)" "lh_next (st e) = hd (ys @ [h])"
    by (auto dest: chain_prev chain_next)
  have in_h: "{last (h # xs), hd (ys @ [h])} \<subseteq> set (h # xs @ ys)"
    using last_in_set[of "h # xs"] by (cases ys) auto
  fix g assume g: "g \<in> H" "g \<noteq> h"
  have dis: "set (h # xs @ e # ys) \<inter> set (g # L g) = {}"
    using rep h g L unfolding lists_rep_def by metis
  then show "set (xs @ ys) \<inter> set (g # L g) = {}" by auto
  fix m assume "m \<in> set (g # L g)"
  with dis have "m \<notin> set (h # xs @ ys)" by auto
  then have "m \<notin> {lh_prev (st e), lh_next (st e)}" using in_h unfolding pq by blast
  then show "list_del_internal st (lh_prev (st e)) (lh_next (st e)) m = st m"
    by (rule del_internal_frame)
qed

text \<open>A node outside the family can be made a detached member of it, and forgotten again.\<close>

lemma lists_rep_init:
  assumes rep: "lists_rep st H L" and n: "n \<notin> H" "\<And>g. g \<in> H \<Longrightarrow> n \<notin> set (L g)"
  shows "lists_rep (INIT_LIST_HEAD st n) (insert n H) (L(n := []))"
proof -
  have same: "INIT_LIST_HEAD st n m = st m" if "m \<noteq> n" for m
    using that by (simp add: list_op_defs)
  have "dll (INIT_LIST_HEAD st n) g (L g)" if "g \<in> H" for g
    using that n by (intro dll_frame[OF lists_rep_dll[OF rep that]] same) (metis set_ConsD)
  moreover have "dll (INIT_LIST_HEAD st n) n []" by (simp add: dll_Nil list_op_defs)
  moreover have "g \<noteq> n" if "g \<in> H" for g using that n by auto
  ultimately show ?thesis
    using rep n unfolding lists_rep_def by (auto split: if_splits)
qed

lemma lists_rep_forget: "lists_rep st H L \<Longrightarrow> lists_rep st (H - {n}) L"
  by (auto simp: lists_rep_def)

lemma lists_rep_cong:
  "lists_rep st H L \<Longrightarrow> (\<And>h. h \<in> H \<Longrightarrow> L h = L' h) \<Longrightarrow> lists_rep st H L'"
  by (simp add: lists_rep_def)

lemma lists_rep_subset: "lists_rep st H L \<Longrightarrow> H' \<subseteq> H \<Longrightarrow> lists_rep st H' L"
  unfolding lists_rep_def by blast

lemma lists_rep_weaken:
  "lists_rep st H L \<Longrightarrow> H' \<subseteq> H \<Longrightarrow> (\<And>h. h \<in> H' \<Longrightarrow> L h = L' h) \<Longrightarrow> lists_rep st H' L'"
  by (rule lists_rep_cong[OF lists_rep_subset])

subsection \<open>The operations on a family\<close>

lemma lists_rep_add:
  assumes "lists_rep st H L" "h \<in> H" "n \<notin> H" "\<And>g. g \<in> H \<Longrightarrow> n \<notin> set (L g)"
  shows "lists_rep (list_add st n h) H (L(h := n # L h))"
proof -
  have "lh_next (st h) = hd (L h @ [h])"
    using lists_rep_dll[OF assms(1,2)] by (auto simp: dll_def dest: chain_next)
  then show ?thesis
    using lists_rep_insert[OF assms(1,2), of "[]" "L h" n] assms(3,4) by (simp add: list_add_def)
qed

lemma lists_rep_add_tail:
  assumes "lists_rep st H L" "h \<in> H" "n \<notin> H" "\<And>g. g \<in> H \<Longrightarrow> n \<notin> set (L g)"
  shows "lists_rep (list_add_tail st n h) H (L(h := L h @ [n]))"
proof -
  have "lh_prev (st h) = last (h # L h)"
    using lists_rep_dll[OF assms(1,2)] by (rule dll_prev)
  then show ?thesis
    using lists_rep_insert[OF assms(1,2), of "L h" "[]" n] assms(3,4)
    by (simp add: list_add_tail_def)
qed

lemma lists_rep_distinct: "lists_rep st H L \<Longrightarrow> h \<in> H \<Longrightarrow> distinct (L h)"
  by (simp add: lists_rep_def dll_def)

lemma lists_rep_unlink_remove1:
  assumes rep: "lists_rep st H L" and h: "h \<in> H" and e: "e \<in> set (L h)"
  shows "lists_rep (list_del_internal st (lh_prev (st e)) (lh_next (st e))) H (L(h := remove1 e (L h)))"
    (is "lists_rep ?st H ?L")
    and "e \<notin> H" and "\<And>g. g \<in> H \<Longrightarrow> e \<notin> set ((L(h := remove1 e (L h))) g)"
proof -
  obtain xs ys where L: "L h = xs @ e # ys" "remove1 e (L h) = xs @ ys"
    using distinct_remove1_split[OF e lists_rep_distinct[OF rep h]] .
  show "lists_rep ?st H ?L" using lists_rep_unlink[OF rep h L(1)] by (simp only: L(2))
  show "e \<notin> H" using lists_rep_head_notin[OF rep h] e by auto
  fix g assume "g \<in> H"
  then have "g = h \<or> e \<notin> set (L g)"
    using lists_rep_member_unique[OF rep h _ e] by blast
  then show "e \<notin> set ((L(h := remove1 e (L h))) g)"
    using lists_rep_distinct[OF rep h] by (cases "g = h") simp_all
qed

lemma lists_rep_del:
  assumes rep: "lists_rep st H L" and h: "h \<in> H" and e: "e \<in> set (L h)"
  shows "lists_rep (list_del st e) (insert e H) (L(h := remove1 e (L h), e := []))"
  unfolding list_del_def by (intro lists_rep_init lists_rep_unlink_remove1[OF rep h e])

lemma set_idem:
  "lh_prev (st p) = v \<Longrightarrow> set_prev st p v = st" "lh_next (st p) = v \<Longrightarrow> set_next st p v = st"
  by (cases "st p", simp add: set_prev_def set_next_def fun_upd_idem)+

lemma detached_links:
  "lists_rep st H L \<Longrightarrow> e \<in> H \<Longrightarrow> L e = [] \<Longrightarrow> lh_next (st e) = e \<and> lh_prev (st e) = e"
  by (drule (1) lists_rep_dll) (simp add: dll_Nil)

lemma unlink_detached:
  "lists_rep st H L \<Longrightarrow> e \<in> H \<Longrightarrow> L e = [] \<Longrightarrow>
     list_del_internal st (lh_prev (st e)) (lh_next (st e)) = st"
  by (drule (2) detached_links) (simp add: list_del_internal_def set_idem)

lemma lists_rep_del_detached:
  assumes "lists_rep st H L" "e \<in> H" "L e = []"
  shows "lists_rep (list_del st e) H L"
  using assms detached_links[OF assms] unlink_detached[OF assms]
  by (simp add: list_del_def INIT_LIST_HEAD_def set_idem)

lemma lists_rep_move:
  assumes rep: "lists_rep st H L" and h: "h \<in> H" and e: "e \<in> set (L h)" and g: "g \<in> H"
  shows "lists_rep (list_move st e g) H
           ((L(h := remove1 e (L h)))(g := e # (L(h := remove1 e (L h))) g))"
  unfolding list_move_def by (intro lists_rep_add lists_rep_unlink_remove1[OF rep h e] g)

lemma lists_rep_move_tail:
  assumes rep: "lists_rep st H L" and h: "h \<in> H" and e: "e \<in> set (L h)" and g: "g \<in> H"
  shows "lists_rep (list_move_tail st e g) H
           ((L(h := remove1 e (L h)))(g := (L(h := remove1 e (L h))) g @ [e]))"
  unfolding list_move_tail_def by (intro lists_rep_add_tail lists_rep_unlink_remove1[OF rep h e] g)

lemma lists_rep_move_detached:
  assumes rep: "lists_rep st H L" and e: "e \<in> H" "L e = []" and g: "g \<in> H" "g \<noteq> e"
  shows "lists_rep (list_move st e g) (H - {e}) (L(g := e # L g))"
    and "lists_rep (list_move_tail st e g) (H - {e}) (L(g := L g @ [e]))"
proof -
  have f: "lists_rep st (H - {e}) L" using rep by (rule lists_rep_forget)
  have n: "e \<notin> H - {e}" "k \<in> H - {e} \<Longrightarrow> e \<notin> set (L k)" for k
    using lists_rep_head_notin[OF rep _ e(1)] by auto
  have u: "list_del_internal st (lh_prev (st e)) (lh_next (st e)) = st"
    using unlink_detached[OF rep e] .
  show "lists_rep (list_move st e g) (H - {e}) (L(g := e # L g))"
    unfolding list_move_def u by (intro lists_rep_add f n) (use g in auto)
  show "lists_rep (list_move_tail st e g) (H - {e}) (L(g := L g @ [e]))"
    unfolding list_move_tail_def u by (intro lists_rep_add_tail f n) (use g in auto)
qed

lemma lists_rep_empty: "lists_rep st H L \<Longrightarrow> h \<in> H \<Longrightarrow> list_empty st h \<longleftrightarrow> L h = []"
  by (drule (1) lists_rep_dll) (rule dll_empty)

lemma lists_rep_first: "lists_rep st H L \<Longrightarrow> h \<in> H \<Longrightarrow> L h = x # xs \<Longrightarrow> lh_next (st h) = x"
  by (drule (1) lists_rep_dll) (simp add: dll_next)

lemma lists_rep_next:
  "lists_rep st H L \<Longrightarrow> h \<in> H \<Longrightarrow> L h = x # xs \<Longrightarrow> lh_next (st x) = hd (xs @ [h])"
  by (drule (1) lists_rep_dll) (auto simp: dll_def dest: chain_next)

subsection \<open>The contract of list.h\<close>

text \<open>
  What the kernel relies on: on a store that represents a family of disjoint lists, every
  operation returns a store that represents the family with the expected list updated and
  all the others untouched.
\<close>

locale intrusive_lists =
  fixes rep :: "'s \<Rightarrow> 'n set \<Rightarrow> ('n \<Rightarrow> 'n list) \<Rightarrow> bool"
    and init :: "'s \<Rightarrow> 'n \<Rightarrow> 's"
    and add add_tail :: "'s \<Rightarrow> 'n \<Rightarrow> 'n \<Rightarrow> 's"
    and del :: "'s \<Rightarrow> 'n \<Rightarrow> 's"
    and move move_tail :: "'s \<Rightarrow> 'n \<Rightarrow> 'n \<Rightarrow> 's"
    and empty :: "'s \<Rightarrow> 'n \<Rightarrow> bool"
    and first :: "'s \<Rightarrow> 'n \<Rightarrow> 'n"
  assumes rep_init: "rep s H L \<Longrightarrow> n \<notin> H \<Longrightarrow> (\<And>g. g \<in> H \<Longrightarrow> n \<notin> set (L g)) \<Longrightarrow>
        rep (init s n) (insert n H) (L(n := []))"
    and rep_add: "rep s H L \<Longrightarrow> h \<in> H \<Longrightarrow> n \<notin> H \<Longrightarrow> (\<And>g. g \<in> H \<Longrightarrow> n \<notin> set (L g)) \<Longrightarrow>
        rep (add s n h) H (L(h := n # L h))"
    and rep_add_tail: "rep s H L \<Longrightarrow> h \<in> H \<Longrightarrow> n \<notin> H \<Longrightarrow> (\<And>g. g \<in> H \<Longrightarrow> n \<notin> set (L g)) \<Longrightarrow>
        rep (add_tail s n h) H (L(h := L h @ [n]))"
    and rep_del: "rep s H L \<Longrightarrow> h \<in> H \<Longrightarrow> e \<in> set (L h) \<Longrightarrow>
        rep (del s e) (insert e H) (L(h := remove1 e (L h), e := []))"
    and rep_del_detached: "rep s H L \<Longrightarrow> e \<in> H \<Longrightarrow> L e = [] \<Longrightarrow> rep (del s e) H L"
    and rep_move: "rep s H L \<Longrightarrow> h \<in> H \<Longrightarrow> e \<in> set (L h) \<Longrightarrow> g \<in> H \<Longrightarrow>
        rep (move s e g) H ((L(h := remove1 e (L h)))(g := e # (L(h := remove1 e (L h))) g))"
    and rep_move_tail: "rep s H L \<Longrightarrow> h \<in> H \<Longrightarrow> e \<in> set (L h) \<Longrightarrow> g \<in> H \<Longrightarrow>
        rep (move_tail s e g) H ((L(h := remove1 e (L h)))(g := (L(h := remove1 e (L h))) g @ [e]))"
    and rep_move_detached: "rep s H L \<Longrightarrow> e \<in> H \<Longrightarrow> L e = [] \<Longrightarrow> g \<in> H \<Longrightarrow> g \<noteq> e \<Longrightarrow>
        rep (move s e g) (H - {e}) (L(g := e # L g))"
    and rep_move_tail_detached: "rep s H L \<Longrightarrow> e \<in> H \<Longrightarrow> L e = [] \<Longrightarrow> g \<in> H \<Longrightarrow> g \<noteq> e \<Longrightarrow>
        rep (move_tail s e g) (H - {e}) (L(g := L g @ [e]))"
    and empty_iff: "rep s H L \<Longrightarrow> h \<in> H \<Longrightarrow> empty s h \<longleftrightarrow> L h = []"
    and first_eq: "rep s H L \<Longrightarrow> h \<in> H \<Longrightarrow> L h = x # xs \<Longrightarrow> first s h = x"
    and next_eq: "rep s H L \<Longrightarrow> h \<in> H \<Longrightarrow> L h = x # xs \<Longrightarrow> first s x = hd (xs @ [h])"
    and rep_forget: "rep s H L \<Longrightarrow> rep s (H - {n}) L"
    and rep_weaken: "rep s H L \<Longrightarrow> H' \<subseteq> H \<Longrightarrow> (\<And>h. h \<in> H' \<Longrightarrow> L h = L' h) \<Longrightarrow> rep s H' L'"
    and rep_cong: "rep s H L \<Longrightarrow> (\<And>h. h \<in> H \<Longrightarrow> L h = L' h) \<Longrightarrow> rep s H L'"
    and rep_distinct: "rep s H L \<Longrightarrow> h \<in> H \<Longrightarrow> distinct (L h)"
    and rep_head_notin: "rep s H L \<Longrightarrow> h \<in> H \<Longrightarrow> g \<in> H \<Longrightarrow> g \<notin> set (L h)"
    and rep_unique: "rep s H L \<Longrightarrow> h \<in> H \<Longrightarrow> g \<in> H \<Longrightarrow> e \<in> set (L h) \<Longrightarrow> e \<in> set (L g) \<Longrightarrow> g = h"
begin

text \<open>Adding a detached node consumes its self-linked state.\<close>

lemma add_detached:
  assumes "rep s H L" "n \<in> H" "L n = []" "h \<in> H" "h \<noteq> n"
  shows "rep (add s n h) (H - {n}) (L(h := n # L h))"
    and "rep (add_tail s n h) (H - {n}) (L(h := L h @ [n]))"
  using assms rep_head_notin[OF assms(1) _ assms(2)]
  by (auto intro: rep_add[OF rep_forget] rep_add_tail[OF rep_forget])

text \<open>Deleting the first entry is a dequeue.\<close>

lemma del_first:
  assumes "rep s H L" "h \<in> H" "L h = x # xs"
  shows "first s h = x" and "rep (del s x) (insert x H) (L(h := xs, x := []))"
  using assms rep_del[OF assms(1,2), of x] by (auto intro: first_eq)

text \<open>A deleted entry can be forgotten: only the list it was on changes.\<close>

lemma take_first:
  assumes "rep s H L" "h \<in> H" "L h = x # xs"
  shows "rep (del s x) H (L(h := xs))"
proof -
  have "x \<notin> H" using rep_head_notin[OF assms(1,2)] assms(3) by auto
  then show ?thesis by (intro rep_weaken[OF del_first(2)[OF assms]]) auto
qed

lemma take_any:
  assumes "rep s H L" "h \<in> H" "e \<in> set (L h)"
  shows "rep (del s e) H (L(h := remove1 e (L h)))"
proof -
  have "e \<notin> H" using rep_head_notin[OF assms(1,2)] assms(3) by auto
  then show ?thesis by (intro rep_weaken[OF rep_del[OF assms]]) auto
qed

text \<open>Moving the first entry to the tail of its own list is a rotation.\<close>

lemma rotate_first:
  assumes "rep s H L" "h \<in> H" "L h = x # xs"
  shows "rep (move_tail s x h) H (L(h := xs @ [x]))"
  using assms rep_move_tail[OF assms(1,2) _ assms(2), of x] by simp

text \<open>Moving an entry to another list.\<close>

lemma move_other:
  assumes "rep s H L" "h \<in> H" "e \<in> set (L h)" "g \<in> H" "g \<noteq> h"
  shows "rep (move s e g) H (L(h := remove1 e (L h), g := e # L g))"
    and "rep (move_tail s e g) H (L(h := remove1 e (L h), g := L g @ [e]))"
  using assms rep_move[OF assms(1-4)] rep_move_tail[OF assms(1-4)] by simp_all

end

interpretation lh: intrusive_lists lists_rep INIT_LIST_HEAD list_add list_add_tail list_del
  list_move list_move_tail list_empty "\<lambda>st h. lh_next (st h)"
  by unfold_locales
    (fact lists_rep_init lists_rep_add lists_rep_add_tail lists_rep_del lists_rep_del_detached
      lists_rep_move lists_rep_move_tail lists_rep_move_detached lists_rep_empty lists_rep_first lists_rep_next lists_rep_weaken
      lists_rep_forget lists_rep_cong lists_rep_distinct lists_rep_head_notin
      lists_rep_member_unique)+

subsection \<open>The safe iteration\<close>

text \<open>
  A body that takes the visited entry off the list leaves the saved next entry valid, so the
  loop visits exactly the entries the list had, in order.
\<close>

lemma for_each_safe_visits:
  assumes "Inv s xs" and "n = lh_next (links s (hd (xs @ [head])))"
    and next_entry: "\<And>s x xs. Inv s (x # xs) \<Longrightarrow> x \<noteq> head \<and> lh_next (links s x) = hd (xs @ [head])"
    and step: "\<And>s x xs. Inv s (x # xs) \<Longrightarrow> \<exists>s'. body x s = Some s' \<and> Inv s' xs"
  shows "\<exists>s'. for_each_safe links head body (hd (xs @ [head])) n s = Some s' \<and> Inv s' []"
  using assms(1,2)
proof (induction xs arbitrary: s n)
  case Nil
  then show ?case by (simp add: for_each_safe.simps)
next
  case (Cons x xs)
  have x: "x \<noteq> head" "n = hd (xs @ [head])"
    using next_entry[OF Cons.prems(1)] Cons.prems(2) by auto
  obtain s1 where s1: "body x s = Some s1" "Inv s1 xs" using step[OF Cons.prems(1)] by blast
  from Cons.IH[OF s1(2) refl] obtain s2 where
    "for_each_safe links head body (hd (xs @ [head])) (lh_next (links s1 (hd (xs @ [head])))) s1
       = Some s2" "Inv s2 []" by blast
  with x s1(1) show ?case by (subst for_each_safe.simps) simp
qed

lemma list_for_each_entry_safe_visits:
  assumes "Inv s xs" and "lh_next (links s head) = hd (xs @ [head])"
    and "\<And>s x xs. Inv s (x # xs) \<Longrightarrow> x \<noteq> head \<and> lh_next (links s x) = hd (xs @ [head])"
    and "\<And>s x xs. Inv s (x # xs) \<Longrightarrow> \<exists>s'. body x s = Some s' \<and> Inv s' xs"
  shows "\<exists>s'. list_for_each_entry_safe links head body s = Some s' \<and> Inv s' []"
  using for_each_safe_visits[where Inv = Inv and links = links and head = head and body = body,
      OF assms(1) refl assms(3,4)] assms(2)
  by (simp add: list_for_each_entry_safe_def Let_def)

subsection \<open>Sequences of list operations\<close>

text \<open>
  A program that owns the heads \<open>H\<close> performs a sequence of operations; the sequences the heads
  stand for change the way the names of the operations say.
\<close>

datatype 'n list_op = LAdd 'n 'n | LAddTail 'n 'n | LDel 'n | LMove 'n 'n | LMoveTail 'n 'n

fun lop_run :: "'n list_op \<Rightarrow> 'n lstore \<Rightarrow> 'n lstore" where
  "lop_run (LAdd n h) st = list_add st n h"
| "lop_run (LAddTail n h) st = list_add_tail st n h"
| "lop_run (LDel e) st = list_del st e"
| "lop_run (LMove e h) st = list_move st e h"
| "lop_run (LMoveTail e h) st = list_move_tail st e h"

fun lop_spec :: "'n list_op \<Rightarrow> ('n \<Rightarrow> 'n list) \<Rightarrow> 'n \<Rightarrow> 'n list" where
  "lop_spec (LAdd n h) L = L(h := n # L h)"
| "lop_spec (LAddTail n h) L = L(h := L h @ [n])"
| "lop_spec (LDel e) L = (\<lambda>g. remove1 e (L g))"
| "lop_spec (LMove e h) L = (let L = \<lambda>g. remove1 e (L g) in L(h := e # L h))"
| "lop_spec (LMoveTail e h) L = (let L = \<lambda>g. remove1 e (L g) in L(h := L h @ [e]))"

fun lop_ok :: "'n set \<Rightarrow> ('n \<Rightarrow> 'n list) \<Rightarrow> 'n list_op \<Rightarrow> bool" where
  "lop_ok H L (LAdd n h) \<longleftrightarrow> h \<in> H \<and> n \<notin> H \<and> (\<forall>g\<in>H. n \<notin> set (L g))"
| "lop_ok H L (LAddTail n h) \<longleftrightarrow> h \<in> H \<and> n \<notin> H \<and> (\<forall>g\<in>H. n \<notin> set (L g))"
| "lop_ok H L (LDel e) \<longleftrightarrow> (\<exists>h\<in>H. e \<in> set (L h))"
| "lop_ok H L (LMove e h) \<longleftrightarrow> h \<in> H \<and> (\<exists>h\<in>H. e \<in> set (L h))"
| "lop_ok H L (LMoveTail e h) \<longleftrightarrow> h \<in> H \<and> (\<exists>h\<in>H. e \<in> set (L h))"

fun lops_ok :: "'n set \<Rightarrow> ('n \<Rightarrow> 'n list) \<Rightarrow> 'n list_op list \<Rightarrow> bool" where
  "lops_ok H L [] \<longleftrightarrow> True"
| "lops_ok H L (op # ops) \<longleftrightarrow> lop_ok H L op \<and> lops_ok H (lop_spec op L) ops"

lemma lists_rep_remove1_only:
  assumes "lists_rep st H L" "h \<in> H" "e \<in> set (L h)" "g \<in> H"
  shows "(L(h := remove1 e (L h))) g = remove1 e (L g)"
proof -
  have "g \<noteq> h \<Longrightarrow> e \<notin> set (L g)" using lists_rep_member_unique[OF assms(1,2,4,3)] by blast
  then show ?thesis by (simp add: remove1_idem)
qed

lemma lop_run_spec:
  assumes rep: "lists_rep st H L" and ok: "lop_ok H L op"
  shows "lists_rep (lop_run op st) H (lop_spec op L)"
proof (cases op)
  case (LAdd n h)
  with ok lh.rep_add[OF rep] show ?thesis by simp
next
  case (LAddTail n h)
  with ok lh.rep_add_tail[OF rep] show ?thesis by simp
next
  case (LDel e)
  then obtain h where h: "h \<in> H" "e \<in> set (L h)" using ok by auto
  show ?thesis unfolding LDel lop_run.simps lop_spec.simps
    by (rule lh.rep_cong[OF lh.take_any[OF rep h]]) (rule lists_rep_remove1_only[OF rep h])
next
  case (LMove e g)
  then obtain h where h: "h \<in> H" "e \<in> set (L h)" and g: "g \<in> H" using ok by auto
  show ?thesis unfolding LMove lop_run.simps lop_spec.simps Let_def
    by (rule lh.rep_cong[OF lh.rep_move[OF rep h g]])
      (use lists_rep_remove1_only[OF rep h] g in \<open>simp del: fun_upd_apply add: fun_upd_def[of _ g]\<close>)
next
  case (LMoveTail e g)
  then obtain h where h: "h \<in> H" "e \<in> set (L h)" and g: "g \<in> H" using ok by auto
  show ?thesis unfolding LMoveTail lop_run.simps lop_spec.simps Let_def
    by (rule lh.rep_cong[OF lh.rep_move_tail[OF rep h g]])
      (use lists_rep_remove1_only[OF rep h] g in \<open>simp del: fun_upd_apply add: fun_upd_def[of _ g]\<close>)
qed

text \<open>C16. Any sequence of \<open>list_add\<close>, \<open>list_add_tail\<close>, \<open>list_del\<close>, \<open>list_move\<close> and
  \<open>list_move_tail\<close>, each applied to a new entry or to an entry that is on some list, takes a
  family of well-linked circular lists to the family of well-linked circular lists whose contents
  are those the operations compute on sequences.\<close>

theorem list_ops_refine:
  assumes "lists_rep st H L" "lops_ok H L ops"
  shows "lists_rep (fold lop_run ops st) H (fold lop_spec ops L)"
  using assms by (induction ops arbitrary: st L) (auto intro: lop_run_spec)

text \<open>Two heads and three entries: the hypotheses hold, and the result is the expected one.\<close>

theorem list_ops_refine_witness:
  "lists_rep
     (fold lop_run [LAddTail 2 0, LAddTail 3 0, LAdd 4 0, LMove 2 1, LDel 3]
        (\<lambda>n. \<lparr>lh_next = n, lh_prev = n\<rparr>))
     {0, 1 :: nat} ((\<lambda>_. [])(0 := [4], 1 := [2]))"
  (is "lists_rep (fold lop_run ?ops ?st) ?H ?L")
proof -
  have "lists_rep ?st ?H (\<lambda>_. [])" by (auto simp: lists_rep_def dll_def)
  then have "lists_rep (fold lop_run ?ops ?st) ?H (fold lop_spec ?ops (\<lambda>_. []))"
    by (rule list_ops_refine) simp
  then show ?thesis by (rule lists_rep_cong) auto
qed

end
