(* ===== verification/KString.thy ===== *)
theory KString
  imports Prelude
begin

text \<open>
  The string and memory routines of \<^verbatim>\<open>kernel/string.c\<close> over a byte memory.  A pointer is a
  32-bit address and \<open>p++\<close> is addition on it.  The loops that count a \<open>size_t\<close> down
  recurse on its value; the loops that look for a terminating NUL may run past the end of
  an unterminated string and are partial functions.  \<open>cstr m s xs\<close> says that the NUL
  terminated string at \<open>s\<close> has the bytes \<open>xs\<close>; the lemmas give every routine's result on
  such strings.
\<close>

type_synonym mem = "addr \<Rightarrow> u8"

subsection \<open>The routines\<close>

primrec memset_loop :: "mem \<Rightarrow> addr \<Rightarrow> u8 \<Rightarrow> nat \<Rightarrow> mem" where
  "memset_loop m d c 0 = m"
| "memset_loop m d c (Suc n) = memset_loop (m(d := c)) (d + 1) c n"

definition memset :: "mem \<Rightarrow> addr \<Rightarrow> u32 \<Rightarrow> u32 \<Rightarrow> mem" where
  "memset m dst c n = memset_loop m dst (ucast c) (unat n)"

primrec memcpy_loop :: "mem \<Rightarrow> addr \<Rightarrow> addr \<Rightarrow> nat \<Rightarrow> mem" where
  "memcpy_loop m d s 0 = m"
| "memcpy_loop m d s (Suc n) = memcpy_loop (m(d := m s)) (d + 1) (s + 1) n"

definition memcpy :: "mem \<Rightarrow> addr \<Rightarrow> addr \<Rightarrow> u32 \<Rightarrow> mem" where
  "memcpy m dst src n = memcpy_loop m dst src (unat n)"

text \<open>The loop variable \<open>ret\<close> holds the last difference of two bytes promoted to \<open>int\<close>.\<close>

primrec memcmp_loop :: "mem \<Rightarrow> addr \<Rightarrow> addr \<Rightarrow> nat \<Rightarrow> int \<Rightarrow> int" where
  "memcmp_loop m cs ct 0 ret = ret"
| "memcmp_loop m cs ct (Suc n) ret =
     (let ret = uint (m cs) - uint (m ct)
      in if ret \<noteq> 0 then ret else memcmp_loop m (cs + 1) (ct + 1) n ret)"

definition memcmp :: "mem \<Rightarrow> addr \<Rightarrow> addr \<Rightarrow> u32 \<Rightarrow> int" where
  "memcmp m s1 s2 n = memcmp_loop m s1 s2 (unat n) 0"

partial_function (option) strlen_loop :: "mem \<Rightarrow> addr \<Rightarrow> u32 \<Rightarrow> u32 option" where
  "strlen_loop m s ret = (if m s = 0 then Some ret else strlen_loop m (s + 1) (ret + 1))"

definition strlen :: "mem \<Rightarrow> addr \<Rightarrow> u32 option" where
  "strlen m s = strlen_loop m s 0"

primrec strnlen_loop :: "mem \<Rightarrow> nat \<Rightarrow> addr \<Rightarrow> addr" where
  "strnlen_loop m 0 sc = sc"
| "strnlen_loop m (Suc count) sc = (if m sc \<noteq> 0 then strnlen_loop m count (sc + 1) else sc)"

definition strnlen :: "mem \<Rightarrow> addr \<Rightarrow> u32 \<Rightarrow> u32" where
  "strnlen m s count = strnlen_loop m (unat count) s - s"

text \<open>
  \<open>_res\<close> is an \<open>int8_t\<close>: the difference of the two (signed) characters is cut to
  8 bits before it is tested and returned.
\<close>

partial_function (option) strcmp :: "mem \<Rightarrow> addr \<Rightarrow> addr \<Rightarrow> int option" where
  "strcmp m cs ct =
     (let res = m cs - m ct
      in if res \<noteq> 0 \<or> m cs = 0 then Some (sint res) else strcmp m (cs + 1) (ct + 1))"

partial_function (option) strchr :: "mem \<Rightarrow> addr \<Rightarrow> int \<Rightarrow> addr option" where
  "strchr m str c =
     (if m str = 0 then Some NULL
      else if c = sint (m str) then Some str
      else strchr m (str + 1) c)"

subsection \<open>Strings in memory\<close>

primrec cstr :: "mem \<Rightarrow> addr \<Rightarrow> u8 list \<Rightarrow> bool" where
  "cstr m s [] \<longleftrightarrow> m s = 0"
| "cstr m s (x # xs) \<longleftrightarrow> m s = x \<and> x \<noteq> 0 \<and> cstr m (s + 1) xs"

primrec bytes_at :: "mem \<Rightarrow> addr \<Rightarrow> nat \<Rightarrow> u8 list" where
  "bytes_at m s 0 = []"
| "bytes_at m s (Suc n) = m s # bytes_at m (s + 1) n"

lemma length_bytes_at [simp]: "length (bytes_at m s n) = n"
  by (induction n arbitrary: s) auto

lemma nth_bytes_at: "i < n \<Longrightarrow> bytes_at m s n ! i = m (s + of_nat i)"
  by (induction n arbitrary: s i) (auto simp: nth_Cons add.assoc split: nat.splits)

lemma cstr_unique: "cstr m s xs \<Longrightarrow> cstr m s ys \<Longrightarrow> xs = ys"
proof (induction xs arbitrary: s ys)
  case Nil
  then show ?case by (cases ys) auto
next
  case (Cons x xs)
  then show ?case by (cases ys) auto
qed

lemma cstrI:
  assumes "\<And>i. i < length xs \<Longrightarrow> m (p + of_nat i) = xs ! i" "m (p + of_nat (length xs)) = 0" "0 \<notin> set xs"
  shows "cstr m p xs"
  using assms
proof (induction xs arbitrary: p)
  case Nil
  then show ?case by simp
next
  case (Cons x xs)
  have "cstr m (p + 1) xs"
  proof (rule Cons.IH)
    fix i assume "i < length xs"
    then show "m (p + 1 + of_nat i) = xs ! i" using Cons.prems(1)[of "Suc i"] by (simp add: add.assoc)
  qed (use Cons.prems in \<open>auto simp: add.assoc\<close>)
  then show ?case using Cons.prems(1)[of 0] Cons.prems(3) by auto
qed

lemma cstr_cong:
  assumes "cstr m p xs" "\<And>r. r \<le> length xs \<Longrightarrow> m' (p + of_nat r) = m (p + of_nat r)"
  shows "cstr m' p xs"
  using assms
proof (induction xs arbitrary: p)
  case Nil
  then show ?case using Nil(2)[of 0] by simp
next
  case (Cons x xs)
  have "cstr m' (p + 1) xs" using Cons.prems(1) Cons.prems(2)[of "Suc _"] by (intro Cons.IH) (simp_all add: add.assoc)
  then show ?case using Cons.prems(1) Cons.prems(2)[of 0] by simp
qed

lemma strlen_loop_cstr: "cstr m s xs \<Longrightarrow> strlen_loop m s r = Some (r + of_nat (length xs))"
  by (induction xs arbitrary: s r) (auto simp: strlen_loop.simps add.assoc add.commute)

lemma strlen_cstr: "cstr m s xs \<Longrightarrow> strlen m s = Some (of_nat (length xs))"
  by (simp add: strlen_def strlen_loop_cstr)

lemma strnlen_loop_cstr:
  "cstr m s xs \<Longrightarrow> strnlen_loop m n s = s + of_nat (min n (length xs))"
proof (induction xs arbitrary: s n)
  case Nil
  then show ?case by (cases n) auto
next
  case (Cons x xs)
  then show ?case by (cases n) auto
qed

lemma strnlen_cstr: "cstr m s xs \<Longrightarrow> strnlen m s c = of_nat (min (unat c) (length xs))"
  by (simp add: strnlen_def strnlen_loop_cstr)

text \<open>The result of \<open>strcmp\<close>: the 8-bit difference at the first place the strings differ.\<close>

primrec strdiff :: "u8 list \<Rightarrow> u8 list \<Rightarrow> u8" where
  "strdiff [] ys = - hd (ys @ [0])"
| "strdiff (x # xs) ys =
     (if x \<noteq> hd (ys @ [0]) then x - hd (ys @ [0]) else strdiff xs (tl ys))"

lemma strcmp_cstr: "cstr m p xs \<Longrightarrow> cstr m q ys \<Longrightarrow> strcmp m p q = Some (sint (strdiff xs ys))"
proof (induction xs arbitrary: p q ys)
  case Nil
  then show ?case by (cases ys) (auto simp: strcmp.simps)
next
  case (Cons x xs)
  then show ?case
    by (cases ys) (auto simp: strcmp.simps[of m p q])
qed

lemma strdiff_0_iff: "0 \<notin> set xs \<Longrightarrow> 0 \<notin> set ys \<Longrightarrow> strdiff xs ys = 0 \<longleftrightarrow> xs = ys"
proof (induction xs arbitrary: ys)
  case Nil
  then show ?case by (cases ys) auto
next
  case (Cons x xs)
  then show ?case by (cases ys) auto
qed

lemma cstr_nonzero: "cstr m s xs \<Longrightarrow> 0 \<notin> set xs"
  by (induction xs arbitrary: s) auto

lemma strcmp_zero_iff:
  "cstr m p xs \<Longrightarrow> cstr m q ys \<Longrightarrow> \<exists>r. strcmp m p q = Some r \<and> (r = 0 \<longleftrightarrow> xs = ys)"
  by (simp add: strcmp_cstr strdiff_0_iff cstr_nonzero signed_eq_0_iff)

subsection \<open>Block operations\<close>

lemma unat_sub_Suc: "a \<noteq> (d :: 'a::len word) \<Longrightarrow> unat (a - d) = Suc (unat (a - (d + 1)))"
proof -
  assume "a \<noteq> d"
  then have nz: "a - d \<noteq> 0" by simp
  then have "unat (a - d - 1) = unat (a - d) - 1" by (rule unat_minus_one)
  moreover have "0 < unat (a - d)" using nz by (simp add: unat_gt_0)
  ultimately show ?thesis by (simp add: diff_diff_eq)
qed

lemma memset_loop_apply:
  "n \<le> 2 ^ 32 \<Longrightarrow> memset_loop m d c n a = (if unat (a - d) < n then c else m a)"
proof (induction n arbitrary: m d)
  case 0
  then show ?case by simp
next
  case (Suc n)
  have "unat (d - (d + 1)) = 2 ^ 32 - 1" by (simp add: unsigned_minus_1_eq_mask mask_eq_exp_minus_1)
  then show ?case
    using Suc unat_sub_Suc[of a d] by (cases "a = d") auto
qed

lemma memset_apply: "memset m d c n a = (if unat (a - d) < unat n then ucast c else m a)"
  unfolding memset_def using unsigned_less[of n, where 'a = nat] by (subst memset_loop_apply) auto

lemma memcpy_loop_apply:
  assumes "n \<le> 2 ^ 32" "unat (d - s) \<ge> n" "unat (s - d) \<ge> n \<or> n = 0"
  shows "memcpy_loop m d s n a = (if unat (a - d) < n then m (s + (a - d)) else m a)"
  using assms
proof (induction n arbitrary: m d s)
  case 0
  then show ?case by simp
next
  case (Suc n)
  let ?m = "m(d := m s)"
  have eq: "d + 1 - (s + 1) = d - s" "s + 1 - (d + 1) = s - d" by simp_all
  have IH: "memcpy_loop ?m (d + 1) (s + 1) n a
      = (if unat (a - (d + 1)) < n then ?m (s + 1 + (a - (d + 1))) else ?m a)"
    using Suc.prems by (intro Suc.IH) (auto simp: eq)
  show ?case
  proof (cases "a = d")
    case True
    have "unat (d - (d + 1)) = 2 ^ 32 - 1"
      by (simp add: unsigned_minus_1_eq_mask mask_eq_exp_minus_1)
    with True IH Suc.prems(1) show ?thesis by simp
  next
    case False
    have src: "s + 1 + (a - (d + 1)) = s + (a - d)" by simp
    have "s + (a - d) \<noteq> d" if "unat (a - d) < Suc n"
    proof
      assume "s + (a - d) = d"
      then have "a - d = d - s" by (simp add: eq_diff_eq add.commute)
      with that Suc.prems(2) show False by simp
    qed
    with False IH src unat_sub_Suc[OF False] show ?thesis by auto
  qed
qed

lemma strchr_cstr:
  "cstr m s xs \<Longrightarrow>
     strchr m s c = Some (case List.find (\<lambda>i. sint (xs ! i) = c) [0..<length xs] of
        None \<Rightarrow> NULL | Some i \<Rightarrow> s + of_nat i)"
proof (induction xs arbitrary: s)
  case Nil
  then show ?case by (simp add: strchr.simps)
next
  case (Cons x xs)
  have idx: "[0..<length (x # xs)] = 0 # map Suc [0..<length xs]"
    by (simp add: map_Suc_upt upt_conv_Cons del: upt_Suc)
  have "List.find (\<lambda>i. sint ((x # xs) ! i) = c) (map Suc ys)
      = map_option Suc (List.find (\<lambda>i. sint (xs ! i) = c) ys)" for ys
    by (induction ys) auto
  then have find: "List.find (\<lambda>i. sint ((x # xs) ! i) = c) [0..<Suc (length xs)]
      = (if sint x = c then Some 0
         else map_option Suc (List.find (\<lambda>i. sint (xs ! i) = c) [0..<length xs]))"
    using idx by (simp del: upt_Suc)
  show ?case
    using Cons by (subst strchr.simps) (auto simp: find add.assoc simp del: upt_Suc split: option.splits)
qed

subsection \<open>Loads and stores of 32-bit objects\<close>

text \<open>The machine is little-endian; \<open>*(uint32_t *)p\<close> is four bytes from \<open>p\<close>.\<close>

definition read32 :: "mem \<Rightarrow> addr \<Rightarrow> u32" where
  "read32 m a = ucast (m a) OR push_bit 8 (ucast (m (a + 1)))
     OR push_bit 16 (ucast (m (a + 2))) OR push_bit 24 (ucast (m (a + 3)))"

definition write32 :: "mem \<Rightarrow> addr \<Rightarrow> u32 \<Rightarrow> mem" where
  "write32 m a v = m(a := ucast v, a + 1 := ucast (drop_bit 8 v),
     a + 2 := ucast (drop_bit 16 v), a + 3 := ucast (drop_bit 24 v))"

lemma read32_write32 [simp]: "read32 (write32 m a v) a = v"
proof -
  have bits: "ucast (ucast v :: u8) OR push_bit 8 (ucast (ucast (drop_bit 8 v) :: u8))
     OR push_bit 16 (ucast (ucast (drop_bit 16 v) :: u8))
     OR push_bit 24 (ucast (ucast (drop_bit 24 v) :: u8)) = v" (is "?l = v")
  proof (rule bit_word_eqI)
    fix n assume "n < LENGTH(32)"
    then consider "n < 8" | "8 \<le> n" "n < 16" | "16 \<le> n" "n < 24" | "24 \<le> n" "n < 32"
      by fastforce
    then show "bit ?l n = bit v n"
      by cases (auto simp: bit_simps)
  qed
  have "a + 1 \<noteq> a" "a + 2 \<noteq> a" "a + 3 \<noteq> a" "a + 2 \<noteq> a + 1" "a + 3 \<noteq> a + 1" "a + 3 \<noteq> a + 2"
    by simp_all
  then show ?thesis using bits by (simp add: read32_def write32_def)
qed

lemma write32_other: "unat (b - a) \<ge> 4 \<Longrightarrow> write32 m a v b = m b"
  by (auto simp: write32_def)

lemma read32_cong2: "(\<And>i. i < 4 \<Longrightarrow> m (a + i) = m' (b + i)) \<Longrightarrow> read32 m a = read32 m' b"
proof -
  assume eq: "\<And>i. i < 4 \<Longrightarrow> m (a + i) = m' (b + i)"
  show "read32 m a = read32 m' b"
    using eq[of 0] eq[of 1] eq[of 2] eq[of 3] by (simp add: read32_def)
qed

lemmas read32_cong = read32_cong2[where a = a and b = a for a]

lemma unat_neg_ge:
  fixes c :: "32 word"
  assumes "4 \<le> unat c" "4 \<le> unat (- c)"
  shows "unat c \<le> 2 ^ 32 - 4"
proof -
  have "c \<noteq> 0" using assms by auto
  then have "unat (- c) = 2 ^ 32 - unat c" using unat_gt_0[of c] unat_sub_if'[of 0 c] by simp
  with assms(2) show ?thesis by simp
qed

lemma read32_write32_other:
  assumes "4 \<le> unat (b - a)" "4 \<le> unat (a - b)"
  shows "read32 (write32 m a v) b = read32 m b"
proof (rule read32_cong, rule write32_other)
  fix i :: u32 assume i: "i < 4"
  have "unat (b - a) \<le> 2 ^ 32 - 4" using assms by (intro unat_neg_ge) simp_all
  moreover have "unat i < 4" using i by (simp add: word_less_nat_alt)
  ultimately have "unat (b - a + i) = unat (b - a) + unat i" by (simp add: unat_word_ariths)
  moreover have eq: "b + i - a = b - a + i" by simp
  ultimately show "4 \<le> unat (b + i - a)" unfolding eq using assms(1) by simp
qed

end
