(* ===== verification/Buddy.thy ===== *)
theory Buddy
  imports ListHead KString
begin

text \<open>
  Page frames and the page allocator: \<^verbatim>\<open>struct page\<close> and its helpers
  (\<^verbatim>\<open>include/scaraOS/mm.h\<close>, \<^verbatim>\<open>include/arch-ia32/page.h\<close>) and
  \<^verbatim>\<open>kernel/buddy.c\<close>.

  A \<open>struct page *\<close> is its index in the page frame array \<open>pfa\<close>, so that the pointer
  differences of \<open>page_address\<close> and \<open>virt_to_page\<close> are written out. The member
  \<open>u.list\<close> of every page and the heads \<open>free_list[i]\<close> live in one store of list nodes.
  The other members of the union \<open>u\<close> are modelled by the components that own the page while
  they are live. The allocator is shown to be a first-in first-out queue of page frames.
\<close>

subsection \<open>Page frames\<close>

definition PAGE_SHIFT :: nat where "PAGE_SHIFT = 12"
definition PAGE_OFFSET :: addr where "PAGE_OFFSET = 0xc0000000"
definition PAGE_SIZE :: u32 where "PAGE_SIZE = push_bit PAGE_SHIFT 1"
definition PAGE_MASK :: u32 where "PAGE_MASK = PAGE_SIZE - 1"
definition MAX_ORDER :: nat where "MAX_ORDER = 10"
definition PAGE_POISON_PATTERN :: u32 where "PAGE_POISON_PATTERN = 0x5a"

definition PG_free :: u16 where "PG_free = 0"
definition PG_reserved :: u16 where "PG_reserved = 1"
definition PG_slab :: u16 where "PG_slab = 2"
definition PG_pagecache :: u16 where "PG_pagecache = 3"

lemmas page_consts = PAGE_SHIFT_def PAGE_OFFSET_def PAGE_SIZE_def PAGE_MASK_def MAX_ORDER_def

definition pa :: "addr \<Rightarrow> u32" where "pa x = x - PAGE_OFFSET"
definition va :: "u32 \<Rightarrow> addr" where "va x = x + PAGE_OFFSET"

definition va_round_up :: "addr \<Rightarrow> addr" where
  "va_round_up a = (a + PAGE_MASK) AND NOT PAGE_MASK"

definition va_round_down :: "addr \<Rightarrow> addr" where
  "va_round_down a = a AND NOT PAGE_MASK"

record page =
  pg_count :: u32
  pg_type :: u16
  pg_flags :: u16

datatype pnode = FreeList nat | PageList nat

definition page_phys :: "nat \<Rightarrow> u32" where "page_phys i = push_bit PAGE_SHIFT (of_nat i)"
definition page_address :: "nat \<Rightarrow> addr" where "page_address i = va (push_bit PAGE_SHIFT (of_nat i))"
definition phys_to_page :: "u32 \<Rightarrow> nat" where "phys_to_page p = unat (drop_bit PAGE_SHIFT p)"
definition virt_to_page :: "addr \<Rightarrow> nat" where "virt_to_page v = unat (drop_bit PAGE_SHIFT (pa v))"

text \<open>The file-scope state of \<^verbatim>\<open>kernel/buddy.c\<close>, and the memory the pages are.\<close>

record buddy =
  pfa :: "nat \<Rightarrow> page"
  nr_physpages :: u32
  nr_freepages :: u32
  free_links :: "pnode lstore"
  pagesem :: int
  kmem :: mem

abbreviation upd_page :: "nat \<Rightarrow> (page \<Rightarrow> page) \<Rightarrow> 'a buddy_scheme \<Rightarrow> 'a buddy_scheme" where
  "upd_page i f s \<equiv> s\<lparr>pfa := (pfa s)(i := f (pfa s i))\<rparr>"

definition get_page :: "'a buddy_scheme \<Rightarrow> nat \<Rightarrow> 'a buddy_scheme" where
  "get_page s i = upd_page i (\<lambda>p. p\<lparr>pg_count := pg_count p + 1\<rparr>) s"

definition put_page :: "'a buddy_scheme \<Rightarrow> nat \<Rightarrow> 'a buddy_scheme option" where
  "put_page s i = do {
     BUG_ON (pg_count (pfa s i) = 0);
     Some (upd_page i (\<lambda>p. p\<lparr>pg_count := pg_count p - 1\<rparr>) s)
   }"

subsection \<open>kernel/buddy.c\<close>

primrec buddy_init_loop :: "nat \<Rightarrow> pnode lstore \<Rightarrow> pnode lstore" where
  "buddy_init_loop 0 st = st"
| "buddy_init_loop (Suc n) st = INIT_LIST_HEAD (buddy_init_loop n st) (FreeList n)"

definition buddy_init :: "'a buddy_scheme \<Rightarrow> 'a buddy_scheme" where
  "buddy_init s = s\<lparr>free_links := buddy_init_loop MAX_ORDER (free_links s)\<rparr>"

definition P_POISON :: "'a buddy_scheme \<Rightarrow> addr \<Rightarrow> u32 \<Rightarrow> 'a buddy_scheme" where
  "P_POISON s ptr len = s\<lparr>kmem := memset (kmem s) ptr PAGE_POISON_PATTERN len\<rparr>"

definition free_pages :: "'a buddy_scheme \<Rightarrow> addr \<Rightarrow> u32 \<Rightarrow> 'a buddy_scheme option" where
  "free_pages s ptr order =
     (if ptr = NULL then Some s
      else do {
        BUG_ON (order \<noteq> 1);
        let s = P_POISON s ptr (push_bit PAGE_SHIFT order);
        let page = virt_to_page ptr;
        let s = upd_page page (\<lambda>p. p\<lparr>pg_type := PG_free\<rparr>) s;
        s \<leftarrow> put_page s page;
        BUG_ON (pg_count (pfa s page) \<noteq> 0);
        sem \<leftarrow> sem_down (pagesem s);
        let s = s\<lparr>pagesem := sem\<rparr>;
        let s = s\<lparr>free_links :=
              list_add_tail (free_links s) (PageList page) (FreeList (unat order))\<rparr>;
        let s = s\<lparr>pagesem := sem_up (pagesem s)\<rparr>;
        Some (s\<lparr>nr_freepages := nr_freepages s + 1\<rparr>)
      })"

text \<open>
  \<open>list_entry(..., struct page, u.list)\<close> of a node that is not the list member of a page
  (the head of an empty list) would be a wild pointer; the emptiness test excludes it.
\<close>

fun page_of :: "pnode \<Rightarrow> nat option" where
  "page_of (PageList i) = Some i"
| "page_of (FreeList _) = None"

definition alloc_pages :: "'a buddy_scheme \<Rightarrow> u32 \<Rightarrow> ('a buddy_scheme \<times> addr) option" where
  "alloc_pages s order = do {
     BUG_ON (order \<noteq> 1);
     sem \<leftarrow> sem_down (pagesem s);
     let s = s\<lparr>pagesem := sem\<rparr>;
     if list_empty (free_links s) (FreeList (unat order))
     then Some (s\<lparr>pagesem := sem_up (pagesem s)\<rparr>, NULL)
     else do {
       page \<leftarrow> page_of (lh_next (free_links s (FreeList (unat order))));
       BUG_ON (pg_count (pfa s page) \<noteq> 0);
       let s = s\<lparr>free_links := list_del (free_links s) (PageList page)\<rparr>;
       let s = s\<lparr>pagesem := sem_up (pagesem s)\<rparr>;
       let s = s\<lparr>nr_freepages := nr_freepages s - 1\<rparr>;
       let s = get_page s page;
       Some (s, page_address page)
     }
   }"

definition alloc_page :: "'a buddy_scheme \<Rightarrow> ('a buddy_scheme \<times> addr) option" where
  "alloc_page s = alloc_pages s 1"

definition free_page :: "'a buddy_scheme \<Rightarrow> addr \<Rightarrow> 'a buddy_scheme option" where
  "free_page s x = free_pages s x 1"

subsection \<open>Addresses of page frames\<close>

lemma page_shift_word: "i < 2 ^ 20 \<Longrightarrow> unat (push_bit 12 (of_nat i) :: u32) = i * 4096"
proof -
  assume i: "i < 2 ^ 20"
  have "(push_bit 12 (of_nat i) :: u32) = of_nat (i * 4096)"
    by (simp add: push_bit_eq_mult)
  with i show ?thesis by (simp only: unsigned_of_nat) (simp add: take_bit_nat_eq_self)
qed

lemma virt_to_page_address [simp]: "i < 2 ^ 20 \<Longrightarrow> virt_to_page (page_address i) = i"
  using page_shift_word[of i]
  by (simp add: virt_to_page_def page_address_def pa_def va_def PAGE_SHIFT_def
      unsigned_drop_bit_eq) (simp add: drop_bit_eq_div take_bit_nat_eq_self)

lemma unat_page_address: "i < 2 ^ 18 \<Longrightarrow> unat (page_address i) = 0xc0000000 + i * 4096"
  using page_shift_word[of i]
  by (simp add: page_address_def va_def page_consts unat_word_ariths)

lemma page_address_nonnull [simp]: "i < 2 ^ 18 \<Longrightarrow> page_address i \<noteq> NULL"
proof
  assume i: "i < 2 ^ 18" and "page_address i = NULL"
  then have "push_bit 12 (of_nat i) = (0x40000000 :: u32)"
    by (simp add: page_address_def va_def PAGE_SHIFT_def PAGE_OFFSET_def eq_neg_iff_add_eq_0[symmetric])
  then have "unat (push_bit 12 (of_nat i) :: u32) = unat (0x40000000 :: u32)" by simp
  with i show False by (simp add: page_shift_word)
qed

lemma va_round_down_le: "va_round_down a \<le> a"
  by (simp add: va_round_down_def word_and_le2)

lemma page_address_aligned: "page_address i AND PAGE_MASK = 0"
proof -
  have m: "PAGE_MASK = mask 12" by (simp add: page_consts mask_eq_exp_minus_1)
  have "page_address i = push_bit 12 (of_nat i + 0xc0000)"
    by (simp add: page_address_def va_def page_consts push_bit_add)
  then have "take_bit 12 (page_address i) = 0" by (simp add: take_bit_push_bit)
  then show ?thesis unfolding m by (simp add: take_bit_eq_mask)
qed

subsection \<open>The allocator is a queue of page frames\<close>

text \<open>
  \<open>buddy_rep s F\<close>: the page frames \<open>F\<close> are free, in the order in which \<open>alloc_pages\<close> will
  hand them out; a page frame of the machine has a reference count of 0 exactly when it is in
  \<open>F\<close>; the page semaphore is available and the counter of free pages agrees.
\<close>

definition free_lists :: "nat list \<Rightarrow> pnode \<Rightarrow> pnode list" where
  "free_lists F h = (if h = FreeList 1 then map PageList F else [])"

definition buddy_rep :: "'a buddy_scheme \<Rightarrow> nat list \<Rightarrow> bool" where
  "buddy_rep s F \<longleftrightarrow>
     lists_rep (free_links s) (FreeList ` {..<MAX_ORDER}) (free_lists F) \<and>
     pagesem s = 1 \<and> unat (nr_freepages s) = length F \<and>
     unat (nr_physpages s) \<le> 2 ^ 18 \<and> set F \<subseteq> {..<unat (nr_physpages s)} \<and>
     (\<forall>i<unat (nr_physpages s). pg_count (pfa s i) = 0 \<longleftrightarrow> i \<in> set F)"

lemma buddy_repD:
  assumes "buddy_rep s F"
  shows "lists_rep (free_links s) (FreeList ` {..<MAX_ORDER}) (free_lists F)"
    and "pagesem s = 1" and "unat (nr_freepages s) = length F"
    and "unat (nr_physpages s) \<le> 2 ^ 18"
    and "i \<in> set F \<Longrightarrow> i < unat (nr_physpages s)"
    and "i < unat (nr_physpages s) \<Longrightarrow> pg_count (pfa s i) = 0 \<longleftrightarrow> i \<in> set F"
  using assms by (auto simp: buddy_rep_def)

lemma head_in: "FreeList 1 \<in> FreeList ` {..<MAX_ORDER}"
  by (simp add: MAX_ORDER_def)

lemma free_lists_simps [simp]:
  "free_lists F (FreeList 1) = map PageList F" "free_lists F (FreeList (Suc 0)) = map PageList F"
  by (simp_all add: free_lists_def)

lemma buddy_rep_distinct: "buddy_rep s F \<Longrightarrow> distinct F"
  using lists_rep_distinct[OF buddy_repD(1) head_in, of s F] by (simp add: distinct_map)

lemma buddy_init_rep:
  "lists_rep (free_links (buddy_init s)) (FreeList ` {..<MAX_ORDER}) (free_lists [])"
proof -
  have "lists_rep (buddy_init_loop n st) (FreeList ` {..<n}) (\<lambda>_. [])" for n st
  proof (induction n)
    case 0
    then show ?case by (simp add: lists_rep_def)
  next
    case (Suc n)
    then show ?case using lh.rep_init[OF Suc, of "FreeList n"]
      by (simp add: lessThan_Suc image_iff fun_upd_idem)
  qed
  then show ?thesis
    by (simp add: buddy_init_def) (rule lh.rep_cong, assumption, simp add: free_lists_def)
qed

text \<open>The page handed out is the one that has been free for longest.\<close>

definition alloc_post :: "'a buddy_scheme \<Rightarrow> nat \<Rightarrow> 'a buddy_scheme" where
  "alloc_post s i = get_page (s\<lparr>free_links := list_del (free_links s) (PageList i),
      nr_freepages := nr_freepages s - 1\<rparr>) i"

lemma alloc_pages_Nil: "buddy_rep s [] \<Longrightarrow> alloc_pages s 1 = Some (s, NULL)"
  using lh.empty_iff[OF buddy_repD(1) head_in, of s "[]"] buddy_repD(2)[of s "[]"]
  by (simp add: alloc_pages_def)

lemma alloc_pages_Cons:
  assumes rep: "buddy_rep s (i # F)"
  shows "alloc_pages s 1 = Some (alloc_post s i, page_address i)"
proof -
  note L = buddy_repD(1)[OF rep]
  have "lh_next (free_links s (FreeList 1)) = PageList i"
    using lh.first_eq[OF L head_in] by simp
  moreover have "\<not> list_empty (free_links s) (FreeList 1)"
    using lh.empty_iff[OF L head_in] by simp
  moreover have "pg_count (pfa s i) = 0" using buddy_repD(5,6)[OF rep, of i] by simp
  ultimately show ?thesis using buddy_repD(2)[OF rep]
    by (simp add: alloc_pages_def alloc_post_def get_page_def)
qed

lemma alloc_post_rep:
  assumes rep: "buddy_rep s (i # F)"
  shows "buddy_rep (alloc_post s i) F"
  unfolding buddy_rep_def
proof (intro conjI)
  show "lists_rep (free_links (alloc_post s i)) (FreeList ` {..<MAX_ORDER}) (free_lists F)"
  proof (rule lh.rep_cong)
    show "lists_rep (free_links (alloc_post s i)) (FreeList ` {..<MAX_ORDER})
        ((free_lists (i # F))(FreeList 1 := map PageList F))"
      using lh.take_first[OF buddy_repD(1)[OF rep] head_in]
      by (simp add: alloc_post_def get_page_def)
  qed (auto simp: free_lists_def)
  have "unat (nr_freepages s - 1) = unat (nr_freepages s) - 1"
    using buddy_repD(3)[OF rep] by (intro unat_minus_one) auto
  then show "unat (nr_freepages (alloc_post s i)) = length F"
    using buddy_repD(3)[OF rep] by (simp add: alloc_post_def get_page_def)
qed (use rep buddy_rep_distinct[OF rep] in
    \<open>auto simp: alloc_post_def get_page_def buddy_rep_def\<close>)

text \<open>Freeing the last reference to a page queues it behind all the others, poisoned.\<close>

definition free_post :: "'a buddy_scheme \<Rightarrow> nat \<Rightarrow> 'a buddy_scheme" where
  "free_post s i = s\<lparr>
     kmem := memset (kmem s) (page_address i) PAGE_POISON_PATTERN PAGE_SIZE,
     pfa := (pfa s)(i := (pfa s i)\<lparr>pg_type := PG_free, pg_count := 0\<rparr>),
     free_links := list_add_tail (free_links s) (PageList i) (FreeList 1),
     nr_freepages := nr_freepages s + 1\<rparr>"

lemma free_pages_last:
  assumes "i < 2 ^ 18" "pg_count (pfa s i) = 1" "pagesem s = 1"
  shows "free_pages s (page_address i) 1 = Some (free_post s i)"
  using assms by (simp add: free_pages_def P_POISON_def put_page_def free_post_def PAGE_SIZE_def)

lemma free_pages_bad:
  assumes "i < 2 ^ 18" "pg_count (pfa s i) \<noteq> 1"
  shows "free_pages s (page_address i) 1 = None"
  using assms by (simp add: free_pages_def P_POISON_def put_page_def Let_def)

lemma buddy_rep_length: "buddy_rep s F \<Longrightarrow> length F \<le> unat (nr_physpages s)"
  using card_mono[of "{..<unat (nr_physpages s)}" "set F"]
  by (auto simp: distinct_card buddy_rep_distinct) (auto simp: buddy_rep_def)

lemma free_post_rep:
  assumes rep: "buddy_rep s F" and i: "i < unat (nr_physpages s)" "i \<notin> set F"
  shows "buddy_rep (free_post s i) (F @ [i])"
  unfolding buddy_rep_def
proof (intro conjI)
  show "lists_rep (free_links (free_post s i)) (FreeList ` {..<MAX_ORDER}) (free_lists (F @ [i]))"
  proof (rule lh.rep_cong)
    show "lists_rep (free_links (free_post s i)) (FreeList ` {..<MAX_ORDER})
        ((free_lists F)(FreeList 1 := free_lists F (FreeList 1) @ [PageList i]))"
      using lh.rep_add_tail[OF buddy_repD(1)[OF rep] head_in, of "PageList i"] i(2)
      by (auto simp: free_post_def free_lists_def split: if_splits)
  qed (auto simp: free_lists_def)
  have "unat (nr_freepages s) < 2 ^ 32 - 1"
    using buddy_repD(3,4)[OF rep] buddy_rep_length[OF rep] by simp
  then have "unat (nr_freepages s + 1) = Suc (unat (nr_freepages s))"
    by (simp add: unat_word_ariths)
  then show "unat (nr_freepages (free_post s i)) = length (F @ [i])"
    using buddy_repD(3)[OF rep] by (simp add: free_post_def)
qed (use rep i in \<open>auto simp: free_post_def buddy_rep_def\<close>)

subsection \<open>The contract of the page allocator\<close>

text \<open>
  A client sees a queue \<open>F\<close> of free frames and the set \<open>A\<close> of frames with exactly one
  reference. \<open>run_pages\<close> runs a sequence of allocations and frees on an implementation and
  collects what the allocations return; \<open>spec_pages\<close> runs it on the queue.
\<close>

datatype page_op = PAlloc | PFree nat

fun run_pages :: "('s \<Rightarrow> ('s \<times> addr) option) \<Rightarrow> ('s \<Rightarrow> addr \<Rightarrow> 's option) \<Rightarrow>
    page_op list \<Rightarrow> 's \<Rightarrow> ('s \<times> addr list) option" where
  "run_pages alloc free [] s = Some (s, [])"
| "run_pages alloc free (PAlloc # ops) s = do {
     (s, a) \<leftarrow> alloc s;
     (s, as) \<leftarrow> run_pages alloc free ops s;
     Some (s, a # as)
   }"
| "run_pages alloc free (PFree i # ops) s = do {
     s \<leftarrow> free s (page_address i);
     run_pages alloc free ops s
   }"

fun spec_pages :: "page_op list \<Rightarrow> nat list \<times> nat set \<Rightarrow>
    ((nat list \<times> nat set) \<times> addr list) option" where
  "spec_pages [] q = Some (q, [])"
| "spec_pages (PAlloc # ops) ([], A) = do {
     (q, as) \<leftarrow> spec_pages ops ([], A);
     Some (q, NULL # as)
   }"
| "spec_pages (PAlloc # ops) (i # F, A) = do {
     (q, as) \<leftarrow> spec_pages ops (F, insert i A);
     Some (q, page_address i # as)
   }"
| "spec_pages (PFree i # ops) (F, A) =
     (if i \<in> A then spec_pages ops (F @ [i], A - {i}) else None)"

locale page_allocator =
  fixes rep :: "'s \<Rightarrow> nat list \<Rightarrow> nat set \<Rightarrow> bool"
    and npages :: "'s \<Rightarrow> nat"
    and alloc :: "'s \<Rightarrow> ('s \<times> addr) option"
    and free :: "'s \<Rightarrow> addr \<Rightarrow> 's option"
  assumes alloc_empty: "rep s [] A \<Longrightarrow> alloc s = Some (s, NULL)"
    and alloc_next: "rep s (i # F) A \<Longrightarrow>
        \<exists>s'. alloc s = Some (s', page_address i) \<and> rep s' F (insert i A) \<and> npages s' = npages s"
    and free_owned: "rep s F A \<Longrightarrow> i \<in> A \<Longrightarrow>
        \<exists>s'. free s (page_address i) = Some s' \<and> rep s' (F @ [i]) (A - {i}) \<and> npages s' = npages s"
    and free_unowned: "rep s F A \<Longrightarrow> i < npages s \<Longrightarrow> i \<notin> A \<Longrightarrow> free s (page_address i) = None"
    and partition: "rep s F A \<Longrightarrow> distinct F \<and> set F \<inter> A = {} \<and> (\<forall>i\<in>set F \<union> A. i < npages s)"
begin

lemma run_refines:
  assumes "rep s F A" "\<forall>op\<in>set ops. \<forall>i. op = PFree i \<longrightarrow> i < npages s"
  shows "case spec_pages ops (F, A) of
      None \<Rightarrow> run_pages alloc free ops s = None
    | Some ((F', A'), as) \<Rightarrow> \<exists>s'. run_pages alloc free ops s = Some (s', as) \<and> rep s' F' A'"
  using assms
proof (induction ops "(F, A)" arbitrary: s F A rule: spec_pages.induct)
  case 1
  then show ?case by simp
next
  case (2 ops A)
  from 2(1)[OF 2(2)] 2(3) alloc_empty[OF 2(2)] show ?case
    by (cases "spec_pages ops ([], A)") auto
next
  case (3 ops i F A)
  from alloc_next[OF 3(2)] obtain s' where s': "alloc s = Some (s', page_address i)"
    "rep s' F (insert i A)" "npages s' = npages s" by blast
  with 3(1)[of s'] 3(3) show ?case by (cases "spec_pages ops (F, insert i A)") auto
next
  case (4 i ops F A)
  show ?case
  proof (cases "i \<in> A")
    case True
    from free_owned[OF 4(2) this] obtain s' where s': "free s (page_address i) = Some s'"
      "rep s' (F @ [i]) (A - {i})" "npages s' = npages s" by blast
    with 4(1)[of s'] 4(3) True show ?thesis
      by (cases "spec_pages ops (F @ [i], A - {i})") auto
  next
    case False
    with free_unowned[OF 4(2), of i] 4(3) show ?thesis by auto
  qed
qed

text \<open>A page in use is not handed out again.\<close>

lemma alloc_fresh:
  assumes "rep s F A" "alloc s = Some (s', a)" "a \<noteq> NULL"
  shows "\<exists>i. a = page_address i \<and> i \<notin> A \<and> i < npages s"
proof (cases F)
  case Nil
  with assms alloc_empty[of s A] show ?thesis by simp
next
  case (Cons i F')
  with assms alloc_next[of s i F' A] partition[OF assms(1)] show ?thesis by auto
qed

end

definition owned :: "'a buddy_scheme \<Rightarrow> nat set" where
  "owned s = {i. i < unat (nr_physpages s) \<and> pg_count (pfa s i) = 1}"

definition buddy_abs :: "'a buddy_scheme \<Rightarrow> nat list \<Rightarrow> nat set \<Rightarrow> bool" where
  "buddy_abs s F A \<longleftrightarrow> buddy_rep s F \<and> A = owned s"

interpretation bud: page_allocator buddy_abs "\<lambda>s. unat (nr_physpages s)" "alloc_page" "free_page"
proof
  fix s :: "'a buddy_scheme" and F A i
  show "alloc_page s = Some (s, NULL)" if "buddy_abs s [] A"
    using that by (simp add: buddy_abs_def alloc_page_def alloc_pages_Nil)
  show "\<exists>s'. alloc_page s = Some (s', page_address i) \<and> buddy_abs s' F (insert i A) \<and>
      unat (nr_physpages s') = unat (nr_physpages s)" if "buddy_abs s (i # F) A"
  proof -
    have rep: "buddy_rep s (i # F)" and A: "A = owned s" using that by (simp_all add: buddy_abs_def)
    have "insert i A = owned (alloc_post s i)"
      using buddy_repD(5,6)[OF rep, of i] unfolding A
      by (auto simp: owned_def alloc_post_def get_page_def)
    with rep show ?thesis
      by (intro exI[of _ "alloc_post s i"])
        (simp add: alloc_page_def alloc_pages_Cons buddy_abs_def alloc_post_rep,
          simp add: alloc_post_def get_page_def)
  qed
  show "\<exists>s'. free_page s (page_address i) = Some s' \<and> buddy_abs s' (F @ [i]) (A - {i}) \<and>
      unat (nr_physpages s') = unat (nr_physpages s)" if "buddy_abs s F A" "i \<in> A"
  proof -
    have rep: "buddy_rep s F" and i: "i < unat (nr_physpages s)" "pg_count (pfa s i) = 1"
      and A: "A = owned s"
      using that by (simp_all add: buddy_abs_def owned_def)
    then have "i \<notin> set F" "i < 2 ^ 18" using buddy_repD(4)[OF rep] buddy_repD(6)[OF rep, of i] by auto
    moreover have "A - {i} = owned (free_post s i)"
      unfolding A by (auto simp: owned_def free_post_def)
    ultimately show ?thesis using rep i buddy_repD(2)[OF rep]
      by (intro exI[of _ "free_post s i"])
        (simp add: free_page_def free_pages_last buddy_abs_def free_post_rep, simp add: free_post_def)
  qed
  show "free_page s (page_address i) = None"
    if "buddy_abs s F A" "i < unat (nr_physpages s)" "i \<notin> A"
  proof -
    have i: "i < 2 ^ 18" "pg_count (pfa s i) \<noteq> 1"
      using that buddy_repD(4)[of s F] by (auto simp: buddy_abs_def owned_def)
    then show ?thesis by (simp add: free_page_def free_pages_bad)
  qed
  show "distinct F \<and> set F \<inter> A = {} \<and> (\<forall>i\<in>set F \<union> A. i < unat (nr_physpages s))"
    if "buddy_abs s F A"
    using that buddy_rep_distinct[of s F] by (auto simp: buddy_abs_def owned_def buddy_rep_def)
qed

subsection \<open>A machine at boot\<close>

text \<open>
  The page allocator as \<open>ia32_mm_init\<close> finds it: the free lists are empty and every one of the
  \<open>n\<close> frames still has the reference that the boot code holds.
\<close>

definition boot_pages :: "nat \<Rightarrow> buddy" where
  "boot_pages n = buddy_init
     \<lparr>pfa = \<lambda>_. \<lparr>pg_count = 1, pg_type = PG_reserved, pg_flags = 0\<rparr>, nr_physpages = of_nat n,
      nr_freepages = 0, free_links = \<lambda>n. \<lparr>lh_next = n, lh_prev = n\<rparr>, pagesem = 1, kmem = \<lambda>_. 0\<rparr>"

lemma boot_pages_abs: "n \<le> 2 ^ 18 \<Longrightarrow> buddy_abs (boot_pages n) [] {..<n}"
  using buddy_init_rep
  by (auto simp: buddy_abs_def buddy_rep_def boot_pages_def owned_def unsigned_of_nat
      take_bit_nat_eq_self) (auto simp: buddy_init_def unsigned_of_nat take_bit_nat_eq_self)

lemma boot_pages_sel [simp]:
  "nr_physpages (boot_pages n) = of_nat n" "kmem (boot_pages n) a = 0" "pagesem (boot_pages n) = 1"
  "pg_count (pfa (boot_pages n) i) = 1" "nr_freepages (boot_pages n) = 0"
  by (simp_all add: boot_pages_def buddy_init_def)

subsection \<open>Properties\<close>

text \<open>C4. The page allocator is a first-in first-out queue of page frames. Any sequence of
  \<open>alloc_page\<close> and \<open>free_page\<close> calls behaves as it does on the abstract queue: an allocation
  returns the frame that has been free for longest, or NULL when none is free; freeing a frame
  with one reference queues it behind the others; freeing a frame that is already free, or that
  has further references, stops the machine; and the reference counts, the free-page counter,
  the free list's links and the page semaphore stay consistent throughout.\<close>

theorem buddy_refines_queue:
  assumes "buddy_abs s F A"
    and "\<forall>op\<in>set ops. \<forall>i. op = PFree i \<longrightarrow> i < unat (nr_physpages s)"
  shows "case spec_pages ops (F, A) of
      None \<Rightarrow> run_pages alloc_page free_page ops s = None
    | Some ((F', A'), as) \<Rightarrow>
        \<exists>s'. run_pages alloc_page free_page ops s = Some (s', as) \<and> buddy_abs s' F' A'"
  using assms by (rule bud.run_refines)

theorem buddy_refines_queue_witness:
  "\<exists>s'. run_pages alloc_page free_page
      [PFree 2, PFree 0, PAlloc, PFree 1, PFree 2, PAlloc, PAlloc, PAlloc, PAlloc] (boot_pages 3)
      = Some (s', map page_address [2, 0, 1, 2] @ [NULL]) \<and> buddy_abs s' [] {0, 1, 2}"
proof -
  let ?ops = "[PFree 2, PFree 0, PAlloc, PFree 1, PFree 2, PAlloc, PAlloc, PAlloc, PAlloc]"
  have "\<forall>op\<in>set ?ops. \<forall>i. op = PFree i \<longrightarrow> i < unat (nr_physpages (boot_pages 3))"
    by simp
  moreover have "insert 0 (insert (Suc 0) (insert 2 (insert 2 ({0, Suc 0, 2} - {2} - {0}) - {Suc 0})))
    = {0, Suc 0, 2}" by auto
  ultimately show ?thesis
    using buddy_refines_queue[OF boot_pages_abs[of 3], of ?ops]
    by (simp add: insert_commute lessThan_nat_numeral lessThan_Suc)
qed

text \<open>C35. Freeing the last reference to a page returns, overwrites exactly that page with the
  poison byte \<open>0x5a\<close> and leaves every other byte of memory alone.\<close>

theorem free_page_poisons:
  assumes "buddy_rep s F" "i < unat (nr_physpages s)" "pg_count (pfa s i) = 1"
  shows "\<exists>s'. free_page s (page_address i) = Some s' \<and>
    (\<forall>a. kmem s' a = (if unat (a - page_address i) < 4096 then 0x5a else kmem s a))"
proof -
  have "i < 2 ^ 18" using buddy_repD(4)[OF assms(1)] assms(2) by simp
  then show ?thesis using assms buddy_repD(2)[OF assms(1)]
    by (simp add: free_page_def free_pages_last free_post_def memset_apply PAGE_POISON_PATTERN_def
        page_consts)
qed

theorem free_page_poisons_witness:
  "\<exists>s'. free_page (boot_pages 1) (page_address 0) = Some s' \<and>
    (\<forall>a. kmem s' a = (if unat (a - page_address 0) < 4096 then 0x5a else 0))"
proof -
  have "buddy_rep (boot_pages 1) []" using boot_pages_abs[of 1] by (simp add: buddy_abs_def)
  from free_page_poisons[OF this, of 0] show ?thesis by (simp cong: if_cong)
qed

end
