(* ===== verification/Descriptor.thy ===== *)
theory Descriptor
  imports Prelude
begin

text \<open>
  Segment, task and gate descriptors of the ia32 architecture
  (\<^verbatim>\<open>include/arch-ia32/descriptor.h\<close>, \<^verbatim>\<open>include/arch-ia32/gdt.h\<close>) and the installation
  of interrupt gates (\<^verbatim>\<open>idt_exception\<close>, \<^verbatim>\<open>idt_interrupt\<close>,
  \<^verbatim>\<open>idt_user_interrupt\<close> and \<^verbatim>\<open>idt_init\<close> of \<^verbatim>\<open>arch-ia32/idt.c\<close>). The bit-fields keep
  their widths. The processor's view of a descriptor (its base, limit, offset and privilege
  level) is read back from the fields, and the lemmas show that it is what the caller asked for.
\<close>

subsection \<open>Descriptor bits and selectors\<close>

definition D_TSS :: u32 where "D_TSS = 0x0900"
definition D_INT :: u32 where "D_INT = 0x0E00"
definition D_TRAP :: u32 where "D_TRAP = 0x0F00"
definition D_DATA :: u32 where "D_DATA = 0x1000"
definition D_CODE :: u32 where "D_CODE = 0x1800"
definition D_DPL3 :: u32 where "D_DPL3 = 0x6000"
definition D_PRESENT :: u32 where "D_PRESENT = 0x8000"
definition D_WRITE :: u32 where "D_WRITE = 0x0200"
definition D_READ :: u32 where "D_READ = 0x0200"
definition D_BIG :: u32 where "D_BIG = 0x0040"
definition D_BIG_LIM :: u32 where "D_BIG_LIM = 0x0080"

definition TSS0 :: u16 where "TSS0 = 5"
definition TSS1 :: u16 where "TSS1 = 6"
definition KERNEL_CS_sel :: u16 where "KERNEL_CS_sel = push_bit 3 1"
definition KERNEL_DS_sel :: u16 where "KERNEL_DS_sel = push_bit 3 2"
definition USER_CS_sel :: u16 where "USER_CS_sel = push_bit 3 3"
definition USER_DS_sel :: u16 where "USER_DS_sel = push_bit 3 4"
definition CPL3 :: u16 where "CPL3 = 3"

lemmas desc_consts = D_TSS_def D_INT_def D_TRAP_def D_DATA_def D_CODE_def D_DPL3_def D_PRESENT_def
  D_WRITE_def D_READ_def D_BIG_def D_BIG_LIM_def

lemmas selector_consts = KERNEL_CS_sel_def KERNEL_DS_sel_def USER_CS_sel_def USER_DS_sel_def
  CPL3_def TSS0_def TSS1_def

subsection \<open>Segment and task descriptors\<close>

record ia32_desc =
  limit_low :: u16
  base_low :: u16
  base_med :: u8
  d_access :: u8
  limit_high :: "4 word"
  granularity :: "4 word"
  base_high :: u8

definition stnd_desc :: "u32 \<Rightarrow> u32 \<Rightarrow> u32 \<Rightarrow> ia32_desc" where
  "stnd_desc base limit control = \<lparr>
     limit_low = ucast (limit AND 0xffff),
     base_low = ucast (base AND 0xffff),
     base_med = ucast (drop_bit 16 base AND 0xff),
     d_access = ucast (drop_bit 8 (control OR D_PRESENT)),
     limit_high = ucast (drop_bit 16 limit),
     granularity = ucast (drop_bit 4 (control AND 0xff)),
     base_high = ucast (drop_bit 24 base)\<rparr>"

definition desc_base :: "ia32_desc \<Rightarrow> u32" where
  "desc_base d = ucast (base_low d) OR push_bit 16 (ucast (base_med d)) OR push_bit 24 (ucast (base_high d))"

definition desc_limit :: "ia32_desc \<Rightarrow> u32" where
  "desc_limit d = ucast (limit_low d) OR push_bit 16 (ucast (limit_high d))"

definition desc_type :: "ia32_desc \<Rightarrow> u8" where
  "desc_type d = d_access d AND 0x1f"

definition desc_dpl :: "ia32_desc \<Rightarrow> u8" where
  "desc_dpl d = drop_bit 5 (d_access d) AND 3"

subsection \<open>Interrupt gates\<close>

record ia32_gate =
  offset_low :: u16
  selector :: u16
  g_access :: u16
  offset_high :: u16

definition gate_offset :: "ia32_gate \<Rightarrow> addr" where
  "gate_offset g = ucast (offset_low g) OR push_bit 16 (ucast (offset_high g))"

definition gate_dpl :: "ia32_gate \<Rightarrow> u16" where
  "gate_dpl g = drop_bit 13 (g_access g) AND 3"

definition gate_type :: "ia32_gate \<Rightarrow> u16" where
  "gate_type g = drop_bit 8 (g_access g) AND 0x1f"

text \<open>Bit 15 of a gate is its present bit; a 32-bit interrupt gate (type 14) clears the
  interrupt flag on entry, a trap gate (type 15) does not.\<close>

definition gate_present :: "ia32_gate \<Rightarrow> bool" where
  "gate_present g \<longleftrightarrow> bit (g_access g) 15"

type_synonym idt = "u8 \<Rightarrow> ia32_gate"

definition idt_exception :: "addr \<Rightarrow> u8 \<Rightarrow> idt \<Rightarrow> idt" where
  "idt_exception handler intr IDT = IDT(intr := (IDT intr)\<lparr>
     selector := KERNEL_CS_sel,
     offset_low := ucast (handler AND 0xffff),
     offset_high := ucast (drop_bit 16 handler),
     g_access := ucast (D_PRESENT OR D_TRAP)\<rparr>)"

definition idt_interrupt :: "addr \<Rightarrow> u8 \<Rightarrow> idt \<Rightarrow> idt" where
  "idt_interrupt handler intr IDT = IDT(intr := (IDT intr)\<lparr>
     selector := KERNEL_CS_sel,
     offset_low := ucast (handler AND 0xffff),
     offset_high := ucast (drop_bit 16 handler),
     g_access := ucast (D_PRESENT OR D_INT)\<rparr>)"

definition idt_user_interrupt :: "addr \<Rightarrow> u8 \<Rightarrow> idt \<Rightarrow> idt" where
  "idt_user_interrupt handler intr IDT = IDT(intr := (IDT intr)\<lparr>
     selector := KERNEL_CS_sel,
     offset_low := ucast (handler AND 0xffff),
     offset_high := ucast (drop_bit 16 handler),
     g_access := ucast (D_PRESENT OR D_TRAP OR D_DPL3)\<rparr>)"

text \<open>The entry points of \<^verbatim>\<open>arch-ia32/intr.S\<close>; \<open>ent\<close> gives the address the linker
  chose for each.\<close>

datatype entry = int_null | exc_entry nat | irq_entry nat | panic_entry | syscall_entry

primrec idt_init_loop :: "(entry \<Rightarrow> addr) \<Rightarrow> nat \<Rightarrow> idt \<Rightarrow> idt" where
  "idt_init_loop ent 0 IDT = IDT"
| "idt_init_loop ent (Suc count) IDT =
     idt_exception (ent int_null) (of_nat count) (idt_init_loop ent count IDT)"

definition idt_init :: "(entry \<Rightarrow> addr) \<Rightarrow> idt \<Rightarrow> idt" where
  "idt_init ent IDT =
    (let IDT = idt_init_loop ent 256 IDT;
         IDT = idt_exception (ent (exc_entry 0)) 0 IDT;
         IDT = idt_exception (ent (exc_entry 1)) 1 IDT;
         IDT = idt_exception (ent (exc_entry 2)) 2 IDT;
         IDT = idt_exception (ent (exc_entry 3)) 3 IDT;
         IDT = idt_exception (ent (exc_entry 4)) 4 IDT;
         IDT = idt_exception (ent (exc_entry 5)) 5 IDT;
         IDT = idt_exception (ent (exc_entry 6)) 6 IDT;
         IDT = idt_exception (ent (exc_entry 7)) 7 IDT;
         IDT = idt_exception (ent (exc_entry 8)) 8 IDT;
         IDT = idt_exception (ent (exc_entry 9)) 9 IDT;
         IDT = idt_exception (ent (exc_entry 10)) 10 IDT;
         IDT = idt_exception (ent (exc_entry 11)) 11 IDT;
         IDT = idt_exception (ent (exc_entry 12)) 12 IDT;
         IDT = idt_exception (ent (exc_entry 13)) 13 IDT;
         IDT = idt_exception (ent (exc_entry 14)) 14 IDT;
         IDT = idt_exception (ent (exc_entry 16)) 16 IDT;
         IDT = idt_exception (ent (exc_entry 17)) 17 IDT;
         IDT = idt_exception (ent (exc_entry 18)) 18 IDT;
         IDT = idt_exception (ent (exc_entry 19)) 19 IDT;
         IDT = idt_interrupt (ent (irq_entry 0)) 0x20 IDT;
         IDT = idt_interrupt (ent (irq_entry 1)) 0x21 IDT;
         IDT = idt_interrupt (ent (irq_entry 2)) 0x22 IDT;
         IDT = idt_interrupt (ent (irq_entry 3)) 0x23 IDT;
         IDT = idt_interrupt (ent (irq_entry 4)) 0x24 IDT;
         IDT = idt_interrupt (ent (irq_entry 5)) 0x25 IDT;
         IDT = idt_interrupt (ent (irq_entry 6)) 0x26 IDT;
         IDT = idt_interrupt (ent (irq_entry 7)) 0x27 IDT;
         IDT = idt_interrupt (ent (irq_entry 8)) 0x28 IDT;
         IDT = idt_interrupt (ent (irq_entry 9)) 0x29 IDT;
         IDT = idt_interrupt (ent (irq_entry 10)) 0x30 IDT;
         IDT = idt_interrupt (ent (irq_entry 11)) 0x3a IDT;
         IDT = idt_interrupt (ent (irq_entry 12)) 0x3b IDT;
         IDT = idt_interrupt (ent (irq_entry 13)) 0x3c IDT;
         IDT = idt_interrupt (ent (irq_entry 14)) 0x3d IDT;
         IDT = idt_interrupt (ent (irq_entry 15)) 0x3e IDT;
         IDT = idt_interrupt (ent panic_entry) 0xf0 IDT;
         IDT = idt_user_interrupt (ent syscall_entry) 0xff IDT
     in IDT)"

subsection \<open>Reading descriptors back\<close>

lemma split_word32:
  fixes b :: u32
  shows "ucast (ucast (b AND 0xffff) :: u16) OR push_bit 16 (ucast (ucast (drop_bit 16 b AND 0xff) :: u8))
     OR push_bit 24 (ucast (ucast (drop_bit 24 b) :: u8)) = b" (is "?l = b")
proof (rule bit_word_eqI)
  have m: "(0xffff :: u32) = mask 16" "(0xff :: u32) = mask 8" by (simp_all add: mask_eq_exp_minus_1)
  fix n assume "n < LENGTH(32)"
  then consider "n < 16" | "16 \<le> n" "n < 24" | "24 \<le> n" "n < 32" by fastforce
  then show "bit ?l n = bit b n" by cases (auto simp: bit_simps m)
qed

lemma split_word32_16:
  fixes b :: u32
  shows "ucast (ucast (b AND 0xffff) :: u16) OR push_bit 16 (ucast (ucast (drop_bit 16 b) :: u16)) = b"
    (is "?l = b")
proof (rule bit_word_eqI)
  have m: "(0xffff :: u32) = mask 16" by (simp add: mask_eq_exp_minus_1)
  fix n assume "n < LENGTH(32)"
  then consider "n < 16" | "16 \<le> n" "n < 32" by fastforce
  then show "bit ?l n = bit b n" by cases (auto simp: bit_simps m)
qed

lemma desc_base_stnd [simp]: "desc_base (stnd_desc b l c) = b"
  using split_word32[of b] by (simp add: desc_base_def stnd_desc_def)

lemma desc_limit_stnd: "desc_limit (stnd_desc b l c) = l AND mask 20" (is "?l = ?r")
proof (rule bit_word_eqI)
  have m: "(0xffff :: u32) = mask 16" by (simp add: mask_eq_exp_minus_1)
  fix n assume "n < LENGTH(32)"
  then consider "n < 16" | "16 \<le> n" "n < 20" | "20 \<le> n" "n < 32" by fastforce
  then show "bit ?l n = bit ?r n"
    by cases (auto simp: desc_limit_def stnd_desc_def bit_simps m)
qed

lemma desc_limit_small [simp]: "l < 2 ^ 20 \<Longrightarrow> desc_limit (stnd_desc b l c) = l"
proof -
  assume "l < 2 ^ 20"
  then have "take_bit 20 l = l" by (intro take_bit_small) (simp add: word_less_nat_alt)
  then show ?thesis by (simp add: desc_limit_stnd take_bit_eq_mask)
qed

subsection \<open>The interrupt descriptor table\<close>

definition mk_gate :: "addr \<Rightarrow> u32 \<Rightarrow> ia32_gate" where
  "mk_gate h acc = \<lparr>offset_low = ucast (h AND 0xffff), selector = KERNEL_CS_sel,
     g_access = ucast (D_PRESENT OR acc), offset_high = ucast (drop_bit 16 h)\<rparr>"

lemma gate_offset_mk [simp]: "gate_offset (mk_gate h acc) = h"
  using split_word32_16[of h] by (simp add: gate_offset_def mk_gate_def)

lemma mk_gate_props:
  "selector (mk_gate h acc) = KERNEL_CS_sel"
  "acc \<in> {D_INT, D_TRAP, D_TRAP OR D_DPL3} \<Longrightarrow> gate_present (mk_gate h acc)"
  "acc \<in> {D_INT, D_TRAP} \<Longrightarrow> gate_dpl (mk_gate h acc) = 0"
  "gate_dpl (mk_gate h (D_TRAP OR D_DPL3)) = 3"
  by (auto simp: mk_gate_def gate_present_def gate_dpl_def desc_consts bit_simps)

lemma idt_updates:
  "idt_exception h i T = T(i := mk_gate h D_TRAP)"
  "idt_interrupt h i T = T(i := mk_gate h D_INT)"
  "idt_user_interrupt h i T = T(i := mk_gate h (D_TRAP OR D_DPL3))"
  by (cases "T i"; simp add: idt_exception_def idt_interrupt_def idt_user_interrupt_def mk_gate_def
      or.assoc)+

lemma idt_init_loop_gate:
  "n \<le> 256 \<Longrightarrow> unat v < n \<Longrightarrow> idt_init_loop ent n T v = mk_gate (ent int_null) D_TRAP"
proof (induction n)
  case 0
  then show ?case by simp
next
  case (Suc n)
  show ?case
  proof (cases "v = of_nat n")
    case False
    then have "unat v \<noteq> n" by auto
    with Suc False show ?thesis by (simp add: idt_updates)
  qed (simp add: idt_updates)
qed

text \<open>The installed handlers, last installation first, and the same table by ranges.\<close>

definition installed :: "(u8 \<times> entry \<times> u32) list" where
  "installed =
    [(0xff, syscall_entry, D_TRAP OR D_DPL3), (0xf0, panic_entry, D_INT), (0x3e, irq_entry 15, D_INT),
     (0x3d, irq_entry 14, D_INT), (0x3c, irq_entry 13, D_INT), (0x3b, irq_entry 12, D_INT),
     (0x3a, irq_entry 11, D_INT), (0x30, irq_entry 10, D_INT), (0x29, irq_entry 9, D_INT),
     (0x28, irq_entry 8, D_INT), (0x27, irq_entry 7, D_INT), (0x26, irq_entry 6, D_INT),
     (0x25, irq_entry 5, D_INT), (0x24, irq_entry 4, D_INT), (0x23, irq_entry 3, D_INT),
     (0x22, irq_entry 2, D_INT), (0x21, irq_entry 1, D_INT), (0x20, irq_entry 0, D_INT),
     (19, exc_entry 19, D_TRAP), (18, exc_entry 18, D_TRAP), (17, exc_entry 17, D_TRAP),
     (16, exc_entry 16, D_TRAP), (14, exc_entry 14, D_TRAP), (13, exc_entry 13, D_TRAP),
     (12, exc_entry 12, D_TRAP), (11, exc_entry 11, D_TRAP), (10, exc_entry 10, D_TRAP),
     (9, exc_entry 9, D_TRAP), (8, exc_entry 8, D_TRAP), (7, exc_entry 7, D_TRAP),
     (6, exc_entry 6, D_TRAP), (5, exc_entry 5, D_TRAP), (4, exc_entry 4, D_TRAP),
     (3, exc_entry 3, D_TRAP), (2, exc_entry 2, D_TRAP), (1, exc_entry 1, D_TRAP),
     (0, exc_entry 0, D_TRAP)]"

definition vector_entry :: "nat \<Rightarrow> entry" where
  "vector_entry v =
     (if v < 20 \<and> v \<noteq> 15 then exc_entry v
      else if 0x20 \<le> v \<and> v \<le> 0x29 then irq_entry (v - 0x20)
      else if v = 0x30 then irq_entry 10
      else if 0x3a \<le> v \<and> v \<le> 0x3e then irq_entry (v - 0x2f)
      else if v = 0xf0 then panic_entry
      else if v = 0xff then syscall_entry
      else int_null)"

definition vector_access :: "nat \<Rightarrow> u32" where
  "vector_access v =
     (if v = 0xff then D_TRAP OR D_DPL3
      else if 0x20 \<le> v \<and> v \<le> 0x29 \<or> v = 0x30 \<or> 0x3a \<le> v \<and> v \<le> 0x3e \<or> v = 0xf0 then D_INT
      else D_TRAP)"

lemma foldr_install:
  "foldr (\<lambda>(k, e, acc) T. T(k := mk_gate (ent e) acc)) xs T v =
     (case map_of xs v of None \<Rightarrow> T v | Some (e, acc) \<Rightarrow> mk_gate (ent e) acc)"
  by (induction xs) auto

lemma idt_init_foldr:
  "idt_init ent T = foldr (\<lambda>(k, e, acc) T. T(k := mk_gate (ent e) acc)) installed
     (idt_init_loop ent 256 T)"
  unfolding idt_init_def installed_def Let_def idt_updates
  by (simp only: foldr.simps o_def id_def prod.case)

lemma idt_init_installed:
  "idt_init ent T v = (case map_of installed v of
      None \<Rightarrow> mk_gate (ent int_null) D_TRAP
    | Some (e, acc) \<Rightarrow> mk_gate (ent e) acc)"
proof -
  have "idt_init_loop ent 256 T v = mk_gate (ent int_null) D_TRAP"
    using unsigned_less[of v, where 'a = nat] by (intro idt_init_loop_gate) auto
  then show ?thesis by (simp only: idt_init_foldr foldr_install)
qed

lemma installed_keys:
  "list_all (\<lambda>(k, e, acc). map_of installed k = Some (e, acc) \<and>
      vector_entry (unat k) = e \<and> vector_access (unat k) = acc) installed"
  by (simp add: installed_def vector_entry_def vector_access_def)

lemma installed_others:
  assumes "n < 256" "of_nat n \<notin> fst ` set installed"
  shows "vector_entry n = int_null" "vector_access n = D_TRAP"
proof -
  have "n \<notin> {0, 1, 2, 3, 4, 5, 6, 7, 8, 9, 10, 11, 12, 13, 14, 16, 17, 18, 19}"
    "n \<notin> {0x20, 0x21, 0x22, 0x23, 0x24, 0x25, 0x26, 0x27, 0x28, 0x29, 0x30}"
    "n \<notin> {0x3a, 0x3b, 0x3c, 0x3d, 0x3e, 0xf0, 0xff}"
    using assms(2) by (auto simp: installed_def intro: gr0I)
  moreover have "i < 20 \<Longrightarrow> i \<noteq> 15 \<Longrightarrow>
      i \<in> {0, 1, 2, 3, 4, 5, 6, 7, 8, 9, 10, 11, 12, 13, 14, 16, 17, 18, 19}" for i :: nat
    unfolding insert_iff empty_iff by presburger
  moreover have "0x20 \<le> i \<Longrightarrow> i \<le> 0x29 \<Longrightarrow>
      i \<in> {0x20, 0x21, 0x22, 0x23, 0x24, 0x25, 0x26, 0x27, 0x28, 0x29, 0x30}" for i :: nat
    unfolding insert_iff empty_iff by presburger
  moreover have "0x3a \<le> i \<Longrightarrow> i \<le> 0x3e \<Longrightarrow> i \<in> {0x3a, 0x3b, 0x3c, 0x3d, 0x3e, 0xf0, 0xff}" for i :: nat
    by auto
  ultimately have "\<not> (n < 20 \<and> n \<noteq> 15)" "\<not> (0x20 \<le> n \<and> n \<le> 0x29)" "\<not> (0x3a \<le> n \<and> n \<le> 0x3e)"
    "n \<noteq> 0x30" "n \<noteq> 0xf0" "n \<noteq> 0xff"
    by (metis, metis, metis, simp_all)
  then show "vector_entry n = int_null" "vector_access n = D_TRAP"
    by (simp_all only: vector_entry_def vector_access_def if_False simp_thms)
qed

lemma idt_init_gate:
  "idt_init ent T v = mk_gate (ent (vector_entry (unat v))) (vector_access (unat v))"
proof (cases "v \<in> fst ` set installed")
  case True
  with installed_keys show ?thesis by (auto simp: list_all_iff idt_init_installed)
next
  case False
  moreover from this have "map_of installed v = None" by (simp add: map_of_eq_None_iff)
  ultimately show ?thesis
    using installed_others[of "unat v"] unsigned_less[of v, where 'a = nat]
    by (simp add: idt_init_installed)
qed

subsection \<open>Properties\<close>


text \<open>C28. After \<open>idt_init\<close> every one of the 256 vectors is present, runs in the kernel code
  segment and leads to the entry point the table \<open>vector_entry\<close> gives; and the system call
  vector \<open>0xff\<close> is the only one that user mode may raise with an \<open>int\<close> instruction.\<close>

theorem idt_init_vectors:
  "gate_present (idt_init ent T v)
   \<and> selector (idt_init ent T v) = KERNEL_CS_sel
   \<and> gate_offset (idt_init ent T v) = ent (vector_entry (unat v))
   \<and> (gate_dpl (idt_init ent T v) = 3 \<longleftrightarrow> v = 0xff)"
proof (cases "v = 0xff")
  case True
  then have "vector_access (unat v) = D_TRAP OR D_DPL3" by (simp add: vector_access_def)
  with True show ?thesis by (simp add: idt_init_gate mk_gate_props)
next
  case False
  then have "unat v \<noteq> 255" by (simp add: word_unat_eq_iff)
  then have "vector_access (unat v) \<in> {D_INT, D_TRAP}" by (simp add: vector_access_def)
  with False show ?thesis by (auto simp: idt_init_gate mk_gate_props)
qed


end
