(* ===== verification/Task.thy ===== *)
theory Task
  imports Buddy Descriptor
begin

text \<open>
  Task contexts: \<^verbatim>\<open>struct task\<close>, \<^verbatim>\<open>struct ia32_tss\<close>, \<^verbatim>\<open>struct intr_ctx\<close> and
  \<^verbatim>\<open>arch-ia32/task.c\<close>. A task is the page frame that holds its \<open>struct task\<close> and, above
  it, its kernel stack; the members of the structure are a record per frame, the stack is the
  frame's bytes in \<open>kmem\<close>. The far jump through a task gate is the processor's hardware task
  switch: it stores the outgoing register state in the TSS that the task register designates and
  loads the incoming one from the TSS that the new selector designates. \<open>saved\<close> stands for the
  registers the processor stores.
\<close>

subsection \<open>Data\<close>

record ia32_tss =
  tss_back_link :: u16
  tss_sp0 :: u32
  tss_ss0 :: u16
  tss_sp1 :: u32
  tss_ss1 :: u16
  tss_sp2 :: u32
  tss_ss2 :: u16
  tss_cr3 :: u32
  tss_eip :: u32
  tss_flags :: u32
  tss_eax :: u32
  tss_ecx :: u32
  tss_edx :: u32
  tss_ebx :: u32
  tss_esp :: u32
  tss_ebp :: u32
  tss_esi :: u32
  tss_edi :: u32
  tss_es :: u16
  tss_cs :: u16
  tss_ss :: u16
  tss_ds :: u16
  tss_fs :: u16
  tss_gs :: u16
  tss_ldt :: u16
  tss_trace :: u16
  tss_io_bitmap_base :: u16

definition zero_tss :: ia32_tss where
  "zero_tss = \<lparr>tss_back_link = 0, tss_sp0 = 0, tss_ss0 = 0, tss_sp1 = 0, tss_ss1 = 0,
     tss_sp2 = 0, tss_ss2 = 0, tss_cr3 = 0, tss_eip = 0, tss_flags = 0, tss_eax = 0,
     tss_ecx = 0, tss_edx = 0, tss_ebx = 0, tss_esp = 0, tss_ebp = 0, tss_esi = 0, tss_edi = 0,
     tss_es = 0, tss_cs = 0, tss_ss = 0, tss_ds = 0, tss_fs = 0, tss_gs = 0, tss_ldt = 0,
     tss_trace = 0, tss_io_bitmap_base = 0\<rparr>"

text \<open>Offsets in \<open>struct intr_ctx\<close>, and its size.\<close>

definition ic_eax :: addr where "ic_eax = 28"
definition ic_eip :: addr where "ic_eip = 36"
definition ic_cs :: addr where "ic_cs = 40"
definition ic_esp3 :: addr where "ic_esp3 = 48"
definition sizeof_intr_ctx :: u32 where "sizeof_intr_ctx = 56"

lemmas intr_ctx_layout = ic_eax_def ic_eip_def ic_cs_def ic_esp3_def sizeof_intr_ctx_def

definition MAP_INVALID :: u32 where "MAP_INVALID = 0xFFFFFFFF"

definition TASK_RUNNING :: u32 where "TASK_RUNNING = 0"
definition TASK_READY :: u32 where "TASK_READY = 1"
definition TASK_SLEEPING :: u32 where "TASK_SLEEPING = 2"
definition TASK_ZOMBIE :: u32 where "TASK_ZOMBIE = 3"

lemmas task_states = TASK_RUNNING_def TASK_READY_def TASK_SLEEPING_def TASK_ZOMBIE_def

text \<open>The member \<open>list\<close> lives in the scheduler's store of list nodes.\<close>

record task =
  t_state :: u32
  t_intr_ctx :: addr
  t_name :: string
  t_pid :: u32
  t_exit_code :: u32
  t_ctx :: addr
  t_root :: addr
  t_cwd :: addr
  t_fd_table :: addr

definition zero_task :: task where
  "zero_task = \<lparr>t_state = 0, t_intr_ctx = NULL, t_name = [], t_pid = 0,
     t_exit_code = 0, t_ctx = NULL, t_root = NULL, t_cwd = NULL, t_fd_table = NULL\<rparr>"

definition sizeof_task :: u32 where "sizeof_task = 148"
definition tss_offset :: u32 where "tss_offset = 12"
definition sizeof_tss :: u32 where "sizeof_tss = 104"

definition tss_addr :: "nat \<Rightarrow> addr" where
  "tss_addr t = page_address t + tss_offset"

text \<open>
  The machine: page frames and memory, the tasks and the task state segments by
  address (that of a task is its member \<open>t.tss\<close>), the descriptor table with the two TSS slots, the
  task register, the running task, and the page directories of the address spaces
  (\<open>ctx->arch.pgd\<close>).
\<close>

record machine = buddy +
  tasks :: "nat \<Rightarrow> task"
  tsss :: "addr \<Rightarrow> ia32_tss"
  gdt :: "u16 \<Rightarrow> ia32_desc"
  task_reg :: u16
  this_task :: nat
  ctx_pgd :: "addr \<Rightarrow> addr"

definition upd_task :: "nat \<Rightarrow> (task \<Rightarrow> task) \<Rightarrow> 'a machine_scheme \<Rightarrow> 'a machine_scheme" where
  "upd_task i f s = s\<lparr>tasks := (tasks s)(i := f (tasks s i))\<rparr>"

definition upd_tss :: "nat \<Rightarrow> (ia32_tss \<Rightarrow> ia32_tss) \<Rightarrow> 'a machine_scheme \<Rightarrow> 'a machine_scheme" where
  "upd_tss i f s = s\<lparr>tsss := (tsss s)(tss_addr i := f (tsss s (tss_addr i)))\<rparr>"

abbreviation t_tss :: "'a machine_scheme \<Rightarrow> nat \<Rightarrow> ia32_tss" where
  "t_tss s i \<equiv> tsss s (tss_addr i)"

lemma upd_task_simps [simp]:
  "tasks (upd_task i f s) = (tasks s)(i := f (tasks s i))" "tsss (upd_task i f s) = tsss s"
  "kmem (upd_task i f s) = kmem s" "gdt (upd_task i f s) = gdt s"
  "task_reg (upd_task i f s) = task_reg s" "this_task (upd_task i f s) = this_task s"
  "ctx_pgd (upd_task i f s) = ctx_pgd s" "pfa (upd_task i f s) = pfa s"
  "upd_task i f (upd_task i g s) = upd_task i (f \<circ> g) s"
  by (simp_all add: upd_task_def)

lemma upd_tss_simps [simp]:
  "tsss (upd_tss i f s) = (tsss s)(tss_addr i := f (tsss s (tss_addr i)))"
  "tasks (upd_tss i f s) = tasks s" "kmem (upd_tss i f s) = kmem s" "gdt (upd_tss i f s) = gdt s"
  "task_reg (upd_tss i f s) = task_reg s" "this_task (upd_tss i f s) = this_task s"
  "ctx_pgd (upd_tss i f s) = ctx_pgd s" "pfa (upd_tss i f s) = pfa s"
  "upd_tss i f (upd_tss i g s) = upd_tss i (f \<circ> g) s"
  by (simp_all add: upd_tss_def)

subsection \<open>The global descriptor table\<close>

definition GDT :: "u16 \<Rightarrow> ia32_desc" where
  "GDT i =
     (if i = 1 then stnd_desc 0 0xFFFFF (D_CODE OR D_READ OR D_BIG OR D_BIG_LIM)
      else if i = 2 then stnd_desc 0 0xFFFFF (D_DATA OR D_WRITE OR D_BIG OR D_BIG_LIM)
      else if i = 3 then stnd_desc 0 0xFFFFF (D_CODE OR D_READ OR D_BIG OR D_BIG_LIM OR D_DPL3)
      else if i = 4 then stnd_desc 0 0xFFFFF (D_DATA OR D_WRITE OR D_BIG OR D_BIG_LIM OR D_DPL3)
      else \<lparr>limit_low = 0, base_low = 0, base_med = 0, d_access = 0, limit_high = 0,
             granularity = 0, base_high = 0\<rparr>)"

definition tss_desc :: "addr \<Rightarrow> ia32_desc" where
  "tss_desc tss = stnd_desc tss (sizeof_tss - 1) (D_TSS OR D_BIG OR D_BIG_LIM)"

subsection \<open>Setting up the context of a new task\<close>

definition task_push_word :: "'a machine_scheme \<Rightarrow> nat \<Rightarrow> u32 \<Rightarrow> 'a machine_scheme" where
  "task_push_word s t w =
     (let s = upd_tss t (\<lambda>x. x\<lparr>tss_esp := tss_esp x - 4\<rparr>) s;
          s = upd_tss t (\<lambda>x. x\<lparr>tss_sp0 := tss_sp0 x - 4\<rparr>) s
      in s\<lparr>kmem := write32 (kmem s) (tss_esp (t_tss s t)) w\<rparr>)"

text \<open>\<open>entry\<close> is the address of \<open>kthread_init\<close>.\<close>

definition task_init_kthread ::
  "addr \<Rightarrow> 'a machine_scheme \<Rightarrow> nat \<Rightarrow> addr \<Rightarrow> addr \<Rightarrow> 'a machine_scheme" where
  "task_init_kthread entry s t thread_func priv =
     (let s = upd_tss t (\<lambda>x. x\<lparr>tss_ss := KERNEL_DS_sel, tss_ds := KERNEL_DS_sel,
              tss_es := KERNEL_DS_sel, tss_gs := KERNEL_DS_sel, tss_fs := KERNEL_DS_sel\<rparr>) s;
          s = upd_tss t (\<lambda>x. x\<lparr>tss_ss0 := tss_ss x\<rparr>) s;
          s = upd_tss t (\<lambda>x. x\<lparr>tss_cs := KERNEL_CS_sel\<rparr>) s;
          s = upd_tss t (\<lambda>x. x\<lparr>tss_esp := page_address t + PAGE_SIZE\<rparr>) s;
          s = upd_tss t (\<lambda>x. x\<lparr>tss_sp0 := tss_esp x\<rparr>) s;
          s = upd_tss t (\<lambda>x. x\<lparr>tss_flags := push_bit 9 1\<rparr>) s;
          s = upd_tss t (\<lambda>x. x\<lparr>tss_cr3 := ctx_pgd s (t_ctx (tasks s t))\<rparr>) s;
          s = upd_tss t (\<lambda>x. x\<lparr>tss_io_bitmap_base := 0x8000\<rparr>) s
      in if thread_func \<noteq> NULL
         then let s = upd_tss t (\<lambda>x. x\<lparr>tss_eip := entry\<rparr>) s;
                  s = task_push_word s t priv;
                  s = task_push_word s t thread_func
              in task_push_word s t 0x13371337
         else s)"

text \<open>\<open>return_from_intr\<close> of \<^verbatim>\<open>include/arch-ia32/regs.h\<close>.\<close>

definition return_from_intr :: "mem \<Rightarrow> addr \<Rightarrow> u32 option" where
  "return_from_intr m ctx =
     (let rpl = read32 m (ctx + ic_cs) AND ucast CPL3
      in if rpl = 0 then Some (ucast KERNEL_DS_sel)
         else do {
           BUG_ON (rpl \<noteq> ucast CPL3);
           Some (ucast USER_DS_sel OR rpl)
         })"

text \<open>\<open>entry\<close> is the address of \<open>ret_from_fork_in_child\<close>.\<close>

definition task_clone ::
  "addr \<Rightarrow> 'a machine_scheme \<Rightarrow> nat \<Rightarrow> nat \<Rightarrow> u32 \<Rightarrow> u32 \<Rightarrow> 'a machine_scheme option" where
  "task_clone entry s parent new ip sp = do {
     let ptss = t_tss s parent;
     let s = upd_tss new (\<lambda>_. zero_tss) s;
     let s = upd_tss new (\<lambda>x. x\<lparr>tss_cr3 := ctx_pgd s (t_ctx (tasks s new))\<rparr>) s;
     let s = upd_tss new (\<lambda>x. x\<lparr>tss_fs := tss_fs ptss, tss_gs := tss_gs ptss\<rparr>) s;
     let s = upd_tss new (\<lambda>x. x\<lparr>tss_io_bitmap_base := 0x8000\<rparr>) s;
     let s = upd_tss new (\<lambda>x. x\<lparr>tss_sp0 := page_address new + PAGE_SIZE\<rparr>) s;
     let s = upd_tss new (\<lambda>x. x\<lparr>tss_ss0 := KERNEL_DS_sel\<rparr>) s;
     let s = upd_tss new (\<lambda>x. x\<lparr>tss_flags := tss_flags ptss OR push_bit 9 1\<rparr>) s;
     let s = upd_tss new (\<lambda>x. x\<lparr>tss_ss := KERNEL_DS_sel, tss_ds := KERNEL_DS_sel,
                tss_es := KERNEL_DS_sel\<rparr>) s;
     let s = upd_tss new (\<lambda>x. x\<lparr>tss_cs := KERNEL_CS_sel\<rparr>) s;
     let regs = t_intr_ctx (tasks s parent);
     let stack_top = page_address new + PAGE_SIZE;
     let s = s\<lparr>kmem := memcpy (kmem s) (stack_top - sizeof_intr_ctx) regs sizeof_intr_ctx\<rparr>;
     let regs = stack_top - sizeof_intr_ctx;
     let s = s\<lparr>kmem := write32 (kmem s) (regs + ic_eax) 0\<rparr>;
     let s = upd_tss new (\<lambda>x. x\<lparr>tss_esp := regs\<rparr>) s;
     eax \<leftarrow> return_from_intr (kmem s) regs;
     let s = upd_tss new (\<lambda>x. x\<lparr>tss_eax := eax\<rparr>) s;
     let s = upd_tss new (\<lambda>x. x\<lparr>tss_eip := entry\<rparr>) s;
     let s = (if ip \<noteq> MAP_INVALID then s\<lparr>kmem := write32 (kmem s) (regs + ic_eip) ip\<rparr> else s);
     let s = (if sp \<noteq> MAP_INVALID then s\<lparr>kmem := write32 (kmem s) (regs + ic_esp3) sp\<rparr> else s);
     Some s
   }"

subsection \<open>Switching tasks\<close>

text \<open>
  \<open>ljmp\<close> to the TSS selector \<open>slot << 3\<close>. The processor reads the base of the outgoing and the
  incoming TSS from the descriptors; the task that runs next is the one whose frame contains the
  incoming TSS.
\<close>

definition ljmp_tss :: "ia32_tss \<Rightarrow> u16 \<Rightarrow> 'a machine_scheme \<Rightarrow> 'a machine_scheme" where
  "ljmp_tss saved slot s =
     (let s = s\<lparr>tsss := (tsss s)(desc_base (gdt s (drop_bit 3 (task_reg s))) := saved)\<rparr>
      in s\<lparr>task_reg := push_bit 3 slot, this_task := virt_to_page (desc_base (gdt s slot))\<rparr>)"

definition switch_task :: "ia32_tss \<Rightarrow> 'a machine_scheme \<Rightarrow> nat \<Rightarrow> nat \<Rightarrow> 'a machine_scheme option" where
  "switch_task saved s prev_task next_task = do {
     let tr = drop_bit 3 (task_reg s);
     BUG_ON (tr \<noteq> TSS0 \<and> tr \<noteq> TSS1);
     let tr = (if tr = TSS0 then TSS1 else TSS0);
     let s = s\<lparr>gdt := (gdt s)(tr := tss_desc (tss_addr next_task))\<rparr>;
     Some (if tr = TSS1 then ljmp_tss saved TSS1 s else ljmp_tss saved TSS0 s)
   }"

text \<open>
  \<open>task_init_exec\<close> parks the processor on a scratch TSS (at the address \<open>scratch\<close>), rewrites
  the TSS of the task and jumps through it: the task register's old slot now leads to the new
  user context. The state is the one after the jump, from which the function does not return.
\<close>

definition task_init_exec ::
  "addr \<Rightarrow> ia32_tss \<Rightarrow> 'a machine_scheme \<Rightarrow> nat \<Rightarrow> addr \<Rightarrow> addr \<Rightarrow> 'a machine_scheme option" where
  "task_init_exec scratch saved s tsk ip sp = do {
     let tr = drop_bit 3 (task_reg s);
     BUG_ON (tr \<noteq> TSS0 \<and> tr \<noteq> TSS1);
     let scratch_tr = (if tr = TSS0 then TSS1 else TSS0);
     let s = s\<lparr>gdt := (gdt s)(scratch_tr := tss_desc scratch)\<rparr>;
     let s = s\<lparr>task_reg := push_bit 3 scratch_tr\<rparr>;
     let s = upd_tss tsk (\<lambda>_. zero_tss) s;
     let s = upd_tss tsk (\<lambda>x. x\<lparr>tss_ss := USER_DS_sel OR CPL3, tss_ds := USER_DS_sel OR CPL3,
                tss_es := USER_DS_sel OR CPL3, tss_gs := USER_DS_sel OR CPL3,
                tss_fs := USER_DS_sel OR CPL3\<rparr>) s;
     let s = upd_tss tsk (\<lambda>x. x\<lparr>tss_cs := USER_CS_sel OR CPL3\<rparr>) s;
     let s = upd_tss tsk (\<lambda>x. x\<lparr>tss_eip := ip, tss_esp := sp\<rparr>) s;
     let s = upd_tss tsk (\<lambda>x. x\<lparr>tss_ss0 := KERNEL_DS_sel,
                tss_sp0 := page_address (this_task s) + PAGE_SIZE\<rparr>) s;
     let s = upd_tss tsk (\<lambda>x. x\<lparr>tss_cr3 := ctx_pgd s (t_ctx (tasks s tsk))\<rparr>) s;
     let s = upd_tss tsk (\<lambda>x. x\<lparr>tss_flags := push_bit 9 1, tss_io_bitmap_base := 0x8000\<rparr>) s;
     let s = s\<lparr>gdt := (gdt s)(tr := tss_desc (tss_addr tsk))\<rparr>;
     Some (if tr = TSS1 then ljmp_tss saved TSS1 s else ljmp_tss saved TSS0 s)
   }"

definition ia32_gdt_finalize :: "'a machine_scheme \<Rightarrow> 'a machine_scheme" where
  "ia32_gdt_finalize s =
     s\<lparr>gdt := (gdt s)(TSS0 := tss_desc (tss_addr (this_task s))), task_reg := push_bit 3 TSS0\<rparr>"

definition task_stack_overflowed :: "'a machine_scheme \<Rightarrow> nat \<Rightarrow> bool option" where
  "task_stack_overflowed s t =
     (let tss = t_tss s t
      in if tss_cs tss AND CPL3 = CPL3 then Some False
         else do {
           BUG_ON (tss_esp tss < PAGE_OFFSET);
           Some (tss_esp tss \<le> page_address t + 2 * sizeof_task)
         })"

subsection \<open>The task register designates the running task\<close>

text \<open>
  \<open>tr_ok s\<close>: the task register selects one of the two TSS slots, and that slot describes the
  TSS of the running task.
\<close>

definition tr_ok :: "'a machine_scheme \<Rightarrow> bool" where
  "tr_ok s \<longleftrightarrow> task_reg s \<in> {push_bit 3 TSS0, push_bit 3 TSS1} \<and>
     desc_base (gdt s (drop_bit 3 (task_reg s))) = tss_addr (this_task s)"

lemma virt_to_page_inside:
  assumes "i < 2 ^ 18" "unat d < 4096"
  shows "virt_to_page (page_address i + d) = i"
proof -
  define w :: u32 where "w = push_bit 12 (of_nat i) + d"
  have w: "unat w = i * 4096 + unat d"
    using assms page_shift_word[of i] unfolding w_def by (simp add: unat_word_ariths)
  have "unat (drop_bit 12 w) = unat w div 4096"
    by (simp only: unat_drop_bit_eq) (simp add: drop_bit_eq_div)
  moreover have "page_address i + d - PAGE_OFFSET = w"
    by (simp add: w_def page_address_def va_def PAGE_SHIFT_def)
  ultimately show ?thesis using assms(2) w
    by (simp add: virt_to_page_def pa_def PAGE_SHIFT_def)
qed

lemma virt_to_page_tss [simp]: "i < 2 ^ 18 \<Longrightarrow> virt_to_page (tss_addr i) = i"
  by (simp add: tss_addr_def tss_offset_def virt_to_page_inside)

lemma tss_addr_inj: "i < 2 ^ 18 \<Longrightarrow> j < 2 ^ 18 \<Longrightarrow> tss_addr i = tss_addr j \<longleftrightarrow> i = j"
  by (metis virt_to_page_tss)

lemma desc_base_tss [simp]: "desc_base (tss_desc a) = a"
  by (simp add: tss_desc_def)

lemma slot_of_tr [simp]:
  "drop_bit 3 (push_bit 3 TSS0) = TSS0" "drop_bit 3 (push_bit 3 TSS1) = TSS1" "TSS0 \<noteq> TSS1"
  "TSS1 \<noteq> TSS0"
  by (simp_all add: TSS0_def TSS1_def)

lemma tr_ok_cases:
  assumes "tr_ok s"
  obtains "task_reg s = push_bit 3 TSS0" "desc_base (gdt s TSS0) = tss_addr (this_task s)"
  | "task_reg s = push_bit 3 TSS1" "desc_base (gdt s TSS1) = tss_addr (this_task s)"
  using assms by (auto simp: tr_ok_def)

lemma switch_task_eq:
  assumes "tr_ok s" "n < 2 ^ 18"
  shows "\<exists>s'. switch_task saved s p n = Some s' \<and> tr_ok s' \<and>
    s' = s\<lparr>gdt := gdt s', task_reg := task_reg s', this_task := n,
           tsss := (tsss s)(tss_addr (this_task s) := saved)\<rparr>"
  using assms(1)
  by (cases rule: tr_ok_cases) (use assms(2) in \<open>simp_all add: switch_task_def ljmp_tss_def tr_ok_def\<close>)

subsection \<open>The context of a forked task\<close>

lemma unat_in_page:
  assumes "i < 2 ^ 18" "unat d < 4096"
  shows "unat (page_address i + d) = 0xc0000000 + i * 4096 + unat d"
  using assms by (simp add: unat_page_address unat_word_ariths)

text \<open>Objects inside different page frames are disjoint.\<close>

lemma pages_apart:
  assumes "i < 2 ^ 18" "j < 2 ^ 18" "i \<noteq> j"
    and "unat d + n \<le> 4096" "unat e + n \<le> 4096" "0 < n"
  shows "n \<le> unat (page_address i + d - (page_address j + e))"
proof -
  have "i * 4096 + 4096 \<le> j * 4096 \<or> j * 4096 + 4096 \<le> i * 4096" using assms(3) by auto
  then show ?thesis
    using assms unat_in_page[of i d] unat_in_page[of j e]
    by (auto simp: unat_sub_if')
qed

lemma memcpy_frame_words:
  assumes "i < 2 ^ 18" "j < 2 ^ 18" "i \<noteq> j" "unat d + 56 \<le> 4096" "k \<le> 52"
  defines "dst \<equiv> page_address i + 4040" and "src \<equiv> page_address j + d"
  shows "read32 (memcpy m dst src 56) (dst + k) = read32 m (src + k)"
proof (rule read32_cong2)
  fix x :: u32 assume x: "x < 4"
  have "unat (k + x) < 56" using x assms(5) by (simp add: word_less_nat_alt word_le_nat_alt unat_word_ariths)
  moreover have "dst + k + x - dst = k + x" by simp
  moreover have "memcpy m dst src 56 a = (if unat (a - dst) < 56 then m (src + (a - dst)) else m a)" for a
    using memcpy_loop_apply[of 56 dst src m a] pages_apart[of i j 4040 56 d] pages_apart[of j i d 56 4040]
      assms(1-4) by (simp add: memcpy_def dst_def src_def)
  ultimately show "memcpy m dst src 56 (dst + k + x) = m (src + k + x)" by (simp add: add.assoc)
qed

definition child_frame :: "nat \<Rightarrow> addr" where
  "child_frame new = page_address new + 4040"

lemma return_from_intr_ok:
  "read32 m (ctx + ic_cs) AND 3 \<in> {0, 3} \<Longrightarrow> \<exists>v. return_from_intr m ctx = Some v"
  by (auto simp: return_from_intr_def selector_consts Let_def)

definition clone_mem :: "'a machine_scheme \<Rightarrow> nat \<Rightarrow> nat \<Rightarrow> u32 \<Rightarrow> u32 \<Rightarrow> mem" where
  "clone_mem s parent new ip sp =
     (let regs = child_frame new;
          m = memcpy (kmem s) regs (t_intr_ctx (tasks s parent)) 56;
          m = write32 m (regs + 28) 0;
          m = (if ip \<noteq> MAP_INVALID then write32 m (regs + 36) ip else m)
      in (if sp \<noteq> MAP_INVALID then write32 m (regs + 48) sp else m))"

lemma task_clone_eq:
  assumes "return_from_intr (write32 (memcpy (kmem s) (child_frame new)
      (t_intr_ctx (tasks s parent)) 56) (child_frame new + 28) 0) (child_frame new) = Some v"
  shows "\<exists>s'. task_clone entry s parent new ip sp = Some s' \<and>
    kmem s' = clone_mem s parent new ip sp \<and> tasks s' = tasks s \<and>
    t_tss s' new = zero_tss\<lparr>tss_cr3 := ctx_pgd s (t_ctx (tasks s new)),
      tss_fs := tss_fs (t_tss s parent), tss_gs := tss_gs (t_tss s parent),
      tss_io_bitmap_base := 0x8000, tss_sp0 := page_address new + 4096, tss_ss0 := KERNEL_DS_sel,
      tss_flags := tss_flags (t_tss s parent) OR 512, tss_ss := KERNEL_DS_sel,
      tss_ds := KERNEL_DS_sel, tss_es := KERNEL_DS_sel, tss_cs := KERNEL_CS_sel,
      tss_esp := child_frame new, tss_eax := v, tss_eip := entry\<rparr>"
proof -
  have frame: "page_address new + PAGE_SIZE - sizeof_intr_ctx = child_frame new"
    by (simp add: child_frame_def page_consts sizeof_intr_ctx_def)
  have sz: "PAGE_SIZE = 4096" by (simp add: page_consts)
  from assms show ?thesis
    unfolding task_clone_def Let_def frame
    by (simp add: intr_ctx_layout clone_mem_def Let_def sz)
qed

text \<open>The bytes outside the new task's page are not touched.\<close>

lemma clone_mem_word:
  assumes "new < 2 ^ 18" "parent < 2 ^ 18" "new \<noteq> parent"
    and "t_intr_ctx (tasks s parent) = page_address parent + d" "unat d + 56 \<le> 4096"
    and "k \<in> {0, 4, 8, 12, 16, 20, 24, 28, 32, 36, 40, 44, 48, 52}"
  shows "read32 (clone_mem s parent new ip sp) (child_frame new + k) =
    (if k = 28 then 0
     else if k = 36 \<and> ip \<noteq> MAP_INVALID then ip
     else if k = 48 \<and> sp \<noteq> MAP_INVALID then sp
     else read32 (kmem s) (t_intr_ctx (tasks s parent) + k))"
proof -
  have "k \<le> 52" using assms(6) by auto
  from memcpy_frame_words[OF assms(1,2,3,5) this, of "kmem s"]
  have copy: "read32 (memcpy (kmem s) (child_frame new) (t_intr_ctx (tasks s parent)) 56)
      (child_frame new + k) = read32 (kmem s) (t_intr_ctx (tasks s parent) + k)"
    by (simp add: child_frame_def assms(4))
  have w: "read32 (write32 m (child_frame new + j) v) (child_frame new + k) =
      read32 m (child_frame new + k)" if "4 \<le> unat (k - j)" "4 \<le> unat (j - k)" for m j v
    using that by (intro read32_write32_other) simp_all
  from assms(6) show ?thesis
    by (elim insertE emptyE) (use copy w[of 28] w[of 36] w[of 48] in \<open>simp_all add: clone_mem_def Let_def\<close>)
qed

subsection \<open>Properties\<close>

text \<open>C20. A forked task starts with its parent's interrupt frame. \<open>task_clone\<close> returns, the
  child's kernel stack pointer points to a frame at the top of its own page, and every register
  in that frame is the parent's, except that \<open>eax\<close> is 0 (so that the system call returns 0 in the
  child) and that the instruction and stack pointers are the ones the caller asked for, if any.\<close>

theorem task_clone_frame:
  assumes "new < 2 ^ 18" "parent < 2 ^ 18" "new \<noteq> parent"
    and "t_intr_ctx (tasks s parent) = page_address parent + d" "unat d + 56 \<le> 4096"
    and "read32 (kmem s) (t_intr_ctx (tasks s parent) + ic_cs) AND 3 \<in> {0, 3}"
  shows "\<exists>s'. task_clone entry s parent new ip sp = Some s' \<and>
    tss_esp (t_tss s' new) = page_address new + 4096 - sizeof_intr_ctx \<and>
    tss_eip (t_tss s' new) = entry \<and> tss_cs (t_tss s' new) = KERNEL_CS_sel \<and>
    (\<forall>k \<in> {0, 4, 8, 12, 16, 20, 24, 28, 32, 36, 40, 44, 48, 52}.
       read32 (kmem s') (tss_esp (t_tss s' new) + k) =
         (if k = ic_eax then 0
          else if k = ic_eip \<and> ip \<noteq> MAP_INVALID then ip
          else if k = ic_esp3 \<and> sp \<noteq> MAP_INVALID then sp
          else read32 (kmem s) (t_intr_ctx (tasks s parent) + k)))"
proof -
  let ?m = "write32 (memcpy (kmem s) (child_frame new) (t_intr_ctx (tasks s parent)) 56)
      (child_frame new + 28) 0"
  have "clone_mem s parent new MAP_INVALID MAP_INVALID = ?m" by (simp add: clone_mem_def Let_def)
  with clone_mem_word[OF assms(1-5), of 40 MAP_INVALID MAP_INVALID]
  have "read32 ?m (child_frame new + ic_cs) AND 3 \<in> {0, 3}" using assms(6) by (simp add: ic_cs_def)
  then obtain v where "return_from_intr ?m (child_frame new) = Some v" using return_from_intr_ok by blast
  from task_clone_eq[OF this, of entry ip sp] obtain s' where
    s': "task_clone entry s parent new ip sp = Some s'" "kmem s' = clone_mem s parent new ip sp"
      "tss_esp (t_tss s' new) = child_frame new" "tss_eip (t_tss s' new) = entry"
      "tss_cs (t_tss s' new) = KERNEL_CS_sel" by auto
  have "page_address new + 4096 - sizeof_intr_ctx = child_frame new"
    by (simp add: child_frame_def sizeof_intr_ctx_def)
  with s' show ?thesis
    by (intro exI[of _ s'] conjI ballI)
      (simp_all only: intr_ctx_layout clone_mem_word[OF assms(1-5)])
qed

text \<open>C21. The hardware task switch always saves the outgoing task's registers in that task's own
  TSS and resumes the task it was asked for: as long as the task register designates the running
  task's TSS, \<open>switch_task\<close> succeeds, makes \<open>next_task\<close> the running task, stores the processor state
  into the TSS of the task that was running, leaves every other TSS unchanged, and the task
  register again designates the running task. The two TSS slots alternate.\<close>

theorem switch_task_correct:
  assumes "tr_ok s" "next_task < 2 ^ 18" "this_task s < 2 ^ 18"
  shows "\<exists>s'. switch_task saved s prev_task next_task = Some s' \<and> tr_ok s' \<and>
    this_task s' = next_task \<and> task_reg s' \<noteq> task_reg s \<and> tasks s' = tasks s \<and>
    t_tss s' (this_task s) = saved \<and>
    (\<forall>t < 2 ^ 18. t \<noteq> this_task s \<longrightarrow> t_tss s' t = t_tss s t)"
  using assms(1)
  by (cases rule: tr_ok_cases)
    (use assms(2,3) in \<open>simp_all add: switch_task_def ljmp_tss_def tr_ok_def tss_addr_inj TSS0_def TSS1_def\<close>)

definition demo_machine :: machine where
  "demo_machine = ia32_gdt_finalize
     (buddy.extend (boot_pages 4)
        \<lparr>tasks = (\<lambda>_. zero_task)(1 := zero_task\<lparr>t_intr_ctx := page_address 1 + 4000\<rparr>),
         tsss = \<lambda>_. zero_tss, gdt = GDT, task_reg = 0, this_task = 1, ctx_pgd = \<lambda>_. 0\<rparr>)"

theorem task_clone_frame_witness:
  "\<exists>s'. task_clone 0xc0100000 demo_machine 1 2 0x8048000 MAP_INVALID = Some s' \<and>
    read32 (kmem s') (page_address 2 + 4096 - sizeof_intr_ctx + ic_eip) = 0x8048000"
proof -
  have z: "kmem demo_machine a = 0" for a
    by (simp add: demo_machine_def ia32_gdt_finalize_def buddy.extend_def boot_pages_def buddy_init_def)
  have t: "t_intr_ctx (tasks demo_machine 1) = page_address 1 + 4000"
    by (simp add: demo_machine_def ia32_gdt_finalize_def buddy.extend_def)
  have "\<exists>s'. task_clone 0xc0100000 demo_machine 1 2 0x8048000 MAP_INVALID = Some s' \<and>
    tss_esp (t_tss s' 2) = page_address 2 + 4096 - sizeof_intr_ctx \<and>
    tss_eip (t_tss s' 2) = 0xc0100000 \<and> tss_cs (t_tss s' 2) = KERNEL_CS_sel \<and>
    (\<forall>k \<in> {0, 4, 8, 12, 16, 20, 24, 28, 32, 36, 40, 44, 48, 52}.
       read32 (kmem s') (tss_esp (t_tss s' 2) + k) =
         (if k = ic_eax then 0
          else if k = ic_eip \<and> 0x8048000 \<noteq> MAP_INVALID then 0x8048000
          else if k = ic_esp3 \<and> MAP_INVALID \<noteq> MAP_INVALID then MAP_INVALID
          else read32 (kmem demo_machine) (t_intr_ctx (tasks demo_machine 1) + k)))"
    by (rule task_clone_frame[where d = 4000]) (simp_all add: t[simplified] z read32_def)
  then show ?thesis by (auto simp: intr_ctx_layout MAP_INVALID_def)
qed

theorem switch_task_correct_witness:
  "\<exists>s'. switch_task zero_tss demo_machine 1 3 = Some s' \<and> this_task s' = 3 \<and> tr_ok s'"
proof -
  have "tr_ok demo_machine"
    by (simp add: demo_machine_def ia32_gdt_finalize_def buddy.extend_def tr_ok_def)
  moreover have "this_task demo_machine < 2 ^ 18"
    by (simp add: demo_machine_def ia32_gdt_finalize_def buddy.extend_def)
  ultimately show ?thesis using switch_task_correct[of demo_machine 3 zero_tss 1] by auto
qed

end
