(* ===== verification/Sched.thy ===== *)
theory Sched
  imports Task
begin

text \<open>
  The scheduler, \<^verbatim>\<open>kernel/sched.c\<close>: run queue, wait queues, the queue of exited tasks and
  the round-robin switch. The queues are linked through the member \<open>list\<close> of the tasks, in one
  store of list nodes. Every function runs with interrupts disabled from its first to its last
  access, so each is one atomic transition. The code after \<open>switch_task\<close> in \<open>sched\<close> runs when
  the switched-out task is resumed, on behalf of that task; it is the separate function
  \<open>sched_tail\<close>.
\<close>

subsection \<open>State\<close>

datatype snode = RunQ | DelQ | WaitQ nat | TaskNode nat

record sched_state = machine +
  slinks :: "snode lstore"
  idle_task :: nat
  next_pid :: u32

text \<open>\<open>list_entry(..., struct task, list)\<close>; a queue head is not part of a task.\<close>

fun task_of :: "snode \<Rightarrow> nat option" where
  "task_of (TaskNode t) = Some t"
| "task_of _ = None"

subsection \<open>Operations\<close>

definition task_to_runq :: "'a sched_state_scheme \<Rightarrow> nat \<Rightarrow> 'a sched_state_scheme" where
  "task_to_runq s t =
     (let s = upd_task t (\<lambda>x. x\<lparr>t_state := TASK_READY\<rparr>) s
      in s\<lparr>slinks := list_add_tail (slinks s) (TaskNode t) RunQ\<rparr>)"

definition get_next_task :: "'a sched_state_scheme \<Rightarrow> nat \<Rightarrow> ('a sched_state_scheme \<times> nat) option" where
  "get_next_task s current = do {
     (s, ret) \<leftarrow>
       (if list_empty (slinks s) RunQ then Some (s, idle_task s)
        else do {
          ret \<leftarrow> task_of (lh_next (slinks s RunQ));
          if current = ret
          then do {
            let s = s\<lparr>slinks := list_move_tail (slinks s) (TaskNode current) RunQ\<rparr>;
            ret \<leftarrow> task_of (lh_next (slinks s RunQ));
            Some (s, ret)
          }
          else Some (s, ret)
        });
     BUG_ON (t_state (tasks s ret) = TASK_SLEEPING);
     Some (s, ret)
   }"

text \<open>The switch. The flag of the result says whether another task runs now.\<close>

definition sched :: "ia32_tss \<Rightarrow> 'a sched_state_scheme \<Rightarrow> ('a sched_state_scheme \<times> bool) option" where
  "sched saved s = do {
     let current = this_task s;
     (s, next_task) \<leftarrow> get_next_task s current;
     if current = next_task then Some (s, False)
     else do {
       overflowed \<leftarrow> task_stack_overflowed s next_task;
       BUG_ON overflowed;
       let s = (if t_state (tasks s current) = TASK_RUNNING
                then upd_task current (\<lambda>x. x\<lparr>t_state := TASK_READY\<rparr>) s else s);
       let s = upd_task next_task (\<lambda>x. x\<lparr>t_state := TASK_RUNNING\<rparr>) s;
       s \<leftarrow> switch_task saved s current next_task;
       Some (s, True)
     }
   }"

text \<open>The body of the loop of \<open>flush_delq\<close>.\<close>

definition flush_one :: "snode \<Rightarrow> 'a sched_state_scheme \<Rightarrow> 'a sched_state_scheme option" where
  "flush_one n s = do {
     tsk \<leftarrow> task_of n;
     BUG_ON (t_state (tasks s tsk) \<noteq> TASK_ZOMBIE);
     let s = s\<lparr>slinks := list_del (slinks s) (TaskNode tsk)\<rparr>;
     free_page s (page_address tsk)
   }"

definition flush_delq :: "'a sched_state_scheme \<Rightarrow> 'a sched_state_scheme option" where
  "flush_delq s = list_for_each_entry_safe slinks DelQ flush_one s"

definition sched_tail :: "'a sched_state_scheme \<Rightarrow> 'a sched_state_scheme option" where
  "sched_tail s = (if \<not> list_empty (slinks s) DelQ then flush_delq s else Some s)"

definition sleep_on :: "ia32_tss \<Rightarrow> 'a sched_state_scheme \<Rightarrow> nat \<Rightarrow> ('a sched_state_scheme \<times> bool) option" where
  "sleep_on saved s q =
     (let t = this_task s;
          s = upd_task t (\<lambda>x. x\<lparr>t_state := TASK_SLEEPING\<rparr>) s;
          s = s\<lparr>slinks := list_del (slinks s) (TaskNode t)\<rparr>;
          s = s\<lparr>slinks := list_add_tail (slinks s) (TaskNode t) (WaitQ q)\<rparr>
      in sched saved s)"

text \<open>The body of the loop of \<open>wake_up\<close>.\<close>

definition wake_body :: "snode \<Rightarrow> 'a sched_state_scheme \<Rightarrow> 'a sched_state_scheme option" where
  "wake_body n s = do {
     t \<leftarrow> task_of n;
     let s = s\<lparr>slinks := list_del (slinks s) (TaskNode t)\<rparr>;
     Some (task_to_runq s t)
   }"

definition wake_up :: "'a sched_state_scheme \<Rightarrow> nat \<Rightarrow> 'a sched_state_scheme option" where
  "wake_up s q = list_for_each_entry_safe slinks (WaitQ q) wake_body s"

definition wake_one :: "'a sched_state_scheme \<Rightarrow> nat \<Rightarrow> 'a sched_state_scheme option" where
  "wake_one s q =
     (if list_empty (slinks s) (WaitQ q) then Some s
      else do {
        tsk \<leftarrow> task_of (lh_next (slinks s (WaitQ q)));
        let s = s\<lparr>slinks := list_del (slinks s) (TaskNode tsk)\<rparr>;
        Some (task_to_runq s tsk)
      })"

text \<open>\<open>do_exit\<close> panics when \<open>sched\<close> comes back to the exited task.\<close>

definition do_exit :: "ia32_tss \<Rightarrow> 'a sched_state_scheme \<Rightarrow> u32 \<Rightarrow> 'a sched_state_scheme option" where
  "do_exit saved s code = do {
     let tsk = this_task s;
     let s = s\<lparr>slinks := list_move_tail (slinks s) (TaskNode tsk) DelQ\<rparr>;
     let s = upd_task tsk (\<lambda>x. x\<lparr>t_exit_code := code\<rparr>) s;
     let s = upd_task tsk (\<lambda>x. x\<lparr>t_state := TASK_ZOMBIE\<rparr>) s;
     (s, switched) \<leftarrow> sched saved s;
     BUG_ON (\<not> switched);
     Some s
   }"

definition pid_alloc :: "'a sched_state_scheme \<Rightarrow> 'a sched_state_scheme \<times> u32" where
  "pid_alloc s = (s\<lparr>next_pid := next_pid s + 1\<rparr>, next_pid s + 1)"

text \<open>\<open>sched_init\<close>: the running task becomes the idle task. \<open>kctx\<close> is the kernel's address
  space and \<open>entry\<close> the address of \<open>kthread_init\<close>.\<close>

definition sched_init :: "addr \<Rightarrow> addr \<Rightarrow> 'a sched_state_scheme \<Rightarrow> 'a sched_state_scheme" where
  "sched_init kctx entry s =
     (let idle = this_task s;
          s = s\<lparr>idle_task := idle\<rparr>;
          s = upd_task idle (\<lambda>_. zero_task) s;
          s = upd_tss idle (\<lambda>_. zero_tss) s;
          s = upd_task idle (\<lambda>x. x\<lparr>t_state := TASK_RUNNING, t_name := ''[idle]'', t_pid := 0\<rparr>) s;
          s = upd_task idle (\<lambda>x. x\<lparr>t_ctx := kctx\<rparr>) s
      in task_init_kthread entry s idle NULL NULL)"

subsection \<open>Abstract scheduler\<close>

text \<open>
  What the queues stand for: the run queue, the exited tasks, the sleepers of every wait queue,
  the running task and the free page frames.
\<close>

record asched =
  a_run :: "nat list"
  a_del :: "nat list"
  a_wait :: "nat \<Rightarrow> nat list"
  a_cur :: nat
  a_free :: "nat list"

definition aswitch :: "nat \<Rightarrow> asched \<Rightarrow> asched" where
  "aswitch idle a =
     (case a_run a of
        [] \<Rightarrow> a\<lparr>a_cur := idle\<rparr>
      | t # R \<Rightarrow> if t = a_cur a then a\<lparr>a_run := R @ [t], a_cur := hd (R @ [t])\<rparr>
                 else a\<lparr>a_cur := t\<rparr>)"

definition asleep :: "nat \<Rightarrow> nat \<Rightarrow> asched \<Rightarrow> asched" where
  "asleep idle q a = aswitch idle (a\<lparr>a_run := remove1 (a_cur a) (a_run a),
     a_wait := (a_wait a)(q := a_wait a q @ [a_cur a])\<rparr>)"

definition awake_up :: "nat \<Rightarrow> asched \<Rightarrow> asched" where
  "awake_up q a = a\<lparr>a_run := a_run a @ a_wait a q, a_wait := (a_wait a)(q := [])\<rparr>"

definition awake_one :: "nat \<Rightarrow> asched \<Rightarrow> asched" where
  "awake_one q a = (case a_wait a q of [] \<Rightarrow> a
     | t # ts \<Rightarrow> a\<lparr>a_run := a_run a @ [t], a_wait := (a_wait a)(q := ts)\<rparr>)"

definition aexit :: "nat \<Rightarrow> asched \<Rightarrow> asched" where
  "aexit idle a = aswitch idle (a\<lparr>a_run := remove1 (a_cur a) (a_run a), a_del := a_del a @ [a_cur a]\<rparr>)"

definition aflush :: "asched \<Rightarrow> asched" where
  "aflush a = a\<lparr>a_del := [], a_free := a_free a @ a_del a\<rparr>"

definition a_tasks :: "asched \<Rightarrow> nat set" where
  "a_tasks a = set (a_run a) \<union> set (a_del a) \<union> (\<Union>q. set (a_wait a q))"

fun qlists :: "asched \<Rightarrow> snode \<Rightarrow> snode list" where
  "qlists a RunQ = map TaskNode (a_run a)"
| "qlists a DelQ = map TaskNode (a_del a)"
| "qlists a (WaitQ q) = map TaskNode (a_wait a q)"
| "qlists a (TaskNode t) = []"

definition qheads :: "snode set" where
  "qheads = {RunQ, DelQ} \<union> range WaitQ"

definition state_ok :: "nat \<Rightarrow> asched \<Rightarrow> (nat \<Rightarrow> u32) \<Rightarrow> bool" where
  "state_ok idle a st \<longleftrightarrow>
     (\<forall>t\<in>insert idle (set (a_run a)). st t = (if t = a_cur a then TASK_RUNNING else TASK_READY)) \<and>
     (\<forall>t\<in>set (a_del a). st t = TASK_ZOMBIE) \<and> (\<forall>q. \<forall>t\<in>set (a_wait a q). st t = TASK_SLEEPING)"

text \<open>
  The invariant and abstraction. A running task that is not the idle task is the head of the run
  queue, except between its exit and the switch away from it; sleeping and exited tasks are on no
  run queue; task states agree with the queues; and every task owns the page it lives in.
\<close>

definition cur_ok :: "nat \<Rightarrow> asched \<Rightarrow> bool" where
  "cur_ok idle a \<longleftrightarrow> a_cur a = idle \<or> a_cur a \<in> set (a_del a) \<or> (\<exists>R. a_run a = a_cur a # R)"

definition good_stack :: "nat \<Rightarrow> ia32_tss \<Rightarrow> bool" where
  "good_stack t tss \<longleftrightarrow> tss_cs tss AND CPL3 = CPL3 \<or>
     PAGE_OFFSET \<le> tss_esp tss \<and> page_address t + 2 * sizeof_task < tss_esp tss"

definition stacks_ok :: "'a sched_state_scheme \<Rightarrow> asched \<Rightarrow> bool" where
  "stacks_ok s a \<longleftrightarrow> (\<forall>t \<in> insert (idle_task s) (a_tasks a).
     t < 2 ^ 18 \<and> (t \<notin> set (a_del a) \<longrightarrow> good_stack t (t_tss s t)))"

definition sched_rep :: "'a sched_state_scheme \<Rightarrow> asched \<Rightarrow> bool" where
  "sched_rep s a \<longleftrightarrow>
     lists_rep (slinks s) qheads (qlists a) \<and> this_task s = a_cur a \<and> tr_ok s \<and>
     idle_task s \<notin> a_tasks a \<and> cur_ok (idle_task s) a \<and>
     state_ok (idle_task s) a (\<lambda>t. t_state (tasks s t)) \<and> stacks_ok s a \<and>
     buddy_rep s (a_free a) \<and> a_tasks a \<subseteq> owned s"

lemma task_states_distinct [simp]:
  "TASK_RUNNING \<noteq> TASK_SLEEPING" "TASK_READY \<noteq> TASK_SLEEPING" "TASK_ZOMBIE \<noteq> TASK_SLEEPING"
  "TASK_SLEEPING \<noteq> TASK_RUNNING" "TASK_READY \<noteq> TASK_RUNNING" "TASK_ZOMBIE \<noteq> TASK_RUNNING"
  by (simp_all add: task_states)

subsection \<open>The queues\<close>

lemma qheads_in [simp]: "RunQ \<in> qheads" "DelQ \<in> qheads" "WaitQ q \<in> qheads" "TaskNode t \<notin> qheads"
  by (auto simp: qheads_def)

lemma queues_cong:
  assumes "lists_rep st qheads L" "L RunQ = map TaskNode (a_run a)" "L DelQ = map TaskNode (a_del a)"
    and "\<And>q. L (WaitQ q) = map TaskNode (a_wait a q)"
  shows "lists_rep st qheads (qlists a)"
  by (rule lh.rep_cong[OF assms(1)]) (use assms(2-4) in \<open>auto simp: qheads_def\<close>)

text \<open>A task is on at most one queue, once.\<close>

definition queues_ok :: "asched \<Rightarrow> bool" where
  "queues_ok a \<longleftrightarrow> distinct (a_run a) \<and> distinct (a_del a) \<and> (\<forall>q. distinct (a_wait a q)) \<and>
     set (a_run a) \<inter> set (a_del a) = {} \<and> (\<forall>q. set (a_run a) \<inter> set (a_wait a q) = {}) \<and>
     (\<forall>q. set (a_del a) \<inter> set (a_wait a q) = {}) \<and>
     (\<forall>p q. p \<noteq> q \<longrightarrow> set (a_wait a p) \<inter> set (a_wait a q) = {})"

lemma queues_okI:
  assumes rep: "lists_rep st qheads (qlists a)"
  shows "queues_ok a"
proof -
  have dist: "distinct (qlists a h)" if "h \<in> qheads" for h using lh.rep_distinct[OF rep that] .
  have dj: "g = h" if "h \<in> qheads" "g \<in> qheads" "TaskNode x \<in> set (qlists a h)"
      "TaskNode x \<in> set (qlists a g)" for h g x
    using lh.rep_unique[OF rep that] .
  have "distinct (a_wait a q)" for q using dist[of "WaitQ q"] by (simp add: distinct_map)
  moreover have "set (a_run a) \<inter> set (a_del a) = {}" using dj[of RunQ DelQ] by auto
  moreover have "set (a_run a) \<inter> set (a_wait a q) = {}" for q using dj[of RunQ "WaitQ q"] by auto
  moreover have "set (a_del a) \<inter> set (a_wait a q) = {}" for q using dj[of DelQ "WaitQ q"] by auto
  moreover have "set (a_wait a p) \<inter> set (a_wait a q) = {}" if "p \<noteq> q" for p q
    using dj[of "WaitQ p" "WaitQ q"] that by auto
  ultimately show ?thesis
    using dist[of RunQ] dist[of DelQ] by (auto simp: queues_ok_def distinct_map)
qed

lemma task_unqueued: "t \<notin> a_tasks a \<Longrightarrow> TaskNode t \<notin> set (qlists a h)"
  by (cases h) (auto simp: a_tasks_def)

lemma remove1_TaskNode: "remove1 (TaskNode t) (map TaskNode xs) = map TaskNode (remove1 t xs)"
  by (induction xs) auto

text \<open>The effect of the list operations on the queues.\<close>

lemma queue_tail:
  assumes "lists_rep st qheads (qlists a)" "t \<notin> a_tasks a"
  shows "lists_rep (list_add_tail st (TaskNode t) RunQ) qheads (qlists (a\<lparr>a_run := a_run a @ [t]\<rparr>))"
    and "lists_rep (list_add_tail st (TaskNode t) (WaitQ q)) qheads
        (qlists (a\<lparr>a_wait := (a_wait a)(q := a_wait a q @ [t])\<rparr>))"
  by (rule queues_cong[OF lh.rep_add_tail[OF assms(1) _ _ task_unqueued[OF assms(2)]]]; simp)+

lemma queue_del_run:
  assumes "lists_rep st qheads (qlists a)" "t \<in> set (a_run a)"
  shows "lists_rep (list_del st (TaskNode t)) qheads (qlists (a\<lparr>a_run := remove1 t (a_run a)\<rparr>))"
  by (rule queues_cong[OF lh.take_any[OF assms(1), of RunQ "TaskNode t"]])
    (use assms(2) in \<open>simp_all add: remove1_TaskNode\<close>)

lemma queue_del_wait:
  assumes "lists_rep st qheads (qlists a)" "a_wait a q = t # ts"
  shows "lists_rep (list_del st (TaskNode t)) qheads (qlists (a\<lparr>a_wait := (a_wait a)(q := ts)\<rparr>))"
  by (rule queues_cong[OF lh.take_first[OF assms(1), of "WaitQ q" "TaskNode t" "map TaskNode ts"]])
    (use assms(2) in simp_all)

lemma queue_del_del:
  assumes "lists_rep st qheads (qlists a)" "a_del a = t # ts"
  shows "lists_rep (list_del st (TaskNode t)) qheads (qlists (a\<lparr>a_del := ts\<rparr>))"
  by (rule queues_cong[OF lh.take_first[OF assms(1), of DelQ "TaskNode t" "map TaskNode ts"]])
    (use assms(2) in simp_all)

lemma queue_exit:
  assumes "lists_rep st qheads (qlists a)" "t \<in> set (a_run a)"
  shows "lists_rep (list_move_tail st (TaskNode t) DelQ) qheads
      (qlists (a\<lparr>a_run := remove1 t (a_run a), a_del := a_del a @ [t]\<rparr>))"
  by (rule queues_cong[OF lh.move_other(2)[OF assms(1), of RunQ]])
    (use assms(2) in \<open>simp_all add: remove1_TaskNode\<close>)

lemma queue_rotate:
  assumes "lists_rep st qheads (qlists a)" "a_run a = t # R"
  shows "lists_rep (list_move_tail st (TaskNode t) RunQ) qheads (qlists (a\<lparr>a_run := R @ [t]\<rparr>))"
  by (rule queues_cong[OF lh.rotate_first[OF assms(1), of RunQ]]) (use assms(2) in simp_all)

lemma queue_first:
  assumes "lists_rep st qheads (qlists a)"
  shows "list_empty st RunQ \<longleftrightarrow> a_run a = []" "list_empty st DelQ \<longleftrightarrow> a_del a = []"
    "list_empty st (WaitQ q) \<longleftrightarrow> a_wait a q = []"
    "a_run a = t # R \<Longrightarrow> lh_next (st RunQ) = TaskNode t"
    "a_wait a q = t # R \<Longrightarrow> lh_next (st (WaitQ q)) = TaskNode t"
  using lh.empty_iff[OF assms] lh.first_eq[OF assms] by simp_all

subsection \<open>The switch on the abstract state\<close>

definition switchable :: "nat \<Rightarrow> asched \<Rightarrow> bool" where
  "switchable idle a \<longleftrightarrow> cur_ok idle a \<or> (\<exists>q. a_cur a \<in> set (a_wait a q))"

lemma aswitch_simps [simp]:
  "a_del (aswitch idle a) = a_del a" "a_wait (aswitch idle a) = a_wait a"
  "a_free (aswitch idle a) = a_free a" "set (a_run (aswitch idle a)) = set (a_run a)"
  "a_tasks (aswitch idle a) = a_tasks a"
  by (auto simp: aswitch_def a_tasks_def split: list.splits)

lemma aswitch_cur_ok: "cur_ok idle (aswitch idle a)"
  by (cases "a_run a"; cases "tl (a_run a)") (auto simp: aswitch_def cur_ok_def)

lemma aswitch_next: "a_cur (aswitch idle a) \<in> insert idle (set (a_run a))"
  by (cases "a_run a"; cases "tl (a_run a)") (auto simp: aswitch_def)

lemma aswitch_state_ok:
  assumes ok: "state_ok idle a st" and q: "queues_ok a" and idle: "idle \<notin> a_tasks a"
    and sw: "switchable idle a"
    and st': "st' = (\<lambda>t. if t = a_cur (aswitch idle a) then TASK_RUNNING
        else if t = a_cur a \<and> st t = TASK_RUNNING then TASK_READY else st t)"
  shows "state_ok idle (aswitch idle a) st'"
proof -
  let ?n = "a_cur (aswitch idle a)"
  have n: "?n \<in> insert idle (set (a_run a))" by (rule aswitch_next)
  have disj: "t \<notin> set (a_run a)" if "t \<in> set (a_del a) \<or> t \<in> set (a_wait a q)" for t q
    using that q by (auto simp: queues_ok_def)
  have "st' t = (if t = ?n then TASK_RUNNING else TASK_READY)" if "t \<in> insert idle (set (a_run a))" for t
    using that ok by (auto simp: st' state_ok_def)
  moreover have "st' t = TASK_ZOMBIE" if t: "t \<in> set (a_del a)" for t
  proof -
    have "st t = TASK_ZOMBIE" using t ok by (simp add: state_ok_def)
    moreover have "t \<noteq> ?n" using t n disj[of t] idle by (auto simp: a_tasks_def)
    ultimately show ?thesis by (simp add: st')
  qed
  moreover have "st' t = TASK_SLEEPING" if t: "t \<in> set (a_wait a q)" for t q
  proof -
    have "st t = TASK_SLEEPING" using t ok by (auto simp: state_ok_def)
    moreover have "t \<noteq> ?n" using t n disj[of t] idle by (auto simp: a_tasks_def)
    ultimately show ?thesis by (simp add: st')
  qed
  ultimately show ?thesis by (simp add: state_ok_def)
qed

lemma aswitch_same:
  assumes "a_cur (aswitch idle a) = a_cur a"
  shows "a_run a = [] \<or> (\<exists>R. a_run a = a_cur a # R)"
  using assms by (auto simp: aswitch_def split: list.splits if_splits)

subsection \<open>The switch\<close>

text \<open>What \<open>sched\<close> finds when it is called: the invariant, except that the running task may just
  have put itself on a wait queue.\<close>

definition sched_pre :: "'a sched_state_scheme \<Rightarrow> asched \<Rightarrow> bool" where
  "sched_pre s a \<longleftrightarrow>
     lists_rep (slinks s) qheads (qlists a) \<and> this_task s = a_cur a \<and> tr_ok s \<and>
     idle_task s \<notin> a_tasks a \<and> switchable (idle_task s) a \<and>
     state_ok (idle_task s) a (\<lambda>t. t_state (tasks s t)) \<and> stacks_ok s a \<and>
     buddy_rep s (a_free a) \<and> a_tasks a \<subseteq> owned s"

lemma sched_rep_pre: "sched_rep s a \<Longrightarrow> sched_pre s a"
  by (simp add: sched_rep_def sched_pre_def switchable_def)

lemma get_next_task_eq:
  assumes pre: "sched_pre s a"
  shows "\<exists>st. get_next_task s (a_cur a) =
      Some (s\<lparr>slinks := st\<rparr>, a_cur (aswitch (idle_task s) a)) \<and>
      lists_rep st qheads (qlists (aswitch (idle_task s) a))"
proof -
  have L: "lists_rep (slinks s) qheads (qlists a)" using pre by (simp add: sched_pre_def)
  let ?n = "a_cur (aswitch (idle_task s) a)"
  have ns: "t_state (tasks s ?n) \<noteq> TASK_SLEEPING"
    using pre aswitch_next[of "idle_task s" a]
    by (auto simp: sched_pre_def state_ok_def split: if_splits)
  have upd: "s\<lparr>slinks := slinks s\<rparr> = s" by simp
  show ?thesis
  proof (cases "a_run a")
    case Nil
    then have "aswitch (idle_task s) a = a\<lparr>a_cur := idle_task s\<rparr>" by (simp add: aswitch_def)
    moreover have "qlists (a\<lparr>a_cur := idle_task s\<rparr>) = qlists a" by (rule ext) (case_tac x; simp)
    ultimately show ?thesis using Nil L ns queue_first(1)[OF L]
      by (intro exI[of _ "slinks s"]) (simp add: get_next_task_def)
  next
    case (Cons t R)
    have q: "\<not> list_empty (slinks s) RunQ" "lh_next (slinks s RunQ) = TaskNode t"
      using queue_first(1)[OF L] queue_first(4)[OF L Cons] Cons by simp_all
    have qc: "qlists (b\<lparr>a_cur := c\<rparr>) = qlists b" for b c by (rule ext) (case_tac x; simp)
    show ?thesis
    proof (cases "t = a_cur a")
      case True
      let ?st = "list_move_tail (slinks s) (TaskNode t) RunQ"
      have a': "aswitch (idle_task s) a = a\<lparr>a_run := R @ [t], a_cur := hd (R @ [t])\<rparr>"
        using Cons True by (simp add: aswitch_def)
      have rep: "lists_rep ?st qheads (qlists (aswitch (idle_task s) a))"
        using queue_rotate[OF L Cons] unfolding a' by (simp add: qc)
      obtain R' where "R @ [t] = hd (R @ [t]) # R'" by (cases "R @ [t]") auto
      then have "a_run (aswitch (idle_task s) a) = ?n # R'" by (simp add: a')
      from queue_first(4)[OF rep this] have "lh_next (?st RunQ) = TaskNode ?n" .
      with True q ns rep show ?thesis
        by (intro exI[of _ ?st]) (simp add: get_next_task_def)
    next
      case False
      then have a': "aswitch (idle_task s) a = a\<lparr>a_cur := t\<rparr>" using Cons by (simp add: aswitch_def)
      with False q ns L show ?thesis
        by (intro exI[of _ "slinks s"]) (simp add: get_next_task_def qc)
    qed
  qed
qed

lemma task_stack_overflowed_ok: "good_stack t (t_tss s t) \<Longrightarrow> task_stack_overflowed s t = Some False"
  by (auto simp: good_stack_def task_stack_overflowed_def Let_def not_less not_le)

text \<open>The page allocator does not see the scheduler's data.\<close>

lemma buddy_rep_frame:
  "pfa s' = pfa s \<Longrightarrow> nr_physpages s' = nr_physpages s \<Longrightarrow> nr_freepages s' = nr_freepages s \<Longrightarrow>
   free_links s' = free_links s \<Longrightarrow> pagesem s' = pagesem s \<Longrightarrow>
   buddy_rep s' F = buddy_rep s F \<and> owned s' = owned s"
  by (simp add: buddy_rep_def owned_def)

lemma sched_switch:
  fixes s :: "'a sched_state_scheme"
  assumes pre: "sched_pre s a" and saved: "a_cur a \<in> set (a_del a) \<or> good_stack (a_cur a) saved"
  defines "a' \<equiv> aswitch (idle_task s) a"
  shows "\<exists>s'. sched saved s = Some (s', a_cur a' \<noteq> a_cur a) \<and> sched_rep s' a' \<and>
    idle_task s' = idle_task s \<and> nr_physpages s' = nr_physpages s \<and>
    sched_state.more s' = sched_state.more s"
proof -
  let ?n = "a_cur a'" and ?c = "a_cur a"
  obtain st where st: "get_next_task s ?c = Some (s\<lparr>slinks := st\<rparr>, ?n)"
    "lists_rep st qheads (qlists a')"
    using get_next_task_eq[OF pre] unfolding a'_def by auto
  have pre': "this_task s = ?c" "tr_ok s" "idle_task s \<notin> a_tasks a" "switchable (idle_task s) a"
    "state_ok (idle_task s) a (\<lambda>t. t_state (tasks s t))" "stacks_ok s a"
    "buddy_rep s (a_free a)" "a_tasks a \<subseteq> owned s" "queues_ok a"
    using pre by (auto simp: sched_pre_def intro: queues_okI)
  have a': "a_del a' = a_del a" "a_wait a' = a_wait a" "a_free a' = a_free a"
    "set (a_run a') = set (a_run a)" "a_tasks a' = a_tasks a" "cur_ok (idle_task s) a'"
    by (simp_all add: a'_def aswitch_cur_ok)
  have n: "?n \<in> insert (idle_task s) (set (a_run a))" unfolding a'_def by (rule aswitch_next)
  show ?thesis
  proof (cases "?n = ?c")
    case True
    have "state_ok (idle_task s) a' (\<lambda>t. t_state (tasks s t))"
      using pre'(5) True by (simp add: state_ok_def a')
    moreover have "buddy_rep (s\<lparr>slinks := st\<rparr>) (a_free a)" "owned (s\<lparr>slinks := st\<rparr>) = owned s"
      using buddy_rep_frame[of "s\<lparr>slinks := st\<rparr>" s] pre'(7) by simp_all
    ultimately show ?thesis using st True pre'
      by (simp add: sched_def sched_rep_def a' stacks_ok_def tr_ok_def)
  next
    case False
    define s1 where "s1 = s\<lparr>slinks := st\<rparr>"
    define s2 where "s2 = (if t_state (tasks s1 ?c) = TASK_RUNNING
        then upd_task ?c (\<lambda>x. x\<lparr>t_state := TASK_READY\<rparr>) s1 else s1)"
    define s3 where "s3 = upd_task ?n (\<lambda>x. x\<lparr>t_state := TASK_RUNNING\<rparr>) s2"
    have s1_sel: "tasks s1 = tasks s" "tsss s1 = tsss s" by (simp_all add: s1_def)
    have fr: "slinks s3 = st" "idle_task s3 = idle_task s" "this_task s3 = ?c" "tr_ok s3"
      "tsss s3 = tsss s" "pfa s3 = pfa s" "nr_physpages s3 = nr_physpages s"
      "sched_state.more s3 = sched_state.more s"
      "nr_freepages s3 = nr_freepages s" "free_links s3 = free_links s" "pagesem s3 = pagesem s"
      using pre'(1,2) by (simp_all add: s3_def s2_def s1_def upd_task_def tr_ok_def)
    have sts: "(\<lambda>t. t_state (tasks s3 t)) = (\<lambda>t. if t = ?n then TASK_RUNNING
        else if t = ?c \<and> t_state (tasks s t) = TASK_RUNNING then TASK_READY else t_state (tasks s t))"
      using False by (auto simp: s3_def s2_def s1_def fun_eq_iff)
    have n18: "?n < 2 ^ 18" "good_stack ?n (t_tss s1 ?n)"
      using pre'(6) n pre'(3,9) by (auto simp: stacks_ok_def a_tasks_def s1_sel queues_ok_def)
    obtain s4 where s4: "switch_task saved s3 ?c ?n = Some s4" "tr_ok s4"
      "s4 = s3\<lparr>gdt := gdt s4, task_reg := task_reg s4, this_task := ?n,
           tsss := (tsss s)(tss_addr ?c := saved)\<rparr>"
      using switch_task_eq[OF fr(4) n18(1), of saved ?c] fr by auto
    have run: "sched saved s = Some (s4, True)"
      using st(1) False task_stack_overflowed_ok[OF n18(2)] s4(1) pre'(1)
      by (simp add: sched_def s1_def[symmetric] s2_def[symmetric] s3_def[symmetric])
    have sel4: "slinks s4 = st" "idle_task s4 = idle_task s" "this_task s4 = ?n"
      "tasks s4 = tasks s3" "tsss s4 = (tsss s)(tss_addr ?c := saved)" "pfa s4 = pfa s"
      "sched_state.more s4 = sched_state.more s" "nr_physpages s4 = nr_physpages s" "nr_freepages s4 = nr_freepages s"
      "free_links s4 = free_links s" "pagesem s4 = pagesem s"
      using fr by (subst s4(3); simp)+
    have "stacks_ok s4 a'"
      unfolding stacks_ok_def sel4 a'
    proof (intro ballI conjI impI)
      fix t assume t: "t \<in> insert (idle_task s) (a_tasks a)"
      show t18: "t < 2 ^ 18" using t pre'(6) by (auto simp: stacks_ok_def)
      assume nd: "t \<notin> set (a_del a)"
      have c18: "?c < 2 ^ 18"
        using pre'(4,6) by (auto simp: stacks_ok_def switchable_def cur_ok_def a_tasks_def)
      show "good_stack t (((tsss s)(tss_addr ?c := saved)) (tss_addr t))"
        using t nd saved pre'(6) tss_addr_inj[OF t18 c18] by (auto simp: stacks_ok_def)
    qed
    moreover have "state_ok (idle_task s) a' (\<lambda>t. t_state (tasks s4 t))"
      unfolding sel4(4) sts a'_def by (rule aswitch_state_ok[OF pre'(5,9,3,4) refl])
    ultimately have "sched_rep s4 a'"
      using st(2) s4(2) pre'(3,7,8) a'(6) buddy_rep_frame[of s4 s] sel4
      by (simp add: sched_rep_def a')
    with run False sel4 show ?thesis by auto
  qed
qed

subsection \<open>The operations\<close>

lemma sched_repD:
  assumes "sched_rep s a"
  shows "lists_rep (slinks s) qheads (qlists a)" "this_task s = a_cur a" "tr_ok s"
    "idle_task s \<notin> a_tasks a" "cur_ok (idle_task s) a"
    "state_ok (idle_task s) a (\<lambda>t. t_state (tasks s t))" "stacks_ok s a"
    "buddy_rep s (a_free a)" "a_tasks a \<subseteq> owned s" "queues_ok a"
  using assms by (auto simp: sched_rep_def intro: queues_okI)

text \<open>A task that can be made runnable: it is on no queue, is not the idle task, owns its page and
  has an initialised context.\<close>

definition spawnable :: "'a sched_state_scheme \<Rightarrow> asched \<Rightarrow> nat \<Rightarrow> bool" where
  "spawnable s a t \<longleftrightarrow> t \<notin> a_tasks a \<and> t \<noteq> idle_task s \<and> t \<noteq> this_task s \<and> t \<in> owned s \<and> t < 2 ^ 18 \<and>
     good_stack t (t_tss s t)"

lemma task_to_runq_frame [simp]:
  "idle_task (task_to_runq s t) = idle_task s"
  "sched_state.more (task_to_runq s t) = sched_state.more s"
  by (simp_all add: task_to_runq_def upd_task_def)

lemma task_to_runq_rep:
  assumes rep: "sched_rep s a" and t: "spawnable s a t"
  shows "sched_rep (task_to_runq s t) (a\<lparr>a_run := a_run a @ [t]\<rparr>)"
proof -
  note r = sched_repD[OF rep]
  let ?s = "task_to_runq s t" and ?a = "a\<lparr>a_run := a_run a @ [t]\<rparr>"
  have sel: "slinks ?s = list_add_tail (slinks s) (TaskNode t) RunQ" "this_task ?s = this_task s"
    "idle_task ?s = idle_task s" "tsss ?s = tsss s" "tr_ok ?s = tr_ok s"
    "tasks ?s = (tasks s)(t := (tasks s t)\<lparr>t_state := TASK_READY\<rparr>)"
    by (simp_all add: task_to_runq_def upd_task_def tr_ok_def)
  have fr: "buddy_rep ?s (a_free a) = buddy_rep s (a_free a) \<and> owned ?s = owned s"
    by (rule buddy_rep_frame) (simp_all add: task_to_runq_def upd_task_def)
  have tasks: "a_tasks ?a = insert t (a_tasks a)" by (auto simp: a_tasks_def)
  have nt: "t \<notin> a_tasks a" "t \<noteq> idle_task s" "t \<noteq> a_cur a" using t r(2) by (auto simp: spawnable_def)
  have "lists_rep (slinks ?s) qheads (qlists ?a)"
    unfolding sel by (rule queue_tail(1)[OF r(1) nt(1)])
  moreover have "cur_ok (idle_task s) ?a" using r(5) by (auto simp: cur_ok_def)
  moreover have "state_ok (idle_task s) ?a (\<lambda>x. t_state (tasks ?s x))"
    using r(6) nt unfolding sel by (auto simp: state_ok_def a_tasks_def)
  moreover have "stacks_ok ?s ?a" unfolding stacks_ok_def sel tasks
    using r(7) t by (auto simp: stacks_ok_def spawnable_def)
  ultimately show ?thesis using r(2-4,8,9) fr nt t
    by (simp add: sched_rep_def sel tasks spawnable_def)
qed

lemma queues_ok_sleeper:
  assumes "queues_ok a" "a_wait a q = t # ts"
  shows "t \<notin> set (a_run a)" "t \<notin> set (a_del a)" "t \<notin> set ts" "t \<in> set (a_wait a p) \<Longrightarrow> p = q"
proof -
  have "distinct (a_wait a q)" using assms(1) by (simp add: queues_ok_def)
  then have "t \<in> set (a_wait a q)" "distinct (t # ts)" using assms(2) by simp_all
  with assms(1) show "t \<notin> set (a_run a)" "t \<notin> set (a_del a)" "t \<notin> set ts"
    "t \<in> set (a_wait a p) \<Longrightarrow> p = q"
    unfolding queues_ok_def disjoint_iff by (simp_all, blast+)
qed

lemma state_ok_mono:
  assumes "state_ok idle a st" "set (a_run b) \<subseteq> set (a_run a)" "set (a_del b) \<subseteq> set (a_del a)"
    "\<And>q. set (a_wait b q) \<subseteq> set (a_wait a q)" "a_cur b = a_cur a"
  shows "state_ok idle b st"
  using assms unfolding state_ok_def by (metis insert_iff subsetD)

text \<open>A sleeper taken off its wait queue can be made runnable.\<close>

lemma wake_first:
  assumes rep: "sched_rep s a" and q: "a_wait a q = t # ts"
  shows "sched_rep (task_to_runq (s\<lparr>slinks := list_del (slinks s) (TaskNode t)\<rparr>) t)
      (a\<lparr>a_run := a_run a @ [t], a_wait := (a_wait a)(q := ts)\<rparr>)"
proof -
  note r = sched_repD[OF rep]
  let ?s = "s\<lparr>slinks := list_del (slinks s) (TaskNode t)\<rparr>" and ?a = "a\<lparr>a_wait := (a_wait a)(q := ts)\<rparr>"
  note sl = queues_ok_sleeper[OF r(10) q]
  have "t \<in> set (a_wait a q)" using q by simp
  then have t: "t \<in> a_tasks a" by (auto simp: a_tasks_def)
  have notin: "t \<notin> a_tasks ?a" using sl by (auto simp: a_tasks_def split: if_splits)
  have sub: "a_tasks ?a \<subseteq> a_tasks a" using q by (auto simp: a_tasks_def split: if_splits)
  have fr: "buddy_rep ?s (a_free a) = buddy_rep s (a_free a) \<and> owned ?s = owned s"
    by (rule buddy_rep_frame) simp_all
  have "t \<noteq> a_cur a" using r(4,5) t sl(1,2) by (auto simp: cur_ok_def)
  then have sp: "spawnable ?s ?a t" using r t notin sl(2) fr by (auto simp: spawnable_def stacks_ok_def)
  have rp: "sched_rep ?s ?a"
  proof -
    have "state_ok (idle_task s) ?a (\<lambda>t. t_state (tasks s t))"
      by (rule state_ok_mono[OF r(6)]) (use q in auto)
    moreover have "stacks_ok ?s ?a" using r(7) sub by (auto simp: stacks_ok_def)
    moreover have "tr_ok ?s" "cur_ok (idle_task s) ?a" using r(3,5) by (simp_all add: tr_ok_def cur_ok_def)
    ultimately show ?thesis
      using r(2,4,8,9) sub fr queue_del_wait[OF r(1) q] by (auto simp: sched_rep_def)
  qed
  have "?a\<lparr>a_run := a_run ?a @ [t]\<rparr> = a\<lparr>a_run := a_run a @ [t], a_wait := (a_wait a)(q := ts)\<rparr>"
    by (cases a) simp
  with task_to_runq_rep[OF rp sp] show ?thesis by (simp only:)
qed

lemma wake_one_rep:
  assumes rep: "sched_rep s a"
  shows "\<exists>s'. wake_one s q = Some s' \<and> sched_rep s' (awake_one q a) \<and>
    idle_task s' = idle_task s \<and> sched_state.more s' = sched_state.more s"
proof (cases "a_wait a q")
  case Nil
  with rep queue_first(3)[OF sched_repD(1)[OF rep]] show ?thesis
    by (simp add: wake_one_def awake_one_def)
next
  case (Cons t ts)
  with wake_first[OF rep Cons] queue_first(3)[OF sched_repD(1)[OF rep]]
    queue_first(5)[OF sched_repD(1)[OF rep] Cons]
  show ?thesis by (simp add: wake_one_def awake_one_def)
qed

lemma wake_up_rep:
  fixes s :: "'a sched_state_scheme"
  assumes rep: "sched_rep s a"
  shows "\<exists>s'. wake_up s q = Some s' \<and> sched_rep s' (awake_up q a) \<and>
    idle_task s' = idle_task s \<and> sched_state.more s' = sched_state.more s"
proof -
  define Inv where "Inv s' xs \<longleftrightarrow> (\<exists>ys ts. a_wait a q = ys @ ts \<and> xs = map TaskNode ts \<and>
      sched_rep s' (a\<lparr>a_run := a_run a @ ys, a_wait := (a_wait a)(q := ts)\<rparr>) \<and>
      idle_task s' = idle_task s \<and> sched_state.more s' = sched_state.more s)"
    for s' :: "'a sched_state_scheme" and xs
  have init: "Inv s (map TaskNode (a_wait a q))"
    unfolding Inv_def by (rule exI[of _ "[]"], rule exI[of _ "a_wait a q"]) (use rep in simp)
  have nxt: "x \<noteq> WaitQ q \<and> lh_next (slinks s' x) = hd (xs @ [WaitQ q])" if "Inv s' (x # xs)" for s' x xs
  proof -
    from that obtain ys t ts where *: "x = TaskNode t" "xs = map TaskNode ts"
      "sched_rep s' (a\<lparr>a_run := a_run a @ ys, a_wait := (a_wait a)(q := t # ts)\<rparr>)"
      by (auto simp: Inv_def)
    from lh.next_eq[OF sched_repD(1)[OF *(3)], of "WaitQ q"] * show ?thesis by simp
  qed
  have step: "\<exists>s''. wake_body x s' = Some s'' \<and> Inv s'' xs" if "Inv s' (x # xs)" for s' x xs
  proof -
    from that obtain ys t ts where *: "x = TaskNode t" "xs = map TaskNode ts"
      "a_wait a q = ys @ t # ts"
      "sched_rep s' (a\<lparr>a_run := a_run a @ ys, a_wait := (a_wait a)(q := t # ts)\<rparr>)"
      "idle_task s' = idle_task s" "sched_state.more s' = sched_state.more s"
      by (auto simp: Inv_def)
    from wake_first[OF *(4), of q t ts] have
      "sched_rep (task_to_runq (s'\<lparr>slinks := list_del (slinks s') (TaskNode t)\<rparr>) t)
        (a\<lparr>a_run := a_run a @ (ys @ [t]), a_wait := (a_wait a)(q := ts)\<rparr>)" by simp
    then have "Inv (task_to_runq (s'\<lparr>slinks := list_del (slinks s') (TaskNode t)\<rparr>) t) xs"
      unfolding Inv_def using *(2,3,5,6) by (intro exI[of _ "ys @ [t]"] exI[of _ ts]) simp
    then show ?thesis by (simp add: wake_body_def *(1))
  qed
  have "lh_next (slinks s (WaitQ q)) = hd (map TaskNode (a_wait a q) @ [WaitQ q])"
    using queue_first(3,5)[OF sched_repD(1)[OF rep], of q]
    by (cases "a_wait a q") (auto simp: list_empty_def)
  from list_for_each_entry_safe_visits[where Inv = Inv and links = slinks and body = wake_body, OF init this nxt step]
  obtain s' where "wake_up s q = Some s'" "Inv s' []" unfolding wake_up_def by blast
  then show ?thesis by (auto simp: Inv_def awake_up_def)
qed

lemma cur_runs:
  assumes "sched_rep s a" "a_cur a \<noteq> idle_task s" "a_cur a \<notin> set (a_del a)"
  obtains R where "a_run a = a_cur a # R" "a_cur a \<notin> set R" "a_cur a \<in> set (a_run a)"
proof -
  from sched_repD(5)[OF assms(1)] assms(2,3) obtain R where R: "a_run a = a_cur a # R"
    by (auto simp: cur_ok_def)
  with sched_repD(10)[OF assms(1)] have "a_cur a \<notin> set R" by (simp add: queues_ok_def)
  with R show thesis by (intro that[of R]) simp_all
qed

lemma sleep_on_rep:
  assumes rep: "sched_rep s a" and c: "a_cur a \<noteq> idle_task s" "a_cur a \<notin> set (a_del a)"
    and saved: "good_stack (a_cur a) saved"
  shows "\<exists>s'. sleep_on saved s q = Some (s', True) \<and> sched_rep s' (asleep (idle_task s) q a) \<and>
    idle_task s' = idle_task s \<and> nr_physpages s' = nr_physpages s \<and>
    sched_state.more s' = sched_state.more s"
proof -
  note r = sched_repD[OF rep]
  let ?c = "a_cur a"
  obtain R where R: "a_run a = ?c # R" "?c \<notin> set R" "?c \<in> set (a_run a)"
    using cur_runs[OF rep c] .
  define a0 where "a0 = a\<lparr>a_run := remove1 ?c (a_run a)\<rparr>"
  define a1 where "a1 = a0\<lparr>a_wait := (a_wait a0)(q := a_wait a0 q @ [?c])\<rparr>"
  define s1 where "s1 = (upd_task ?c (\<lambda>x. x\<lparr>t_state := TASK_SLEEPING\<rparr>) s)\<lparr>slinks :=
      list_add_tail (list_del (slinks s) (TaskNode ?c)) (TaskNode ?c) (WaitQ q)\<rparr>"
  have run: "sleep_on saved s q = sched saved s1"
    by (simp add: sleep_on_def Let_def s1_def r(2) upd_task_def)
  have notin: "?c \<notin> a_tasks a0"
    using r(10) R c(2) by (auto simp: a0_def a_tasks_def queues_ok_def disjoint_iff)
  have L: "lists_rep (slinks s1) qheads (qlists a1)"
    unfolding a1_def s1_def
    using queue_tail(2)[OF queue_del_run[OF r(1) R(3)] notin[unfolded a0_def]] by (simp add: a0_def)
  have tasks1: "a_tasks a1 = a_tasks a" "a_del a1 = a_del a" "a_cur a1 = ?c" "a_free a1 = a_free a"
    using R by (auto simp: a1_def a0_def a_tasks_def split: if_splits)
  have fr: "buddy_rep s1 (a_free a) = buddy_rep s (a_free a) \<and> owned s1 = owned s"
    by (rule buddy_rep_frame) (simp_all add: s1_def upd_task_def)
  have sel: "this_task s1 = this_task s" "idle_task s1 = idle_task s" "tsss s1 = tsss s"
    "tr_ok s1 = tr_ok s" "nr_physpages s1 = nr_physpages s"
    "sched_state.more s1 = sched_state.more s"
    "tasks s1 = (tasks s)(?c := (tasks s ?c)\<lparr>t_state := TASK_SLEEPING\<rparr>)"
    by (simp_all add: s1_def upd_task_def tr_ok_def)
  have "switchable (idle_task s) a1" by (auto simp: switchable_def a1_def tasks1 a0_def)
  moreover have "state_ok (idle_task s) a1 (\<lambda>t. t_state (tasks s1 t))"
    using r(6,10) R c unfolding sel by (auto simp: state_ok_def a1_def a0_def queues_ok_def disjoint_iff)
  ultimately have "sched_pre s1 a1"
    using L r fr by (simp add: sched_pre_def sel tasks1 stacks_ok_def)
  from sched_switch[OF this, of saved] saved tasks1 obtain s' where
    s': "sched saved s1 = Some (s', a_cur (aswitch (idle_task s) a1) \<noteq> ?c)"
    "sched_rep s' (aswitch (idle_task s) a1)" "idle_task s' = idle_task s" "nr_physpages s' = nr_physpages s"
    "sched_state.more s' = sched_state.more s"
    by (auto simp: sel)
  have "aswitch (idle_task s) a1 = asleep (idle_task s) q a"
    by (simp add: asleep_def a1_def a0_def)
  moreover have "a_cur (aswitch (idle_task s) a1) \<noteq> ?c"
    using aswitch_next[of "idle_task s" a1] R c by (auto simp: a1_def a0_def)
  ultimately show ?thesis using s' run by auto
qed

lemma do_exit_rep:
  assumes rep: "sched_rep s a" and c: "a_cur a \<noteq> idle_task s" "a_cur a \<notin> set (a_del a)"
  shows "\<exists>s'. do_exit saved s code = Some s' \<and> sched_rep s' (aexit (idle_task s) a) \<and>
    idle_task s' = idle_task s \<and> nr_physpages s' = nr_physpages s \<and>
    sched_state.more s' = sched_state.more s"
proof -
  note r = sched_repD[OF rep]
  let ?c = "a_cur a"
  obtain R where R: "a_run a = ?c # R" "?c \<notin> set R" "?c \<in> set (a_run a)"
    using cur_runs[OF rep c] .
  define a1 where "a1 = a\<lparr>a_run := remove1 ?c (a_run a), a_del := a_del a @ [?c]\<rparr>"
  define s1 where "s1 = upd_task ?c (\<lambda>x. x\<lparr>t_exit_code := code, t_state := TASK_ZOMBIE\<rparr>)
      (s\<lparr>slinks := list_move_tail (slinks s) (TaskNode ?c) DelQ\<rparr>)"
  have run: "do_exit saved s code = do { (s, switched) \<leftarrow> sched saved s1; BUG_ON (\<not> switched); Some s }"
    by (simp add: do_exit_def s1_def r(2) upd_task_def Let_def)
  have L: "lists_rep (slinks s1) qheads (qlists a1)"
    using queue_exit[OF r(1) R(3)] by (simp add: s1_def upd_task_def a1_def)
  have tasks1: "a_tasks a1 = a_tasks a" "set (a_del a1) = insert ?c (set (a_del a))" "a_cur a1 = ?c"
    "a_free a1 = a_free a" "a_wait a1 = a_wait a" "a_run a1 = R"
    using R by (auto simp: a1_def a_tasks_def)
  have fr: "buddy_rep s1 (a_free a) = buddy_rep s (a_free a) \<and> owned s1 = owned s"
    by (rule buddy_rep_frame) (simp_all add: s1_def upd_task_def)
  have sel: "this_task s1 = this_task s" "idle_task s1 = idle_task s" "tsss s1 = tsss s"
    "tr_ok s1 = tr_ok s" "nr_physpages s1 = nr_physpages s"
    "sched_state.more s1 = sched_state.more s"
    "tasks s1 = (tasks s)(?c := (tasks s ?c)\<lparr>t_exit_code := code, t_state := TASK_ZOMBIE\<rparr>)"
    by (simp_all add: s1_def upd_task_def tr_ok_def)
  have "switchable (idle_task s) a1" by (auto simp: switchable_def cur_ok_def tasks1)
  moreover have "state_ok (idle_task s) a1 (\<lambda>t. t_state (tasks s1 t))"
    using r(6,10) R c unfolding sel state_ok_def tasks1 by (auto simp: queues_ok_def disjoint_iff)
  ultimately have "sched_pre s1 a1"
    using L r fr by (simp add: sched_pre_def sel tasks1 stacks_ok_def)
  from sched_switch[OF this, of saved] tasks1 obtain s' where
    s': "sched saved s1 = Some (s', a_cur (aswitch (idle_task s) a1) \<noteq> ?c)"
    "sched_rep s' (aswitch (idle_task s) a1)" "idle_task s' = idle_task s" "nr_physpages s' = nr_physpages s"
    "sched_state.more s' = sched_state.more s"
    by (auto simp: sel)
  have "aswitch (idle_task s) a1 = aexit (idle_task s) a"
    by (simp add: aexit_def a1_def)
  moreover have "a_cur (aswitch (idle_task s) a1) \<noteq> ?c"
    using aswitch_next[of "idle_task s" a1] R c tasks1 by auto
  ultimately show ?thesis using s' run by auto
qed

lemma flush_one_rep:
  assumes rep: "sched_rep s a" and D: "a_del a = t # ts" and c: "a_cur a \<noteq> t"
  shows "\<exists>s'. flush_one (TaskNode t) s = Some s' \<and>
    sched_rep s' (a\<lparr>a_del := ts, a_free := a_free a @ [t]\<rparr>) \<and>
    idle_task s' = idle_task s \<and> nr_physpages s' = nr_physpages s \<and>
    sched_state.more s' = sched_state.more s"
proof -
  note r = sched_repD[OF rep]
  let ?s0 = "s\<lparr>slinks := list_del (slinks s) (TaskNode t)\<rparr>"
  let ?a = "a\<lparr>a_del := ts, a_free := a_free a @ [t]\<rparr>"
  define s' where "s' = free_post ?s0 t"
  have t: "t \<in> a_tasks a" "t \<in> owned s" "t < 2 ^ 18" "t \<noteq> idle_task s" "t_state (tasks s t) = TASK_ZOMBIE"
    using r D by (auto simp: a_tasks_def stacks_ok_def state_ok_def)
  have nt: "t \<notin> a_tasks ?a" "a_tasks a = insert t (a_tasks ?a)"
    using r(10) D by (auto simp: a_tasks_def queues_ok_def disjoint_iff)
  have fr: "buddy_rep ?s0 (a_free a) = buddy_rep s (a_free a) \<and> owned ?s0 = owned s"
    by (rule buddy_rep_frame) simp_all
  have rep0: "buddy_rep ?s0 (a_free a)" using fr r(8) by simp
  have o: "t < unat (nr_physpages s)" "pg_count (pfa s t) = 1" using t(2) by (simp_all add: owned_def)
  then have nF: "t \<notin> set (a_free a)" using buddy_repD(6)[OF r(8), of t] by auto
  have run: "flush_one (TaskNode t) s = Some s'"
    using t(3,5) o buddy_repD(2)[OF r(8)]
    by (simp add: flush_one_def free_page_def s'_def free_pages_last)
  have sel: "slinks s' = list_del (slinks s) (TaskNode t)" "this_task s' = this_task s"
    "idle_task s' = idle_task s" "tsss s' = tsss s" "tr_ok s' = tr_ok s" "tasks s' = tasks s"
    "nr_physpages s' = nr_physpages s" "owned s' = owned s - {t}"
    "sched_state.more s' = sched_state.more s"
    by (auto simp: s'_def free_post_def tr_ok_def owned_def)
  have "buddy_rep s' (a_free a @ [t])"
    unfolding s'_def by (rule free_post_rep[OF rep0]) (use o nF in simp_all)
  moreover have "lists_rep (slinks s') qheads (qlists ?a)"
  proof -
    have "qlists ?a = qlists (a\<lparr>a_del := ts\<rparr>)" by (rule ext) (case_tac x; simp)
    with queue_del_del[OF r(1) D] show ?thesis by (simp add: sel)
  qed
  moreover have "cur_ok (idle_task s) ?a" using r(5) D c by (auto simp: cur_ok_def)
  moreover have "state_ok (idle_task s) ?a (\<lambda>x. t_state (tasks s x))"
    by (rule state_ok_mono[OF r(6)]) (use D in auto)
  moreover have "stacks_ok s' ?a"
    using r(7) nt D t(4) by (auto simp: stacks_ok_def sel)
  ultimately have "sched_rep s' ?a"
    using r(2-4,9) nt by (auto simp: sched_rep_def sel)
  with run sel show ?thesis by auto
qed

lemma sched_tail_rep:
  fixes s :: "'a sched_state_scheme"
  assumes rep: "sched_rep s a" and c: "a_cur a \<notin> set (a_del a)"
  shows "\<exists>s'. sched_tail s = Some s' \<and> sched_rep s' (aflush a) \<and> idle_task s' = idle_task s \<and>
    nr_physpages s' = nr_physpages s \<and> sched_state.more s' = sched_state.more s"
proof -
  define Inv where "Inv s' xs \<longleftrightarrow> (\<exists>ys ts. a_del a = ys @ ts \<and> xs = map TaskNode ts \<and>
      sched_rep s' (a\<lparr>a_del := ts, a_free := a_free a @ ys\<rparr>) \<and> idle_task s' = idle_task s \<and>
      nr_physpages s' = nr_physpages s \<and> sched_state.more s' = sched_state.more s)"
    for s' :: "'a sched_state_scheme" and xs
  have init: "Inv s (map TaskNode (a_del a))"
    unfolding Inv_def by (rule exI[of _ "[]"], rule exI[of _ "a_del a"]) (use rep in simp)
  have nxt: "x \<noteq> DelQ \<and> lh_next (slinks s' x) = hd (xs @ [DelQ])" if "Inv s' (x # xs)" for s' x xs
  proof -
    from that obtain ys t ts where *: "x = TaskNode t" "xs = map TaskNode ts"
      "sched_rep s' (a\<lparr>a_del := t # ts, a_free := a_free a @ ys\<rparr>)" by (auto simp: Inv_def)
    from lh.next_eq[OF sched_repD(1)[OF *(3)], of DelQ] * show ?thesis by simp
  qed
  have step: "\<exists>s''. flush_one x s' = Some s'' \<and> Inv s'' xs" if "Inv s' (x # xs)" for s' x xs
  proof -
    from that obtain ys t ts where *: "x = TaskNode t" "xs = map TaskNode ts" "a_del a = ys @ t # ts"
      "sched_rep s' (a\<lparr>a_del := t # ts, a_free := a_free a @ ys\<rparr>)" "idle_task s' = idle_task s"
      "nr_physpages s' = nr_physpages s" "sched_state.more s' = sched_state.more s"
      by (auto simp: Inv_def)
    from flush_one_rep[OF *(4), of t ts] c *(3) obtain s'' where
      "flush_one x s' = Some s''" "sched_rep s'' (a\<lparr>a_del := ts, a_free := a_free a @ (ys @ [t])\<rparr>)"
      "idle_task s'' = idle_task s'" "nr_physpages s'' = nr_physpages s'"
      "sched_state.more s'' = sched_state.more s'" by (auto simp: *(1))
    then show ?thesis unfolding Inv_def using *(2,3,5-7)
      by (intro exI[of _ s''] conjI exI[of _ "ys @ [t]"] exI[of _ ts]) simp_all
  qed
  have "lh_next (slinks s DelQ) = hd (map TaskNode (a_del a) @ [DelQ])"
    using queue_first(2)[OF sched_repD(1)[OF rep]] lh.first_eq[OF sched_repD(1)[OF rep], of DelQ]
    by (cases "a_del a") (auto simp: list_empty_def)
  from list_for_each_entry_safe_visits[where Inv = Inv and links = slinks and body = flush_one,
      OF init this nxt step]
  obtain s' where "flush_delq s = Some s'" "Inv s' []" unfolding flush_delq_def by blast
  moreover have "a_del a = [] \<Longrightarrow> aflush a = a" by (cases a) (simp add: aflush_def)
  ultimately show ?thesis
    using rep queue_first(2)[OF sched_repD(1)[OF rep]]
    by (cases "a_del a = []") (simp_all add: sched_tail_def, auto simp: Inv_def aflush_def)
qed

subsection \<open>All operations\<close>

text \<open>
  What can happen to the scheduler: a timer or device interrupt ends in \<open>sched\<close>, the running
  task sleeps or exits, some queue is woken, a task is created, and a task resumes in \<open>sched\<close>
  after its switch. \<open>sop_ok\<close> says what the kernel guarantees of the caller: the idle task
  neither sleeps nor exits, an exited task does nothing more, and the register state the processor
  saves is that of a stack that has not overflowed.
\<close>

datatype sop = SInterrupt ia32_tss | SSleep nat ia32_tss | SWakeOne nat | SWakeUp nat
  | SExit u32 ia32_tss | SSpawn nat | SResume

fun sop_run :: "sop \<Rightarrow> 'a sched_state_scheme \<Rightarrow> 'a sched_state_scheme option" where
  "sop_run (SInterrupt saved) s = map_option fst (sched saved s)"
| "sop_run (SSleep q saved) s = map_option fst (sleep_on saved s q)"
| "sop_run (SWakeOne q) s = wake_one s q"
| "sop_run (SWakeUp q) s = wake_up s q"
| "sop_run (SExit code saved) s = do_exit saved s code"
| "sop_run (SSpawn t) s = Some (task_to_runq s t)"
| "sop_run SResume s = sched_tail s"

fun sop_spec :: "nat \<Rightarrow> sop \<Rightarrow> asched \<Rightarrow> asched" where
  "sop_spec idle (SInterrupt _) a = aswitch idle a"
| "sop_spec idle (SSleep q _) a = asleep idle q a"
| "sop_spec idle (SWakeOne q) a = awake_one q a"
| "sop_spec idle (SWakeUp q) a = awake_up q a"
| "sop_spec idle (SExit _ _) a = aexit idle a"
| "sop_spec idle (SSpawn t) a = a\<lparr>a_run := a_run a @ [t]\<rparr>"
| "sop_spec idle SResume a = aflush a"

fun sop_ok :: "'a sched_state_scheme \<Rightarrow> asched \<Rightarrow> sop \<Rightarrow> bool" where
  "sop_ok s a (SInterrupt saved) \<longleftrightarrow> a_cur a \<in> set (a_del a) \<or> good_stack (a_cur a) saved"
| "sop_ok s a (SSleep q saved) \<longleftrightarrow>
     a_cur a \<noteq> idle_task s \<and> a_cur a \<notin> set (a_del a) \<and> good_stack (a_cur a) saved"
| "sop_ok s a (SExit _ _) \<longleftrightarrow> a_cur a \<noteq> idle_task s \<and> a_cur a \<notin> set (a_del a)"
| "sop_ok s a (SSpawn t) \<longleftrightarrow> spawnable s a t"
| "sop_ok s a SResume \<longleftrightarrow> a_cur a \<notin> set (a_del a)"
| "sop_ok s a _ \<longleftrightarrow> True"

lemma sop_simulation:
  assumes rep: "sched_rep s a" and ok: "sop_ok s a op"
  shows "\<exists>s'. sop_run op s = Some s' \<and> sched_rep s' (sop_spec (idle_task s) op a) \<and>
    idle_task s' = idle_task s \<and> sched_state.more s' = sched_state.more s"
proof (cases op)
  case (SInterrupt saved)
  with ok sched_switch[OF sched_rep_pre[OF rep], of saved] show ?thesis by auto
next
  case (SSleep q saved)
  with ok sleep_on_rep[OF rep, of saved q] show ?thesis by auto
next
  case (SExit code saved)
  with ok do_exit_rep[OF rep, of saved code] show ?thesis by auto
next
  case SResume
  with ok sched_tail_rep[OF rep] show ?thesis by auto
qed (use ok wake_one_rep[OF rep] wake_up_rep[OF rep] task_to_runq_rep[OF rep] in auto)

text \<open>Reachable states: any interleaving of the operations, from any state of the invariant.\<close>

inductive sched_steps :: "'a sched_state_scheme \<Rightarrow> asched \<Rightarrow> 'a sched_state_scheme \<Rightarrow> asched \<Rightarrow> bool"
  for s0 :: "'a sched_state_scheme" and a0 :: asched where
  start: "sched_steps s0 a0 s0 a0"
| step: "sched_steps s0 a0 s a \<Longrightarrow> sop_ok s a op \<Longrightarrow> sop_run op s = Some s' \<Longrightarrow>
    sched_steps s0 a0 s' (sop_spec (idle_task s) op a)"

lemma sched_steps_rep:
  assumes "sched_steps s0 a0 s a" "sched_rep s0 a0"
  shows "sched_rep s a"
  using assms by (induction rule: sched_steps.induct) (use sop_simulation in fastforce)+

subsection \<open>Round robin\<close>

lemma aswitch_rotate:
  assumes "a_run a = a_cur a # R"
  shows "aswitch idle a = a\<lparr>a_run := rotate1 (a_run a), a_cur := hd (rotate1 (a_run a))\<rparr>"
  using assms by (simp add: aswitch_def)

fun interrupts :: "ia32_tss list \<Rightarrow> 'a sched_state_scheme \<Rightarrow> 'a sched_state_scheme option" where
  "interrupts [] s = Some s"
| "interrupts (saved # svs) s = do { s \<leftarrow> sop_run (SInterrupt saved) s; interrupts svs s }"

lemma interrupts_rotate:
  assumes "sched_rep s a" "a_run a = a_cur a # R"
    and "\<forall>sv\<in>set svs. \<forall>t\<in>set (a_run a). good_stack t sv"
  shows "\<exists>s'. interrupts svs s = Some s' \<and>
    sched_rep s' (a\<lparr>a_run := rotate (length svs) (a_run a), a_cur := hd (rotate (length svs) (a_run a))\<rparr>)"
  using assms
proof (induction svs arbitrary: s a R)
  case Nil
  then have "a\<lparr>a_run := rotate 0 (a_run a), a_cur := hd (rotate 0 (a_run a))\<rparr> = a" by (cases a) simp
  with Nil(1) show ?case by simp
next
  case (Cons sv svs)
  let ?a = "a\<lparr>a_run := rotate1 (a_run a), a_cur := hd (rotate1 (a_run a))\<rparr>"
  have ok: "sop_ok s a (SInterrupt sv)" using Cons.prems(2,3) by simp
  from sop_simulation[OF Cons.prems(1) ok] obtain s1 where
    s1: "sop_run (SInterrupt sv) s = Some s1" "sched_rep s1 ?a"
    using aswitch_rotate[OF Cons.prems(2), of "idle_task s"] by auto
  have "a_run ?a = a_cur ?a # tl (rotate1 (a_run a))"
    using Cons.prems(2) by (cases "rotate1 (a_run a)") (auto dest: arg_cong[of _ _ length])
  from Cons.IH[OF s1(2) this] Cons.prems(3) obtain s2 where
    "interrupts svs s1 = Some s2"
    "sched_rep s2 (a\<lparr>a_run := rotate (length svs) (rotate1 (a_run a)),
       a_cur := hd (rotate (length svs) (rotate1 (a_run a)))\<rparr>)" by auto
  with s1(1) show ?case by (simp add: rotate1_rotate_swap del: sop_run.simps)
qed

subsection \<open>A running system\<close>

text \<open>Two tasks, in the frames 1 and 2, share the processor; the idle task lives in frame 3.\<close>

definition demo_links :: "snode lstore" where
  "demo_links = list_add_tail (list_add_tail (\<lambda>n. \<lparr>lh_next = n, lh_prev = n\<rparr>) (TaskNode 1) RunQ) (TaskNode 2) RunQ"

definition demo_sched :: sched_state where
  "demo_sched = ia32_gdt_finalize (buddy.extend (boot_pages 4)
     \<lparr>tasks = (\<lambda>_. zero_task\<lparr>t_state := TASK_READY\<rparr>)(1 := zero_task\<lparr>t_state := TASK_RUNNING\<rparr>),
      tsss = \<lambda>_. zero_tss\<lparr>tss_cs := CPL3\<rparr>, gdt = GDT, task_reg = 0, this_task = 1, ctx_pgd = \<lambda>_. 0,
      slinks = demo_links, idle_task = 3, next_pid = 2\<rparr>)"

definition demo_abs :: asched where
  "demo_abs = \<lparr>a_run = [1, 2], a_del = [], a_wait = \<lambda>_. [], a_cur = 1, a_free = []\<rparr>"

lemma demo_links_rep: "lists_rep demo_links qheads (qlists demo_abs)"
proof -
  let ?st = "\<lambda>n. \<lparr>lh_next = n, lh_prev = n\<rparr>"
  let ?a = "\<lparr>a_run = [], a_del = [], a_wait = \<lambda>_. [], a_cur = 1, a_free = []\<rparr>"
  have "qlists ?a h = []" for h by (cases h) simp_all
  then have "lists_rep ?st qheads (qlists ?a)" by (simp add: lists_rep_def dll_def)
  from queue_tail(1)[OF queue_tail(1)[OF this, of 1], of 2] show ?thesis
    by (simp add: demo_links_def demo_abs_def a_tasks_def)
qed

lemma demo_sched_sel [simp]:
  "slinks demo_sched = demo_links" "idle_task demo_sched = 3" "this_task demo_sched = 1"
  "tasks demo_sched = (\<lambda>_. zero_task\<lparr>t_state := TASK_READY\<rparr>)(1 := zero_task\<lparr>t_state := TASK_RUNNING\<rparr>)"
  "tsss demo_sched a = zero_tss\<lparr>tss_cs := CPL3\<rparr>" "tr_ok demo_sched"
  by (simp_all add: demo_sched_def ia32_gdt_finalize_def buddy.extend_def tr_ok_def)

lemma demo_sched_rep: "sched_rep demo_sched demo_abs"
proof -
  have "buddy_rep (boot_pages 4) []" "owned (boot_pages 4) = {..<4}"
    using boot_pages_abs[of 4] by (simp_all add: buddy_abs_def)
  moreover have "buddy_rep demo_sched [] = buddy_rep (boot_pages 4) [] \<and> owned demo_sched = owned (boot_pages 4)"
    by (simp add: buddy_rep_def owned_def demo_sched_def ia32_gdt_finalize_def buddy.extend_def)
  ultimately show ?thesis using demo_links_rep
    by (simp add: sched_rep_def) (simp add: demo_abs_def a_tasks_def cur_ok_def state_ok_def
        stacks_ok_def good_stack_def)
qed

subsection \<open>Properties\<close>

text \<open>C1. Whatever the order in which interrupts arrive and tasks sleep, are woken, exit, are
  created and resume, the scheduler refines the abstract queues and never panics: in every
  reachable state the invariant holds (the running task is the idle task, or has just exited, or is
  the head of the run queue; every task is on exactly one queue with the matching state; queues
  are well linked; the task register designates the running task), and every operation that is
  permitted there returns, performs the abstract transition and keeps the invariant. Exited tasks
  give their page back when the next task resumes.\<close>

theorem sched_refines:
  assumes "sched_rep s0 a0" "sched_steps s0 a0 s a" "sop_ok s a op"
  shows "sched_rep s a \<and> (\<exists>s'. sop_run op s = Some s' \<and> sched_rep s' (sop_spec (idle_task s) op a))"
  using sched_steps_rep[OF assms(2,1)] sop_simulation[OF _ assms(3)] by blast

theorem sched_refines_witness:
  "\<exists>s1 s2 s3. sop_run (SExit 7 zero_tss) demo_sched = Some s1 \<and> this_task s1 = 2 \<and>
     sop_run SResume s1 = Some s2 \<and> buddy_rep s2 [1] \<and>
     sop_run (SSleep 5 (zero_tss\<lparr>tss_cs := CPL3\<rparr>)) s2 = Some s3 \<and> this_task s3 = 3"
proof -
  let ?u = "zero_tss\<lparr>tss_cs := CPL3\<rparr>"
  let ?a1 = "sop_spec 3 (SExit 7 zero_tss) demo_abs"
  let ?a2 = "sop_spec 3 SResume ?a1"
  have g: "good_stack t ?u" for t by (simp add: good_stack_def)
  have a1: "?a1 = demo_abs\<lparr>a_run := [2], a_del := [1], a_cur := 2\<rparr>"
    by (simp add: aexit_def aswitch_def demo_abs_def)
  have a2: "?a2 = demo_abs\<lparr>a_run := [2], a_cur := 2, a_free := [1]\<rparr>"
    unfolding a1 by (simp add: aflush_def demo_abs_def)
  have st0: "sched_steps demo_sched demo_abs demo_sched demo_abs" by (rule sched_steps.start)
  have ok0: "sop_ok demo_sched demo_abs (SExit 7 zero_tss)" by (simp add: demo_abs_def)
  from sched_refines[OF demo_sched_rep st0 ok0] obtain s1 where
    s1: "sop_run (SExit 7 zero_tss) demo_sched = Some s1" "sched_rep s1 ?a1" by auto
  have i1: "idle_task s1 = 3"
    using do_exit_rep[OF demo_sched_rep, of zero_tss 7] s1(1) by (auto simp: demo_abs_def)
  have st1: "sched_steps demo_sched demo_abs s1 ?a1"
    using sched_steps.step[OF st0 ok0 s1(1)] by simp
  have ok1: "sop_ok s1 ?a1 SResume" unfolding a1 by (simp add: demo_abs_def)
  from sched_refines[OF demo_sched_rep st1 ok1] obtain s2 where
    s2: "sop_run SResume s1 = Some s2" "sched_rep s2 ?a2" by (auto simp: i1)
  have i2: "idle_task s2 = 3" using sched_tail_rep[OF s1(2)] s2(1) ok1 i1 by auto
  have st2: "sched_steps demo_sched demo_abs s2 ?a2"
    using sched_steps.step[OF st1 ok1 s2(1)] by (simp add: i1)
  have ok2: "sop_ok s2 ?a2 (SSleep 5 ?u)" unfolding a2 using g by (simp add: i2 demo_abs_def)
  from sched_refines[OF demo_sched_rep st2 ok2] obtain s3 where
    s3: "sop_run (SSleep 5 ?u) s2 = Some s3" "sched_rep s3 (sop_spec 3 (SSleep 5 ?u) ?a2)"
    by (auto simp: i2)
  have "this_task s1 = 2" "buddy_rep s2 [1]" "this_task s3 = 3"
    using sched_repD(2)[OF s1(2)] sched_repD(8)[OF s2(2)] sched_repD(2)[OF s3(2)]
    unfolding a2 a1 by (simp_all add: demo_abs_def asleep_def aswitch_def aflush_def)
  with s1(1) s2(1) s3(1) show ?thesis by blast
qed



end
