(* ===== verification/Semaphore.thy ===== *)
theory Semaphore
  imports Sched
begin

text \<open>
  Counting semaphores, \<^verbatim>\<open>kernel/semaphore.c\<close>, over the scheduler. The wait queue of semaphore
  \<open>w\<close> is \<open>WaitQ w\<close>. The loop of \<open>sem_P\<close> is taken one pass at a time, because \<open>sleep_on\<close> gives
  the processor to another task and the loop continues when the sleeper is resumed: a pass either
  takes the semaphore or goes to sleep inside the loop. Every interleaving of the passes of all
  tasks, of \<open>sem_V\<close> and of the other scheduler operations is a sequence of steps of
  \<open>sem_steps\<close>; its ghost state counts completed \<open>sem_P\<close> and \<open>sem_V\<close> calls and records which
  tasks are inside the loop.
\<close>

subsection \<open>The operations\<close>

record sem_state = sched_state +
  sem_val :: "nat \<Rightarrow> int"

definition sem_V :: "'a sem_state_scheme \<Rightarrow> nat \<Rightarrow> 'a sem_state_scheme option" where
  "sem_V s w =
     (let s = s\<lparr>sem_val := (sem_val s)(w := sem_val s w + 1)\<rparr>
      in if 0 < sem_val s w then wake_one s w else Some s)"

text \<open>One pass of the loop of \<open>sem_P\<close>; the flag says that the loop is left, with the semaphore
  taken.\<close>

definition sem_P :: "ia32_tss \<Rightarrow> 'a sem_state_scheme \<Rightarrow> nat \<Rightarrow> ('a sem_state_scheme \<times> bool) option" where
  "sem_P saved s w =
     (if sem_val s w \<le> 0
      then do {
        (s, _) \<leftarrow> sleep_on saved s w;
        Some (s, False)
      }
      else Some (s\<lparr>sem_val := (sem_val s)(w := sem_val s w - 1)\<rparr>, True))"

definition INIT_SEMAPHORE :: "'a sem_state_scheme \<Rightarrow> nat \<Rightarrow> int \<Rightarrow> 'a sem_state_scheme" where
  "INIT_SEMAPHORE s w initval =
     (let s = s\<lparr>slinks := INIT_LIST_HEAD (slinks s) (WaitQ w)\<rparr>
      in s\<lparr>sem_val := (sem_val s)(w := initval)\<rparr>)"

subsection \<open>All interleavings\<close>

record ghost =
  g_abs :: asched
  g_pend :: "nat \<Rightarrow> nat option"
  g_P :: "nat \<Rightarrow> nat"
  g_V :: "nat \<Rightarrow> nat"

text \<open>The other operations leave the wait queues of the semaphores in \<open>S\<close> alone, and a task that
  is inside \<open>sem_P\<close> does nothing else.\<close>

fun sop_other :: "nat set \<Rightarrow> ghost \<Rightarrow> sop \<Rightarrow> bool" where
  "sop_other S g (SSleep q _) \<longleftrightarrow> q \<notin> S \<and> g_pend g (a_cur (g_abs g)) = None"
| "sop_other S g (SExit _ _) \<longleftrightarrow> g_pend g (a_cur (g_abs g)) = None"
| "sop_other S g (SWakeOne q) \<longleftrightarrow> q \<notin> S"
| "sop_other S g (SWakeUp q) \<longleftrightarrow> q \<notin> S"
| "sop_other S g (SSpawn t) \<longleftrightarrow> g_pend g t = None"
| "sop_other S g _ \<longleftrightarrow> True"

definition P_enabled :: "nat set \<Rightarrow> 'a sem_state_scheme \<Rightarrow> ghost \<Rightarrow> ia32_tss \<Rightarrow> nat \<Rightarrow> bool" where
  "P_enabled S s g saved w \<longleftrightarrow> w \<in> S \<and> sop_ok s (g_abs g) (SSleep w saved) \<and>
     g_pend g (a_cur (g_abs g)) \<in> {None, Some w}"

definition P_ghost :: "nat \<Rightarrow> nat \<Rightarrow> bool \<Rightarrow> ghost \<Rightarrow> ghost" where
  "P_ghost idle w acquired g =
     (if acquired
      then g\<lparr>g_pend := (g_pend g)(a_cur (g_abs g) := None), g_P := (g_P g)(w := g_P g w + 1)\<rparr>
      else g\<lparr>g_pend := (g_pend g)(a_cur (g_abs g) := Some w), g_abs := asleep idle w (g_abs g)\<rparr>)"

definition V_ghost :: "nat \<Rightarrow> ghost \<Rightarrow> ghost" where
  "V_ghost w g = g\<lparr>g_V := (g_V g)(w := g_V g w + 1), g_abs := awake_one w (g_abs g)\<rparr>"

inductive sem_steps :: "nat set \<Rightarrow> 'a sem_state_scheme \<Rightarrow> ghost \<Rightarrow> 'a sem_state_scheme \<Rightarrow> ghost \<Rightarrow> bool"
  for S :: "nat set" and s0 :: "'a sem_state_scheme" and g0 :: ghost where
  sem_start: "sem_steps S s0 g0 s0 g0"
| sem_other: "sem_steps S s0 g0 s g \<Longrightarrow> sop_ok s (g_abs g) op \<Longrightarrow> sop_other S g op \<Longrightarrow>
    sop_run op s = Some s' \<Longrightarrow>
    sem_steps S s0 g0 s' (g\<lparr>g_abs := sop_spec (idle_task s) op (g_abs g)\<rparr>)"
| sem_P_step: "sem_steps S s0 g0 s g \<Longrightarrow> P_enabled S s g saved w \<Longrightarrow>
    sem_P saved s w = Some (s', acquired) \<Longrightarrow> sem_steps S s0 g0 s' (P_ghost (idle_task s) w acquired g)"
| sem_V_step: "sem_steps S s0 g0 s g \<Longrightarrow> w \<in> S \<Longrightarrow> sem_V s w = Some s' \<Longrightarrow>
    sem_steps S s0 g0 s' (V_ghost w g)"

subsection \<open>The invariant\<close>

definition woken :: "ghost \<Rightarrow> nat \<Rightarrow> nat set" where
  "woken g w = {t \<in> set (a_run (g_abs g)). g_pend g t = Some w}"

text \<open>Pending tasks are asleep on the semaphore's queue or runnable.\<close>

definition pend_ok :: "nat set \<Rightarrow> ghost \<Rightarrow> bool" where
  "pend_ok S g \<longleftrightarrow>
     (\<forall>w\<in>S. \<forall>t\<in>set (a_wait (g_abs g) w). g_pend g t = Some w) \<and>
     (\<forall>t w. g_pend g t = Some w \<longrightarrow> w \<in> S \<and> t \<in> set (a_wait (g_abs g) w) \<union> set (a_run (g_abs g)))"

definition val_ok :: "(nat \<Rightarrow> int) \<Rightarrow> (nat \<Rightarrow> int) \<Rightarrow> ghost \<Rightarrow> nat \<Rightarrow> bool" where
  "val_ok init val g w \<longleftrightarrow>
     val w = init w + int (g_V g w) - int (g_P g w) \<and> 0 \<le> val w \<and>
     (a_wait (g_abs g) w \<noteq> [] \<longrightarrow> val w \<le> int (card (woken g w)))"

definition sem_inv :: "nat set \<Rightarrow> (nat \<Rightarrow> int) \<Rightarrow> 'a sem_state_scheme \<Rightarrow> ghost \<Rightarrow> bool" where
  "sem_inv S init s g \<longleftrightarrow> sched_rep s (g_abs g) \<and> pend_ok S g \<and> (\<forall>w\<in>S. val_ok init (sem_val s) g w)"

lemma sched_rep_sem_val [simp]: "sched_rep (s\<lparr>sem_val := v\<rparr>) a = sched_rep s a"
  by (simp add: sched_rep_def tr_ok_def stacks_ok_def buddy_rep_def owned_def)

lemma more_sem_val: "sched_state.more s' = sched_state.more s \<Longrightarrow> sem_val s' = sem_val (s :: 'a sem_state_scheme)"
  by (cases s; cases s') simp

lemma sem_invD:
  assumes "sem_inv S init s g"
  shows "sched_rep s (g_abs g)" "pend_ok S g" "w \<in> S \<Longrightarrow> val_ok init (sem_val s) g w"
  using assms by (auto simp: sem_inv_def)

lemma wait_unique:
  "queues_ok a \<Longrightarrow> t \<in> set (a_wait a q) \<Longrightarrow> t \<notin> set (a_run a) \<and> (t \<in> set (a_wait a p) \<longrightarrow> p = q)"
  unfolding queues_ok_def disjoint_iff by blast

lemma pend_okD:
  assumes "pend_ok S g"
  shows "w \<in> S \<Longrightarrow> t \<in> set (a_wait (g_abs g) w) \<Longrightarrow> g_pend g t = Some w"
    and "g_pend g t = Some w \<Longrightarrow> w \<in> S"
    and "g_pend g t = Some w \<Longrightarrow> t \<notin> set (a_run (g_abs g)) \<Longrightarrow> t \<in> set (a_wait (g_abs g) w)"
  using assms unfolding pend_ok_def by blast+

lemma pend_okI:
  assumes "\<And>w t. w \<in> S \<Longrightarrow> t \<in> set (a_wait (g_abs g) w) \<Longrightarrow> g_pend g t = Some w"
    and "\<And>t w. g_pend g t = Some w \<Longrightarrow> w \<in> S"
    and "\<And>t w. g_pend g t = Some w \<Longrightarrow> t \<notin> set (a_run (g_abs g)) \<Longrightarrow> t \<in> set (a_wait (g_abs g) w)"
  shows "pend_ok S g"
  using assms unfolding pend_ok_def by blast

lemma pend_ok_cong:
  "g_abs g' = g_abs g \<Longrightarrow> g_pend g' = g_pend g \<Longrightarrow> pend_ok S g' = pend_ok S g"
  by (simp only: pend_ok_def)

text \<open>Sleepers on other queues are not inside \<open>sem_P\<close>.\<close>

lemma other_sleeper:
  assumes "queues_ok (g_abs g)" "pend_ok S g" "q \<notin> S" "t \<in> set (a_wait (g_abs g) q)"
  shows "g_pend g t = None"
proof (rule ccontr)
  assume "g_pend g t \<noteq> None"
  then obtain w where "g_pend g t = Some w" by auto
  with pend_okD[OF assms(2)] wait_unique[OF assms(1,4)] assms(3) show False by metis
qed

lemma other_frame:
  assumes rep: "sched_rep s a" and ok: "sop_ok s a op" "sop_other S g op"
    and g: "g_abs g = a" "pend_ok S g"
  defines "a' \<equiv> sop_spec (idle_task s) op a"
  shows "w \<in> S \<Longrightarrow> a_wait a' w = a_wait a w"
    and "g_pend g t \<noteq> None \<Longrightarrow> t \<in> set (a_run a') \<longleftrightarrow> t \<in> set (a_run a)"
proof -
  have q: "queues_ok a" by (rule sched_repD(10)[OF rep])
  have sl: "g_pend g t = None" if "p \<notin> S" "t \<in> set (a_wait a p)" for t p
    using other_sleeper[OF _ g(2) that(1)] q that(2) g(1) by simp
  show "w \<in> S \<Longrightarrow> a_wait a' w = a_wait a w"
    using ok g(1) unfolding a'_def
    by (cases op) (auto simp: asleep_def aexit_def aflush_def awake_up_def awake_one_def split: list.splits)
  show "t \<in> set (a_run a') \<longleftrightarrow> t \<in> set (a_run a)" if "g_pend g t \<noteq> None"
  proof (cases op)
    case (SWakeOne p)
    with ok(2) that sl[of p] show ?thesis
      unfolding a'_def by (cases "a_wait a p") (auto simp: awake_one_def)
  next
    case (SWakeUp p)
    with ok(2) that sl[of p] show ?thesis unfolding a'_def by (auto simp: awake_up_def)
  qed (use ok that g(1) q in
      \<open>auto simp: a'_def asleep_def aexit_def aflush_def queues_ok_def set_remove1_eq\<close>)
qed

lemma sem_inv_other:
  assumes inv: "sem_inv S init s g" and ok: "sop_ok s (g_abs g) op" "sop_other S g op"
  shows "\<exists>s'. sop_run op s = Some s' \<and> idle_task s' = idle_task s \<and>
    sem_inv S init s' (g\<lparr>g_abs := sop_spec (idle_task s) op (g_abs g)\<rparr>)"
proof -
  note I = sem_invD[OF inv]
  note fr = other_frame[OF I(1) ok refl I(2)]
  let ?g = "g\<lparr>g_abs := sop_spec (idle_task s) op (g_abs g)\<rparr>"
  from sop_simulation[OF I(1) ok(1)] obtain s' where
    s': "sop_run op s = Some s'" "sched_rep s' (g_abs ?g)" "idle_task s' = idle_task s"
      and m: "sched_state.more s' = sched_state.more s"
    by auto
  have sv: "sem_val s' = sem_val s" using more_sem_val[OF m] .
  have wk: "woken ?g w = woken g w" for w using fr(2) by (auto simp: woken_def)
  have "pend_ok S ?g"
  proof (rule pend_okI)
    show "g_pend ?g t = Some w" if "w \<in> S" "t \<in> set (a_wait (g_abs ?g) w)" for w t
      using pend_okD(1)[OF I(2) that(1), of t] that(2) fr(1)[OF that(1)] by simp
    show "w \<in> S" if "g_pend ?g t = Some w" for t w
      using pend_okD(2)[OF I(2), of t w] that by simp
    show "t \<in> set (a_wait (g_abs ?g) w)"
      if "g_pend ?g t = Some w" "t \<notin> set (a_run (g_abs ?g))" for t w
      using pend_okD(2,3)[OF I(2), of t w] fr(1)[of w] fr(2)[of t] that by simp
  qed
  moreover have "val_ok init (sem_val s') ?g w" if "w \<in> S" for w
    using I(3)[OF that] fr(1)[OF that] wk[of w] sv by (auto simp: val_ok_def)
  ultimately show ?thesis using s' by (auto simp: sem_inv_def)
qed

lemma woken_finite [simp]: "finite (woken g w)"
  by (simp add: woken_def)

lemma sem_inv_V:
  assumes inv: "sem_inv S init s g" and w: "w \<in> S"
  shows "\<exists>s'. sem_V s w = Some s' \<and> idle_task s' = idle_task s \<and> sem_inv S init s' (V_ghost w g)"
proof -
  note I = sem_invD[OF inv]
  let ?s = "s\<lparr>sem_val := (sem_val s)(w := sem_val s w + 1)\<rparr>" and ?a = "g_abs g"
  have q: "queues_ok ?a" by (rule sched_repD(10)[OF I(1)])
  have pos: "0 < sem_val ?s w" using I(3)[OF w] by (simp add: val_ok_def)
  have "sched_rep ?s ?a" using I(1) by simp
  from wake_one_rep[OF this, of w] obtain s' where
    s': "wake_one ?s w = Some s'" "sched_rep s' (awake_one w ?a)" "idle_task s' = idle_task s"
      and m: "sched_state.more s' = sched_state.more ?s"
    by auto
  have sv: "sem_val s' = sem_val ?s" using more_sem_val[OF m] .
  have run: "sem_V s w = Some s'" using s'(1) pos by (simp add: sem_V_def)
  show ?thesis
  proof (cases "a_wait ?a w")
    case Nil
    then have a: "awake_one w ?a = ?a" by (simp add: awake_one_def)
    have "pend_ok S (V_ghost w g) = pend_ok S g"
      by (rule pend_ok_cong) (simp_all add: V_ghost_def a)
    then have "pend_ok S (V_ghost w g)" using I(2) by blast
    moreover have "val_ok init (sem_val s') (V_ghost w g) v" if "v \<in> S" for v
      using I(3)[OF that] sv Nil a by (auto simp: V_ghost_def val_ok_def woken_def)
    ultimately show ?thesis using run s' by (auto simp: sem_inv_def V_ghost_def)
  next
    case (Cons t ts)
    note sl = queues_ok_sleeper[OF q Cons]
    have pt: "g_pend g t = Some w" using pend_okD(1)[OF I(2) w, of t] Cons by simp
    let ?g = "V_ghost w g"
    have g: "a_wait (g_abs ?g) = (a_wait ?a)(w := ts)" "a_run (g_abs ?g) = a_run ?a @ [t]"
      "g_pend ?g = g_pend g" "g_P ?g = g_P g" "g_V ?g = (g_V g)(w := g_V g w + 1)"
      using Cons by (simp_all add: V_ghost_def awake_one_def)
    have "woken ?g w = insert t (woken g w)" "t \<notin> woken g w"
      using pt sl(1) by (auto simp: woken_def g)
    then have card: "card (woken ?g w) = card (woken g w) + 1" by simp
    have oth: "woken ?g v = woken g v" if "v \<noteq> w" for v
      using pt that by (auto simp: woken_def g)
    have "pend_ok S ?g"
    proof (rule pend_okI, unfold g)
      show "g_pend g x = Some v" if "v \<in> S" "x \<in> set (((a_wait ?a)(w := ts)) v)" for v x
        using pend_okD(1)[OF I(2) that(1), of x] that(2) Cons by (simp split: if_splits)
      show "x \<in> set (((a_wait ?a)(w := ts)) v)" if "g_pend g x = Some v" "x \<notin> set (a_run ?a @ [t])" for x v
        using pend_okD(3)[OF I(2) that(1)] that(2) Cons by auto
    qed (rule pend_okD(2)[OF I(2)])
    moreover have "val_ok init (sem_val s') ?g v" if "v \<in> S" for v
      using I(3)[OF that] I(3)[OF w] sv card oth[of v] Cons by (auto simp: val_ok_def g)
    ultimately show ?thesis using run s' by (auto simp: sem_inv_def V_ghost_def)
  qed
qed

lemma sem_inv_P_take:
  assumes inv: "sem_inv S init s g" and en: "P_enabled S s g saved w" and pos: "0 < sem_val s w"
  shows "sem_inv S init (s\<lparr>sem_val := (sem_val s)(w := sem_val s w - 1)\<rparr>) (P_ghost idle w True g)"
proof -
  note I = sem_invD[OF inv]
  let ?c = "a_cur (g_abs g)" and ?g = "P_ghost idle w True g"
  have w: "w \<in> S" and pc: "g_pend g ?c \<in> {None, Some w}"
    and c: "?c \<noteq> idle_task s" "?c \<notin> set (a_del (g_abs g))"
    using en by (auto simp: P_enabled_def)
  obtain R where R: "a_run (g_abs g) = ?c # R" "?c \<in> set (a_run (g_abs g))"
    using cur_runs[OF I(1) c] .
  have g: "g_abs ?g = g_abs g" "g_pend ?g = (g_pend g)(?c := None)" "g_V ?g = g_V g"
    "g_P ?g = (g_P g)(w := g_P g w + 1)" by (simp_all add: P_ghost_def)
  have wk: "woken ?g v = woken g v - {?c}" for v by (auto simp: woken_def g)
  have nw: "?c \<notin> set (a_wait (g_abs g) v)" for v
    using wait_unique[OF sched_repD(10)[OF I(1)], of ?c v] R(2) by blast
  have "pend_ok S ?g"
  proof (rule pend_okI, unfold g)
    show "((g_pend g)(?c := None)) t = Some v" if "v \<in> S" "t \<in> set (a_wait (g_abs g) v)" for v t
      using pend_okD(1)[OF I(2) that] nw[of v] that(2) by auto
    show "v \<in> S" if "((g_pend g)(?c := None)) t = Some v" for t v
      using pend_okD(2)[OF I(2), of t v] that by (simp split: if_splits)
    show "t \<in> set (a_wait (g_abs g) v)"
      if "((g_pend g)(?c := None)) t = Some v" "t \<notin> set (a_run (g_abs g))" for t v
      using pend_okD(3)[OF I(2), of t v] that by (simp split: if_splits)
  qed
  moreover have "val_ok init ((sem_val s)(w := sem_val s w - 1)) ?g v" if v: "v \<in> S" for v
  proof (cases "v = w")
    case True
    have "card (woken g w) - 1 \<le> card (woken g w - {?c})" by (simp add: card_Diff1_le card_Diff_singleton_if)
    then show ?thesis using I(3)[OF w] pos unfolding True by (auto simp: val_ok_def g wk)
  next
    case False
    then have "woken g v - {?c} = woken g v" using pc by (auto simp: woken_def)
    then have "val_ok init ((sem_val s)(w := sem_val s w - 1)) ?g v = val_ok init (sem_val s) g v"
      using False by (simp add: val_ok_def g wk)
    then show ?thesis using I(3)[OF v] by blast
  qed
  ultimately show ?thesis using I(1) by (simp add: sem_inv_def g)
qed

lemma sem_inv_P_sleep:
  assumes inv: "sem_inv S init s g" and en: "P_enabled S s g saved w" and zero: "sem_val s w \<le> 0"
  shows "\<exists>s'. sleep_on saved s w = Some (s', True) \<and> idle_task s' = idle_task s \<and>
    sem_inv S init s' (P_ghost (idle_task s) w False g)"
proof -
  note I = sem_invD[OF inv]
  let ?c = "a_cur (g_abs g)" and ?g = "P_ghost (idle_task s) w False g"
  have w: "w \<in> S" and pc: "g_pend g ?c \<in> {None, Some w}"
    and c: "?c \<noteq> idle_task s" "?c \<notin> set (a_del (g_abs g))" "good_stack ?c saved"
    using en by (auto simp: P_enabled_def)
  from sleep_on_rep[OF I(1) c, of w] obtain s' where
    s': "sleep_on saved s w = Some (s', True)" "sched_rep s' (asleep (idle_task s) w (g_abs g))"
      "idle_task s' = idle_task s" and m: "sched_state.more s' = sched_state.more s"
    by auto
  have sv: "sem_val s' = sem_val s" using more_sem_val[OF m] .
  have dist: "distinct (a_run (g_abs g))" using sched_repD(10)[OF I(1)] by (simp add: queues_ok_def)
  have g: "g_abs ?g = asleep (idle_task s) w (g_abs g)" "g_pend ?g = (g_pend g)(?c := Some w)"
    "g_V ?g = g_V g" "g_P ?g = g_P g" by (simp_all add: P_ghost_def)
  have a: "a_wait (asleep (idle_task s) w (g_abs g)) =
      (a_wait (g_abs g))(w := a_wait (g_abs g) w @ [?c])"
    "set (a_run (asleep (idle_task s) w (g_abs g))) = set (a_run (g_abs g)) - {?c}"
    using dist by (simp_all add: asleep_def set_remove1_eq)
  have nw: "?c \<notin> set (a_wait (g_abs g) v)" for v
    using wait_unique[OF sched_repD(10)[OF I(1)], of ?c v] cur_runs[OF I(1) c(1,2)] by metis
  have oth: "woken ?g v = woken g v" if "v \<noteq> w" for v
    using pc that unfolding woken_def g a by auto
  have "pend_ok S ?g"
  proof (rule pend_okI, unfold g a)
    show "((g_pend g)(?c := Some w)) t = Some v"
      if "v \<in> S" "t \<in> set (((a_wait (g_abs g))(w := a_wait (g_abs g) w @ [?c])) v)" for v t
      using pend_okD(1)[OF I(2) that(1), of t] nw[of v] that(2) by (auto split: if_splits)
    show "v \<in> S" if "((g_pend g)(?c := Some w)) t = Some v" for t v
      using pend_okD(2)[OF I(2), of t v] that w by (auto split: if_splits)
    show "t \<in> set (((a_wait (g_abs g))(w := a_wait (g_abs g) w @ [?c])) v)"
      if "((g_pend g)(?c := Some w)) t = Some v" "t \<notin> set (a_run (g_abs g)) - {?c}" for t v
      using pend_okD(3)[OF I(2), of t v] that by (auto split: if_splits)
  qed
  moreover have "val_ok init (sem_val s') ?g v" if v: "v \<in> S" for v
    using I(3)[OF v] zero sv oth[of v] unfolding val_ok_def g a by (cases "v = w") auto
  ultimately show ?thesis using s' by (simp add: sem_inv_def g)
qed

lemma sem_inv_P:
  assumes inv: "sem_inv S init s g" and en: "P_enabled S s g saved w"
  shows "\<exists>s'. sem_P saved s w = Some (s', 0 < sem_val s w) \<and> idle_task s' = idle_task s \<and>
    sem_inv S init s' (P_ghost (idle_task s) w (0 < sem_val s w) g)"
proof (cases "0 < sem_val s w")
  case True
  with sem_inv_P_take[OF inv en True] show ?thesis by (simp add: sem_P_def)
next
  case False
  with sem_inv_P_sleep[OF inv en] show ?thesis by (auto simp: sem_P_def)
qed

lemma sem_steps_inv:
  assumes "sem_steps S s0 g0 s g" "sem_inv S init s0 g0"
  shows "sem_inv S init s g"
  using assms
proof (induction rule: sem_steps.induct)
  case (sem_other s g op s')
  with sem_inv_other[of S init s g op] show ?case by auto
next
  case (sem_P_step s g saved w s' acquired)
  with sem_inv_P[of S init s g saved w] show ?case by auto
next
  case (sem_V_step s g w s')
  with sem_inv_V[of S init s g w] show ?case by auto
qed simp

subsection \<open>Properties\<close>

text \<open>The counters start at zero and nobody is inside \<open>sem_P\<close>.\<close>

definition ghost_init :: "asched \<Rightarrow> ghost" where
  "ghost_init a = \<lparr>g_abs = a, g_pend = \<lambda>_. None, g_P = \<lambda>_. 0, g_V = \<lambda>_. 0\<rparr>"

lemma sem_inv_init:
  assumes "sched_rep s a" "\<forall>w\<in>S. 0 \<le> sem_val s w \<and> a_wait a w = []"
  shows "sem_inv S (sem_val s) s (ghost_init a)"
  using assms by (auto simp: sem_inv_def ghost_init_def pend_ok_def val_ok_def)



definition demo_sem :: sem_state where
  "demo_sem = sched_state.extend (sched_state.truncate demo_sched) \<lparr>sem_val = (\<lambda>_. 1)\<rparr>"

lemma sched_rep_extend: "sched_rep (sched_state.extend (sched_state.truncate s) m) a = sched_rep s a"
  by (simp add: sched_rep_def tr_ok_def stacks_ok_def buddy_rep_def owned_def
      sched_state.extend_def sched_state.truncate_def)

lemma demo_sem_rep: "sched_rep demo_sem demo_abs"
  using demo_sched_rep by (simp add: demo_sem_def sched_rep_extend)



end
