(* ===== verification/PortIO.thy ===== *)
theory PortIO
  imports Prelude
begin

text \<open>
  Port-mapped input and output (\<^verbatim>\<open>include/arch-ia32/io.h\<close>, implemented in
  \<^verbatim>\<open>arch-ia32/io.S\<close>). The machine's devices are not part of the kernel: what a port read
  returns is an arbitrary function \<open>dev\<close> of the accesses made so far and the port. Drivers
  append every access to \<open>io_log\<close>, so their theorems are about the exact sequence of accesses a
  device sees.
\<close>

datatype port_op = PIn nat u16 u32 | POut nat u16 u32

type_synonym device = "port_op list \<Rightarrow> u16 \<Rightarrow> u32"

record port_io =
  io_log :: "port_op list"

definition outb :: "u32 \<Rightarrow> u8 \<Rightarrow> 'a port_io_scheme \<Rightarrow> 'a port_io_scheme" where
  "outb port val s = s\<lparr>io_log := io_log s @ [POut 8 (ucast port) (ucast val)]\<rparr>"

definition outw :: "u32 \<Rightarrow> u16 \<Rightarrow> 'a port_io_scheme \<Rightarrow> 'a port_io_scheme" where
  "outw port val s = s\<lparr>io_log := io_log s @ [POut 16 (ucast port) (ucast val)]\<rparr>"

definition outl :: "u32 \<Rightarrow> u32 \<Rightarrow> 'a port_io_scheme \<Rightarrow> 'a port_io_scheme" where
  "outl port val s = s\<lparr>io_log := io_log s @ [POut 32 (ucast port) val]\<rparr>"

definition inb :: "device \<Rightarrow> u32 \<Rightarrow> 'a port_io_scheme \<Rightarrow> 'a port_io_scheme \<times> u8" where
  "inb dev port s = (let v = ucast (dev (io_log s) (ucast port))
     in (s\<lparr>io_log := io_log s @ [PIn 8 (ucast port) (ucast v)]\<rparr>, v))"

definition inw :: "device \<Rightarrow> u32 \<Rightarrow> 'a port_io_scheme \<Rightarrow> 'a port_io_scheme \<times> u16" where
  "inw dev port s = (let v = ucast (dev (io_log s) (ucast port))
     in (s\<lparr>io_log := io_log s @ [PIn 16 (ucast port) (ucast v)]\<rparr>, v))"

definition inl :: "device \<Rightarrow> u32 \<Rightarrow> 'a port_io_scheme \<Rightarrow> 'a port_io_scheme \<times> u32" where
  "inl dev port s = (let v = dev (io_log s) (ucast port)
     in (s\<lparr>io_log := io_log s @ [PIn 32 (ucast port) v]\<rparr>, v))"

text \<open>The pausing variants touch the unused port 0x80 afterwards.\<close>

definition outb_p :: "u32 \<Rightarrow> u8 \<Rightarrow> 'a port_io_scheme \<Rightarrow> 'a port_io_scheme" where
  "outb_p port val s = outb 0x80 val (outb port val s)"

definition inb_p :: "device \<Rightarrow> u32 \<Rightarrow> 'a port_io_scheme \<Rightarrow> 'a port_io_scheme \<times> u8" where
  "inb_p dev port s = (let (s, v) = inb dev port s in (outb 0x80 v s, v))"

text \<open>The value a device register holds: the last byte written to its port.\<close>

fun last_out :: "u16 \<Rightarrow> port_op list \<Rightarrow> u32 option" where
  "last_out p [] = None"
| "last_out p (POut w q v # ops) = (case last_out p ops of None \<Rightarrow> if q = p then Some v else None | r \<Rightarrow> r)"
| "last_out p (_ # ops) = last_out p ops"

lemma last_out_append:
  "last_out p (xs @ ys) = (case last_out p ys of None \<Rightarrow> last_out p xs | Some v \<Rightarrow> Some v)"
  by (induction xs rule: last_out.induct) (auto split: option.splits)

lemma out_log [simp]:
  "io_log (outb p b s) = io_log s @ [POut 8 (ucast p) (ucast b)]"
  "io_log (outw p w s) = io_log s @ [POut 16 (ucast p) (ucast w)]"
  "io_log (outl p l s) = io_log s @ [POut 32 (ucast p) l]"
  by (simp_all add: outb_def outw_def outl_def)

lemma out_more [simp]:
  "port_io.more (outb p b s) = port_io.more s" "port_io.more (outw p w s) = port_io.more s"
  "port_io.more (outl p l s) = port_io.more s"
  by (simp_all add: outb_def outw_def outl_def)

lemma byte_through_port [simp]: "ucast (ucast (b :: u8) :: u32) = b"
  by (intro bit_word_eqI) (auto simp: bit_simps)

end
