(* ===== verification/Interrupt.thy ===== *)
theory Interrupt
  imports Semaphore PortIO
begin

text \<open>
  Interrupt handling: the two 8259A controllers (\<^verbatim>\<open>arch-ia32/8259a.c\<close>), the table of
  interrupt handlers (\<^verbatim>\<open>arch-ia32/irq.c\<close>) and the dispatch of processor exceptions
  (\<^verbatim>\<open>page_fault\<close> and \<^verbatim>\<open>exc_handler\<close> of \<^verbatim>\<open>arch-ia32/idt.c\<close>).
\<close>

subsection \<open>The interrupt controllers\<close>

text \<open>The union \<open>cascade\<close> holds one byte under two names. \<open>master\<close> is an index into
  \<open>pics\<close>, or NULL.\<close>

record pic =
  p_port :: u16
  p_port_imr :: u16
  p_imr :: u8
  p_vector :: u8
  p_master :: "nat option"
  p_cascade :: u8

record pic_state = port_io +
  pics :: "nat \<Rightarrow> pic"

definition NUM_PINS :: u16 where "NUM_PINS = 8"
definition ICW1 :: u8 where "ICW1 = push_bit 4 1 OR 1"
definition ICW4 :: u8 where "ICW4 = 1"
definition IVECTOR_M :: u8 where "IVECTOR_M = 0x20"
definition IVECTOR_S :: u8 where "IVECTOR_S = 0x28"
definition EOI_SPECIFIC :: u32 where "EOI_SPECIFIC = 0x60"
definition EOI :: u8 where "EOI = 0x20"

definition pics_static :: "nat \<Rightarrow> pic" where
  "pics_static i =
     (if i = 0 then \<lparr>p_port = 0x20, p_port_imr = 0x21, p_imr = 0xFF, p_vector = IVECTOR_M,
        p_master = None, p_cascade = push_bit 2 1\<rparr>
      else \<lparr>p_port = 0xA0, p_port_imr = 0xA1, p_imr = 0xFF, p_vector = IVECTOR_S,
        p_master = Some 0, p_cascade = 2\<rparr>)"

definition pic_program :: "'a pic_state_scheme \<Rightarrow> nat \<Rightarrow> 'a pic_state_scheme" where
  "pic_program s i =
     (let p = pics s i;
          s = outb (ucast (p_port p)) ICW1 s;
          s = outb (ucast (p_port_imr p)) (p_vector p) s;
          s = (if p_master p \<noteq> None then outb (ucast (p_port_imr p)) (p_cascade p) s
               else outb (ucast (p_port_imr p)) (p_cascade p) s);
          s = outb (ucast (p_port_imr p)) ICW4 s
      in outb (ucast (p_port_imr p)) (p_imr p) s)"

definition pic_init :: "'a pic_state_scheme \<Rightarrow> 'a pic_state_scheme" where
  "pic_init s = foldl pic_program s [0, 1]"

definition set_imr :: "nat \<Rightarrow> (u8 \<Rightarrow> u8) \<Rightarrow> 'a pic_state_scheme \<Rightarrow> 'a pic_state_scheme" where
  "set_imr i f s = s\<lparr>pics := (pics s)(i := (pics s i)\<lparr>p_imr := f (p_imr (pics s i))\<rparr>)\<rparr>"

partial_function (option) pic_unmask :: "'a pic_state_scheme \<Rightarrow> nat \<Rightarrow> u8 \<Rightarrow> 'a pic_state_scheme option" where
  "pic_unmask s i b =
     (let s = set_imr i (\<lambda>imr. ucast (ucast imr AND NOT (push_bit (unat b) (1 :: u32)))) s
      in case p_master (pics s i) of None \<Rightarrow> Some s
         | Some m \<Rightarrow> pic_unmask s m (p_cascade (pics s i)))"

partial_function (option) pic_mask :: "'a pic_state_scheme \<Rightarrow> nat \<Rightarrow> u8 \<Rightarrow> 'a pic_state_scheme option" where
  "pic_mask s i b =
     (let s = set_imr i (\<lambda>imr. ucast (ucast imr OR push_bit (unat b) (1 :: u32))) s
      in case p_master (pics s i) of None \<Rightarrow> Some s
         | Some m \<Rightarrow> pic_mask s m (p_cascade (pics s i)))"

partial_function (option) pic_sync_imr :: "'a pic_state_scheme \<Rightarrow> nat \<Rightarrow> 'a pic_state_scheme option" where
  "pic_sync_imr s i =
     (let s = outb (ucast (p_port_imr (pics s i))) (p_imr (pics s i)) s
      in case p_master (pics s i) of None \<Rightarrow> Some s | Some m \<Rightarrow> pic_sync_imr s m)"

partial_function (option) pic_eoi_cascade ::
  "'a pic_state_scheme \<Rightarrow> nat \<Rightarrow> u32 \<Rightarrow> 'a pic_state_scheme option" where
  "pic_eoi_cascade s i pin = do {
     s \<leftarrow> (case p_master (pics s i) of None \<Rightarrow> Some s
          | Some m \<Rightarrow> pic_eoi_cascade s m (ucast (p_cascade (pics s i))));
     Some (outb (ucast (p_port (pics s i))) (ucast (EOI_SPECIFIC + pin)) s)
   }"

definition pic_eoi :: "'a pic_state_scheme \<Rightarrow> nat \<Rightarrow> 'a pic_state_scheme option" where
  "pic_eoi s i = do {
     s \<leftarrow> (case p_master (pics s i) of None \<Rightarrow> Some s
          | Some m \<Rightarrow> pic_eoi_cascade s m (ucast (p_cascade (pics s i))));
     Some (outb (ucast (p_port (pics s i))) EOI s)
   }"

definition irq_on :: "'a pic_state_scheme \<Rightarrow> u16 \<Rightarrow> 'a pic_state_scheme option" where
  "irq_on s irq =
     (if irq < NUM_PINS
      then do { s \<leftarrow> pic_unmask s 0 (ucast irq); pic_sync_imr s 0 }
      else do { s \<leftarrow> pic_unmask s 1 (ucast (irq - NUM_PINS)); pic_sync_imr s 1 })"

definition irq_off :: "'a pic_state_scheme \<Rightarrow> u16 \<Rightarrow> 'a pic_state_scheme option" where
  "irq_off s irq =
     (if irq < NUM_PINS
      then do { s \<leftarrow> pic_mask s 0 (ucast irq); pic_sync_imr s 0 }
      else do { s \<leftarrow> pic_mask s 1 (ucast (irq - NUM_PINS)); pic_sync_imr s 1 })"

definition irq_eoi :: "'a pic_state_scheme \<Rightarrow> u16 \<Rightarrow> 'a pic_state_scheme option" where
  "irq_eoi s irq = (if irq < NUM_PINS then pic_eoi s 0 else pic_eoi s 1)"

subsection \<open>Interrupt handlers\<close>

text \<open>Handlers are function pointers; \<open>call\<close> runs one.\<close>

record irq_state = pic_state +
  irq_fns :: "int \<Rightarrow> addr"
  irq_priv :: "int \<Rightarrow> addr"

definition set_irq_handler :: "'a irq_state_scheme \<Rightarrow> int \<Rightarrow> addr \<Rightarrow> addr \<Rightarrow> 'a irq_state_scheme" where
  "set_irq_handler s irq h priv =
     (if 0 \<le> irq \<and> irq < 16
      then s\<lparr>irq_fns := (irq_fns s)(irq := h), irq_priv := (irq_priv s)(irq := priv)\<rparr>
      else s)"

text \<open>\<open>irq_handler\<close> up to the point where it returns or another task runs, and the rest of
  it when the interrupted task runs again. The state of the controllers and that of the scheduler
  are separate.\<close>

definition irq_handler ::
  "(addr \<Rightarrow> int \<Rightarrow> addr \<Rightarrow> ('a irq_state_scheme \<times> 'b sched_state_scheme) \<Rightarrow>
      ('a irq_state_scheme \<times> 'b sched_state_scheme) option) \<Rightarrow> ia32_tss \<Rightarrow>
   'a irq_state_scheme \<times> 'b sched_state_scheme \<Rightarrow> u32 \<Rightarrow> addr \<Rightarrow>
   ('a irq_state_scheme \<times> 'b sched_state_scheme \<times> u32 option) option" where
  "irq_handler call saved st irq ctx = do {
     st \<leftarrow> (if 0 \<le> irq \<and> irq < 16
           then call (irq_fns (fst st) (uint irq)) (uint irq) (irq_priv (fst st) (uint irq)) st
           else Some st);
     i \<leftarrow> irq_eoi (fst st) (ucast irq);
     (s, switched) \<leftarrow> sched saved (snd st);
     if switched then Some (i, s, None)
     else do {
       ds \<leftarrow> return_from_intr (kmem s) ctx;
       Some (i, s, Some ds)
     }
   }"

definition irq_handler_resume ::
  "'b sched_state_scheme \<Rightarrow> addr \<Rightarrow> ('b sched_state_scheme \<times> u32) option" where
  "irq_handler_resume s ctx = do {
     s \<leftarrow> sched_tail s;
     ds \<leftarrow> return_from_intr (kmem s) ctx;
     Some (s, ds)
   }"

subsection \<open>Masks\<close>

text \<open>\<open>hw_sync\<close>: the byte last written to each mask register is the software copy.
  \<open>unmasked\<close> is the set of lines whose own mask bit is clear, \<open>delivered\<close> the set of lines
  that reach the processor: those of the slave also need the cascade pin of the master.\<close>

definition pic_imr :: "nat \<Rightarrow> 'a pic_state_scheme \<Rightarrow> u8" where
  "pic_imr i s = p_imr (pics s i)"

definition pics_ok :: "'a pic_state_scheme \<Rightarrow> bool" where
  "pics_ok s \<longleftrightarrow> pics s 0 = (pics_static 0)\<lparr>p_imr := pic_imr 0 s\<rparr> \<and>
                 pics s 1 = (pics_static 1)\<lparr>p_imr := pic_imr 1 s\<rparr>"

definition hw_sync :: "'a pic_state_scheme \<Rightarrow> bool" where
  "hw_sync s \<longleftrightarrow> pics_ok s \<and> last_out 0x21 (io_log s) = Some (ucast (pic_imr 0 s)) \<and>
     last_out 0xA1 (io_log s) = Some (ucast (pic_imr 1 s))"

definition unmasked :: "'a pic_state_scheme \<Rightarrow> nat set" where
  "unmasked s = {k. k < 8 \<and> \<not> bit (pic_imr 0 s) k} \<union> {k. 8 \<le> k \<and> k < 16 \<and> \<not> bit (pic_imr 1 s) (k - 8)}"

definition delivered :: "'a pic_state_scheme \<Rightarrow> nat set" where
  "delivered s = {k \<in> unmasked s. 8 \<le> k \<longrightarrow> 2 \<in> unmasked s}"

lemma pics_okD:
  assumes "pics_ok s"
  shows "p_port (pics s 0) = 0x20" "p_port_imr (pics s 0) = 0x21" "p_master (pics s 0) = None"
    "p_port (pics s (Suc 0)) = 0xA0" "p_port_imr (pics s (Suc 0)) = 0xA1" "p_master (pics s (Suc 0)) = Some 0"
    "p_cascade (pics s (Suc 0)) = 2"
  using assms unfolding pics_ok_def by (simp_all add: pics_static_def)

lemma outb_pics [simp]: "pics (outb p b s) = pics s"
  by (simp add: outb_def)

lemma set_imr_simps [simp]:
  "io_log (set_imr i f s) = io_log s"
  "pic_imr j (set_imr i f s) = (if j = i then f (pic_imr i s) else pic_imr j s)"
  "pics_ok (set_imr i f s) = pics_ok s"
  "p_port (pics (set_imr i f s) j) = p_port (pics s j)"
  "p_port_imr (pics (set_imr i f s) j) = p_port_imr (pics s j)"
  "p_master (pics (set_imr i f s) j) = p_master (pics s j)"
  "p_cascade (pics (set_imr i f s) j) = p_cascade (pics s j)"
  apply (simp_all add: set_imr_def pic_imr_def pics_ok_def)
  apply (cases s; cases "pics s 0"; cases "pics s 1"; auto simp: pics_static_def)
  done

lemma imr_bits:
  assumes "k < 8" "n < 8"
  shows "bit (ucast (ucast imr AND NOT (2 ^ n :: u32)) :: u8) k \<longleftrightarrow> bit (imr :: u8) k \<and> k \<noteq> n"
    "bit (ucast (ucast imr OR (2 ^ n :: u32)) :: u8) k \<longleftrightarrow> bit imr k \<or> k = n"
  using assms by (auto simp: bit_ucast_iff bit_and_iff bit_or_iff bit_not_iff bit_exp_iff)

lemma imr_bit_cascade:
  assumes "k < 8"
  shows "bit (ucast (ucast imr AND (- 5 :: u32)) :: u8) k \<longleftrightarrow> bit (imr :: u8) k \<and> k \<noteq> 2"
    "bit (ucast (ucast imr OR (4 :: u32)) :: u8) k \<longleftrightarrow> bit imr k \<or> k = 2"
  using imr_bits[of k 2 imr] assms by simp_all

text \<open>Which pins a controller leaves open after one line was opened or closed, the master's
  cascade pin included.\<close>

lemma irq_on_eq:
  assumes "pics_ok s"
  shows "irq_on s irq = Some (if irq < NUM_PINS
    then let s = set_imr 0 (\<lambda>imr. ucast (ucast imr AND NOT (push_bit (unat (ucast irq :: u8)) (1 :: u32)))) s
         in outb 0x21 (pic_imr 0 s) s
    else let s = set_imr 0 (\<lambda>imr. ucast (ucast imr AND NOT (4 :: u32)))
           (set_imr 1 (\<lambda>imr. ucast (ucast imr AND NOT (push_bit (unat (ucast (irq - NUM_PINS) :: u8)) (1 :: u32)))) s)
         in outb 0x21 (pic_imr 0 s) (outb 0xA1 (pic_imr 1 s) s))"
  using assms
  by (simp add: irq_on_def pic_unmask.simps pic_sync_imr.simps pics_okD Let_def pic_imr_def[symmetric])

lemma irq_off_eq:
  assumes "pics_ok s"
  shows "irq_off s irq = Some (if irq < NUM_PINS
    then let s = set_imr 0 (\<lambda>imr. ucast (ucast imr OR push_bit (unat (ucast irq :: u8)) (1 :: u32))) s
         in outb 0x21 (pic_imr 0 s) s
    else let s = set_imr 0 (\<lambda>imr. ucast (ucast imr OR (4 :: u32)))
           (set_imr 1 (\<lambda>imr. ucast (ucast imr OR push_bit (unat (ucast (irq - NUM_PINS) :: u8)) (1 :: u32))) s)
         in outb 0x21 (pic_imr 0 s) (outb 0xA1 (pic_imr 1 s) s))"
  using assms
  by (simp add: irq_off_def pic_mask.simps pic_sync_imr.simps pics_okD Let_def pic_imr_def[symmetric])

lemma outb_pic [simp]: "pic_imr i (outb p b s) = pic_imr i s" "pics_ok (outb p b s) = pics_ok s"
  by (simp_all add: pic_imr_def pics_ok_def)

lemma irq_pin:
  assumes "(irq :: u16) < 16"
  shows "irq < NUM_PINS \<Longrightarrow> unat (ucast irq :: u8) = unat irq \<and> unat irq < 8"
    "\<not> irq < NUM_PINS \<Longrightarrow> unat (ucast (irq - NUM_PINS) :: u8) = unat irq - 8 \<and> 8 \<le> unat irq \<and> unat irq < 16"
  using assms
  by (auto simp: NUM_PINS_def unsigned_ucast_eq take_bit_nat_def word_less_nat_alt unat_sub_if' not_less word_le_nat_alt)

lemma irq_on_unmasks:
  assumes "hw_sync s" "irq < 16"
  shows "\<exists>s'. irq_on s irq = Some s' \<and> hw_sync s' \<and>
    unmasked s' = unmasked s \<union> {unat irq} \<union> (if 8 \<le> unat irq then {2} else {})"
proof (cases "irq < NUM_PINS")
  case True
  note pin = irq_pin(1)[OF assms(2) True]
  from assms(1) True pin show ?thesis
    by (simp add: hw_sync_def irq_on_eq Let_def last_out_append)
       (rule set_eqI, use pin in \<open>auto simp: unmasked_def imr_bits\<close>)
next
  case False
  note pin = irq_pin(2)[OF assms(2) False]
  from assms(1) False pin show ?thesis
    by (simp add: hw_sync_def irq_on_eq Let_def last_out_append)
       (rule set_eqI, use pin in \<open>auto simp: unmasked_def imr_bits imr_bit_cascade\<close>)
qed

lemma irq_off_masks:
  assumes "hw_sync s" "irq < 16"
  shows "\<exists>s'. irq_off s irq = Some s' \<and> hw_sync s' \<and>
    unmasked s' = unmasked s - {unat irq} - (if 8 \<le> unat irq then {2} else {})"
proof (cases "irq < NUM_PINS")
  case True
  note pin = irq_pin(1)[OF assms(2) True]
  from assms(1) True pin show ?thesis
    by (simp add: hw_sync_def irq_off_eq Let_def last_out_append)
       (rule set_eqI, use pin in \<open>auto simp: unmasked_def imr_bits\<close>)
next
  case False
  note pin = irq_pin(2)[OF assms(2) False]
  from assms(1) False pin show ?thesis
    by (simp add: hw_sync_def irq_off_eq Let_def last_out_append)
       (rule set_eqI, use pin in \<open>auto simp: unmasked_def imr_bits imr_bit_cascade\<close>)
qed

lemma ff_bits: "x < 8 \<Longrightarrow> bit (0xff :: int) x"
proof -
  have "(0xff :: int) = mask 8" by (simp add: mask_eq_exp_minus_1)
  then show "x < 8 \<Longrightarrow> bit (0xff :: int) x" by (simp only: bit_mask_iff) simp
qed

lemma pic_init_sync:
  assumes "pics s = pics_static"
  shows "hw_sync (pic_init s)" "unmasked (pic_init s) = {}"
    "io_log (pic_init s) = io_log s @
       [POut 8 0x20 0x11, POut 8 0x21 0x20, POut 8 0x21 4, POut 8 0x21 1, POut 8 0x21 0xff,
        POut 8 0xa0 0x11, POut 8 0xa1 0x28, POut 8 0xa1 2, POut 8 0xa1 1, POut 8 0xa1 0xff]"
  using assms
  by (auto simp: pic_init_def pic_program_def Let_def hw_sync_def pics_ok_def pic_imr_def pics_static_def
     last_out_append unmasked_def ICW1_def ICW4_def IVECTOR_M_def IVECTOR_S_def
    intro!: ff_bits)


text \<open>A sequence of requests to the controllers and the set of open pins it should leave.\<close>

datatype irq_req = IrqOn u16 | IrqOff u16

fun irq_line :: "irq_req \<Rightarrow> u16" where
  "irq_line (IrqOn n) = n"
| "irq_line (IrqOff n) = n"

fun irq_run :: "irq_req list \<Rightarrow> 'a pic_state_scheme \<Rightarrow> 'a pic_state_scheme option" where
  "irq_run [] s = Some s"
| "irq_run (IrqOn n # rs) s = irq_on s n \<bind> irq_run rs"
| "irq_run (IrqOff n # rs) s = irq_off s n \<bind> irq_run rs"

fun irq_pins :: "u16 \<Rightarrow> nat set" where
  "irq_pins n = {unat n} \<union> (if 8 \<le> unat n then {2} else {})"

fun irq_spec :: "irq_req list \<Rightarrow> nat set \<Rightarrow> nat set" where
  "irq_spec [] M = M"
| "irq_spec (IrqOn n # rs) M = irq_spec rs (M \<union> irq_pins n)"
| "irq_spec (IrqOff n # rs) M = irq_spec rs (M - irq_pins n)"

lemma irq_run_sync:
  assumes "hw_sync s" "\<forall>r \<in> set rs. irq_line r < 16"
  shows "\<exists>s'. irq_run rs s = Some s' \<and> hw_sync s' \<and> unmasked s' = irq_spec rs (unmasked s)"
  using assms
proof (induction rs arbitrary: s)
  case (Cons r rs)
  show ?case
  proof (cases r)
    case (IrqOn n)
    then obtain s1 where s1: "irq_on s n = Some s1" "hw_sync s1" "unmasked s1 = unmasked s \<union> irq_pins n"
      using irq_on_unmasks[OF Cons.prems(1), of n] Cons.prems(2) by (auto simp: Un_assoc)
    with Cons.IH[OF s1(2)] Cons.prems(2) IrqOn show ?thesis by simp
  next
    case (IrqOff n)
    then obtain s1 where s1: "irq_off s n = Some s1" "hw_sync s1" "unmasked s1 = unmasked s - irq_pins n"
      using irq_off_masks[OF Cons.prems(1), of n] Cons.prems(2) by (auto simp: Diff_eq)
    with Cons.IH[OF s1(2)] Cons.prems(2) IrqOff show ?thesis by simp
  qed
qed simp

lemma irq_eoi_log:
  assumes "pics_ok s"
  shows "irq_eoi s irq = Some (if irq < NUM_PINS then outb 0x20 0x20 s else outb 0xA0 0x20 (outb 0x20 0x62 s))"
  using assms
  by (simp add: irq_eoi_def pic_eoi_def pic_eoi_cascade.simps pics_okD EOI_def EOI_SPECIFIC_def)

subsection \<open>Properties\<close>

text \<open>C18. After \<open>pic_init\<close> and any sequence of \<open>irq_on\<close> and \<open>irq_off\<close> requests for
  lines below 16, every request has returned, the mask registers of both controllers hold the
  software masks, and the open pins are those the requests ask for: a line and, for a line of the
  slave, the cascade pin of the master.\<close>

theorem pic_masks_refine:
  assumes "pics s = pics_static" "\<forall>r \<in> set rs. irq_line r < 16"
  shows "\<exists>s'. irq_run rs (pic_init s) = Some s' \<and> hw_sync s' \<and> unmasked s' = irq_spec rs {}"
  using irq_run_sync[OF pic_init_sync(1)[OF assms(1)] assms(2)] pic_init_sync(2)[OF assms(1)] by simp

definition demo_pics :: pic_state where
  "demo_pics = \<lparr>io_log = [], pics = pics_static\<rparr>"

theorem pic_masks_refine_witness:
  "\<exists>s'. irq_run [IrqOn 1, IrqOn 14, IrqOff 1] (pic_init demo_pics) = Some s' \<and> hw_sync s' \<and>
     unmasked s' = {2, 14}"
  using pic_masks_refine[of demo_pics "[IrqOn 1, IrqOn 14, IrqOff 1]"]
  by (auto simp: demo_pics_def)

text \<open>C37. Closing one line of the slave controller closes the cascade pin of the master, so no
  line of the slave is delivered afterwards, whichever of them are still meant to be open.\<close>

theorem irq_off_closes_slave:
  assumes "hw_sync s" "irq < 16" "8 \<le> irq"
  shows "\<exists>s'. irq_off s irq = Some s' \<and> delivered s' \<inter> {8..<16} = {}"
  using irq_off_masks[OF assms(1,2)] assms(3)
  by (auto simp: delivered_def word_le_nat_alt)

theorem irq_off_closes_slave_witness:
  "\<exists>s. hw_sync s \<and> unmasked s = {2, 12, 14} \<and>
     (\<exists>s' :: pic_state. irq_off s 12 = Some s' \<and> delivered s' \<inter> {8..<16} = {})"
proof -
  have "\<exists>s'. irq_run [IrqOn 12, IrqOn 14] (pic_init demo_pics) = Some s' \<and> hw_sync s' \<and>
     unmasked s' = irq_spec [IrqOn 12, IrqOn 14] (unmasked (pic_init demo_pics))"
    by (rule irq_run_sync[OF pic_init_sync(1)]) (simp_all add: demo_pics_def)
  moreover have "irq_spec [IrqOn 12, IrqOn 14] (unmasked (pic_init demo_pics)) = {2, 12, 14}"
    by (auto simp: pic_init_sync(2) demo_pics_def)
  ultimately obtain s :: pic_state where "hw_sync s" "unmasked s = {2, 12, 14}"
    by metis
  with irq_off_closes_slave[of s 12] show ?thesis by auto
qed

text \<open>C30. An interrupt of line \<open>irq\<close> runs the handler registered last for that line with its
  private pointer, then ends the interrupt: at the master for its own lines, and for a line of the
  slave first specifically at the cascade pin of the master and then at the slave.\<close>

theorem irq_handler_ends_interrupt:
  assumes "irq < 16" "pics_ok i'"
    and "call h (uint irq) priv (set_irq_handler i (uint irq) h priv, s) = Some (i', s')"
  shows "\<exists>i''. irq_handler call saved (set_irq_handler i (uint irq) h priv, s) irq ctx =
      sched saved s' \<bind> (\<lambda>(s, switched). if switched then Some (i'', s, None)
        else return_from_intr (kmem s) ctx \<bind> (\<lambda>ds. Some (i'', s, Some ds)))
    \<and> pics i'' = pics i'
    \<and> io_log i'' = io_log i' @ (if irq < 8 then [POut 8 0x20 0x20] else [POut 8 0x20 0x62, POut 8 0xA0 0x20])"
proof -
  have small: "uint irq < 16"
    using assms(1) by (simp add: word_less_def)
  moreover have "(ucast irq :: u16) < NUM_PINS \<longleftrightarrow> irq < 8"
  proof -
    have "unat irq < 16" using assms(1) by (simp add: word_less_nat_alt)
    then show ?thesis
      by (simp add: NUM_PINS_def word_less_nat_alt unsigned_ucast_eq take_bit_nat_def)
  qed
  moreover from small have "irq_fns (set_irq_handler i (uint irq) h priv) (uint irq) = h"
    "irq_priv (set_irq_handler i (uint irq) h priv) (uint irq) = priv"
    by (simp_all add: set_irq_handler_def)
  ultimately show ?thesis
    using assms by (auto simp: irq_handler_def irq_eoi_log intro!: exI split: if_splits)
qed

definition demo_irq :: irq_state where
  "demo_irq = \<lparr>io_log = [], pics = pics_static, irq_fns = \<lambda>_. 0, irq_priv = \<lambda>_. 0\<rparr>"

definition demo_call :: "addr \<Rightarrow> int \<Rightarrow> addr \<Rightarrow> irq_state \<times> sched_state \<Rightarrow> (irq_state \<times> sched_state) option" where
  "demo_call h n p st = (if h = 0xc0101000 \<and> p = 7 then Some st else None)"

theorem irq_handler_ends_interrupt_witness:
  "\<exists>i''. irq_handler demo_call zero_tss (set_irq_handler demo_irq 14 0xc0101000 7, demo_sched) 14 0 =
      sched zero_tss demo_sched \<bind> (\<lambda>(s, switched). if switched then Some (i'', s, None)
        else return_from_intr (kmem s) 0 \<bind> (\<lambda>ds. Some (i'', s, Some ds)))
    \<and> io_log i'' = [POut 8 0x20 0x62, POut 8 0xA0 0x20]"
proof -
  have handler: "pics (set_irq_handler demo_irq 14 0xc0101000 7) = pics_static"
    "io_log (set_irq_handler demo_irq 14 0xc0101000 7) = []"
    by (simp_all add: demo_irq_def set_irq_handler_def)
  then have ok: "pics_ok (set_irq_handler demo_irq 14 0xc0101000 7)"
    by (simp add: pics_ok_def pic_imr_def pics_static_def)
  show ?thesis
    using irq_handler_ends_interrupt[OF _ ok, where irq = 14 and call = demo_call and h = "0xc0101000"
        and priv = 7 and i = demo_irq and s = demo_sched and s' = demo_sched and saved = zero_tss and ctx = 0]
    by (simp add: handler demo_call_def) blast
qed

end
