(* ===== verification/Vga.thy ===== *)
theory Vga
  imports Interrupt
begin

text \<open>
  The text console (\<^verbatim>\<open>arch-ia32/vga.c\<close>). \<open>vidmem\<close> is the video memory by offset from
  \<^verbatim>\<open>VIDMEM\<close>: a character and an attribute byte for each of the 25 times 80 cells. The theorems
  show that the console never touches memory outside the screen and that it implements a terminal
  that is a grid of characters with a cursor.
\<close>

section \<open>The driver\<close>

definition COLS :: int where "COLS = 80"
definition ROWS :: int where "ROWS = 25"
definition MONITOR_NONE :: u32 where "MONITOR_NONE = 0"
definition MONITOR_COLOUR :: u32 where "MONITOR_COLOUR = 1"
definition MONITOR_MONO :: u32 where "MONITOR_MONO = 2"
definition MONITOR_UNKNOWN :: u32 where "MONITOR_UNKNOWN = 3"
definition CRTC_INDEX_REG :: u32 where "CRTC_INDEX_REG = 0x3d4"
definition CRTC_DATA_REG :: u32 where "CRTC_DATA_REG = 0x3d5"

record vga_state = irq_state +
  vidmem :: "int \<Rightarrow> u8"
  attrib :: u16
  xpos :: u8
  ypos :: u8
  monitor :: u32

definition vid_set :: "int \<Rightarrow> u8 \<Rightarrow> 'a vga_state_scheme \<Rightarrow> 'a vga_state_scheme" where
  "vid_set i v s = s\<lparr>vidmem := (vidmem s)(i := v)\<rparr>"

definition vga_curs :: "int \<Rightarrow> int \<Rightarrow> 'a vga_state_scheme \<Rightarrow> 'a vga_state_scheme" where
  "vga_curs x y s =
     (let x = (if x < 0 then uint (xpos s) else x);
          y = (if y < 0 then uint (ypos s) else y);
          vid_off = (word_of_int ((x + y * COLS) * 2) :: u32);
          vid_off = drop_bit 1 vid_off;
          s = outb CRTC_INDEX_REG 0x0f s;
          s = outb CRTC_DATA_REG (ucast (vid_off AND 0xfff)) s;
          s = outw CRTC_INDEX_REG 0x0e s
      in outb CRTC_DATA_REG (ucast (drop_bit 8 vid_off)) s)"

text \<open>The loop of \<open>vga_preinit\<close> that clears the screen, one cell for each step.\<close>

primrec vga_clear :: "nat \<Rightarrow> 'a vga_state_scheme \<Rightarrow> 'a vga_state_scheme" where
  "vga_clear 0 s = s"
| "vga_clear (Suc n) s =
     (let s = vga_clear n s;
          i = 2 * int n
      in vid_set (i + 1) (ucast (attrib s)) (vid_set i 0 s))"

text \<open>\<open>equip\<close> is the equipment byte of the BIOS data area at physical address 0x410.\<close>

definition vga_preinit :: "u8 \<Rightarrow> 'a vga_state_scheme \<Rightarrow> 'a vga_state_scheme" where
  "vga_preinit equip s =
     (let t = equip AND 0x30;
          s = (if t = 0x00 then s\<lparr>monitor := MONITOR_NONE\<rparr>
               else if t = 0x20 then s\<lparr>monitor := MONITOR_COLOUR\<rparr>
               else if t = 0x30 then s\<lparr>monitor := MONITOR_MONO, attrib := 0x00 - 7\<rparr>
               else s\<lparr>monitor := MONITOR_UNKNOWN\<rparr>);
          s = vga_clear (nat (COLS * ROWS)) s
      in vga_curs 0 0 s)"

text \<open>The two loops of the scroll: characters move up one line, the last line is blanked.\<close>

primrec vga_scroll :: "nat \<Rightarrow> 'a vga_state_scheme \<Rightarrow> 'a vga_state_scheme" where
  "vga_scroll 0 s = s"
| "vga_scroll (Suc n) s =
     (let s = vga_scroll n s;
          i = COLS + int n
      in vid_set ((i - COLS) * 2) (vidmem s (i * 2)) s)"

primrec vga_blank :: "nat \<Rightarrow> 'a vga_state_scheme \<Rightarrow> 'a vga_state_scheme" where
  "vga_blank 0 s = s"
| "vga_blank (Suc n) s =
     (let s = vga_blank n s;
          c = (ROWS * COLS - COLS + int n) * 2
      in vid_set (c + 1) (ucast (attrib s)) (vid_set c 0x20 s))"

definition vga_newline :: "'a vga_state_scheme \<Rightarrow> 'a vga_state_scheme" where
  "vga_newline s =
     (let s = s\<lparr>xpos := 0, ypos := ypos s + 1\<rparr>
      in if ROWS \<le> uint (ypos s)
         then let s = vga_scroll (nat (ROWS * COLS - COLS)) s;
                  s = vga_blank (nat COLS) s
              in s\<lparr>ypos := ypos s - 1\<rparr>
         else s)"

definition vga_cell :: "'a vga_state_scheme \<Rightarrow> int" where
  "vga_cell s = (uint (xpos s) + uint (ypos s) * COLS) * 2"

definition vga_put :: "u8 \<Rightarrow> 'a vga_state_scheme \<Rightarrow> 'a vga_state_scheme" where
  "vga_put c s =
     (if c = 8 then
        let s = (if xpos s = 0
                 then (let s = (if ypos s \<noteq> 0 then s\<lparr>ypos := ypos s - 1\<rparr> else s)
                       in s\<lparr>xpos := word_of_int (COLS - 1)\<rparr>)
                 else s\<lparr>xpos := xpos s - 1\<rparr>);
            s = vid_set (vga_cell s) 0x20 s
        in vid_set (vga_cell s + 1) (ucast (attrib s)) s
      else if c = 10 \<or> c = 13 then vga_newline s
      else
        let s = vid_set (vga_cell s) c s;
            s = vid_set (vga_cell s + 1) (ucast (attrib s)) s;
            s = s\<lparr>xpos := xpos s + 1\<rparr>
        in if COLS \<le> uint (xpos s) then vga_newline s else s)"

section \<open>The terminal\<close>

record terminal =
  t_grid :: "nat \<Rightarrow> nat \<Rightarrow> u8"
  t_x :: nat
  t_y :: nat

definition t_newline :: "terminal \<Rightarrow> terminal" where
  "t_newline t =
     (if Suc (t_y t) < 25 then t\<lparr>t_x := 0, t_y := Suc (t_y t)\<rparr>
      else t\<lparr>t_x := 0, t_grid := (\<lambda>r. if r = 24 then (\<lambda>_. 0x20) else t_grid t (Suc r))\<rparr>)"

definition t_write :: "u8 \<Rightarrow> terminal \<Rightarrow> terminal" where
  "t_write c t = t\<lparr>t_grid := (t_grid t)(t_y t := (t_grid t (t_y t))(t_x t := c))\<rparr>"

definition t_back :: "terminal \<Rightarrow> terminal" where
  "t_back t = (if t_x t = 0 then t\<lparr>t_x := 79, t_y := t_y t - 1\<rparr> else t\<lparr>t_x := t_x t - 1\<rparr>)"

definition t_put :: "u8 \<Rightarrow> terminal \<Rightarrow> terminal" where
  "t_put c t =
     (if c = 8 then t_write 0x20 (t_back t)
      else if c = 10 \<or> c = 13 then t_newline t
      else let t = t_write c t in
        if t_x t = 79 then t_newline t else t\<lparr>t_x := Suc (t_x t)\<rparr>)"

text \<open>The console shows the grid \<open>g\<close>, all of it in the current attribute, and the memory around
  the screen is \<open>m\<close>.\<close>

definition screen :: "(int \<Rightarrow> u8) \<Rightarrow> (nat \<Rightarrow> nat \<Rightarrow> u8) \<Rightarrow> 'a vga_state_scheme \<Rightarrow> bool" where
  "screen m g s \<longleftrightarrow>
     (\<forall>r<25. \<forall>c<80. vidmem s (2 * (80 * int r + int c)) = g r c \<and>
        vidmem s (2 * (80 * int r + int c) + 1) = ucast (attrib s)) \<and>
     (\<forall>i. i < 0 \<or> 4000 \<le> i \<longrightarrow> vidmem s i = m i)"

definition shows_term :: "(int \<Rightarrow> u8) \<Rightarrow> terminal \<Rightarrow> 'a vga_state_scheme \<Rightarrow> bool" where
  "shows_term m t s \<longleftrightarrow> t_x t < 80 \<and> t_y t < 25 \<and>
     uint (xpos s) = int (t_x t) \<and> uint (ypos s) = int (t_y t) \<and> screen m (t_grid t) s"

lemma vid_set_simps [simp]:
  "vidmem (vid_set i v s) = (vidmem s)(i := v)" "attrib (vid_set i v s) = attrib s"
  "xpos (vid_set i v s) = xpos s" "ypos (vid_set i v s) = ypos s" "io_log (vid_set i v s) = io_log s"
  "monitor (vid_set i v s) = monitor s" "vga_cell (vid_set i v s) = vga_cell s"
  by (simp_all add: vid_set_def vga_cell_def)

lemma vga_scroll_frame [simp]:
  "attrib (vga_scroll n s) = attrib s" "xpos (vga_scroll n s) = xpos s" "ypos (vga_scroll n s) = ypos s"
  by (induction n) (simp_all add: Let_def)

lemma vga_blank_frame [simp]:
  "attrib (vga_blank n s) = attrib s" "xpos (vga_blank n s) = xpos s" "ypos (vga_blank n s) = ypos s"
  by (induction n) (simp_all add: Let_def)

lemma vga_clear_frame [simp]:
  "attrib (vga_clear n s) = attrib s" "xpos (vga_clear n s) = xpos s" "ypos (vga_clear n s) = ypos s"
  by (induction n) (simp_all add: Let_def)

lemma vga_scroll_mem:
  "vidmem (vga_scroll n s) i =
    (if even i \<and> 0 \<le> i \<and> i < 2 * int n then vidmem s (160 + i) else vidmem s i)"
  by (induction n arbitrary: i) (auto simp: Let_def COLS_def elim!: evenE)

lemma vga_blank_mem:
  "vidmem (vga_blank n s) i =
    (if 3840 \<le> i \<and> i < 3840 + 2 * int n then if even i then 0x20 else ucast (attrib s) else vidmem s i)"
  by (induction n arbitrary: i) (auto simp: Let_def COLS_def ROWS_def elim!: evenE oddE)

lemma vga_clear_mem:
  "vidmem (vga_clear n s) i =
    (if 0 \<le> i \<and> i < 2 * int n then if even i then 0 else ucast (attrib s) else vidmem s i)"
  by (induction n arbitrary: i) (auto simp: Let_def elim!: evenE oddE)

lemma screen_cursor [simp]:
  "screen m g (s\<lparr>xpos := x\<rparr>) = screen m g s" "screen m g (s\<lparr>ypos := y\<rparr>) = screen m g s"
  by (simp_all add: screen_def)

lemma screenD:
  assumes "screen m g s" "r < 25" "c < 80"
  shows "vidmem s (2 * (80 * int r + int c)) = g r c"
    "vidmem s (2 * (80 * int r + int c) + 1) = ucast (attrib s)"
  using assms by (simp_all add: screen_def)

lemma cell_inj:
  assumes "c < 80" "c' < (80 :: nat)"
  shows "80 * int r + int c = 80 * int r' + int c' \<longleftrightarrow> r = r' \<and> c = c'"
proof
  assume e: "80 * int r + int c = 80 * int r' + int c'"
  have "(80 * r + c) div 80 = r" "(80 * r' + c') div 80 = r'" using assms by simp_all
  moreover from e have "80 * r + c = 80 * r' + c'" by linarith
  ultimately show "r = r' \<and> c = c'" by auto
qed simp

lemma odd_ne: "2 * a + 1 \<noteq> (2 * b :: int)"
  by presburger

text \<open>Writing a cell, attribute included.\<close>

lemma screen_write:
  assumes "screen m g s" "x < 80" "y < 25" "i = 2 * (80 * int y + int x)"
  shows "screen m (g(y := (g y)(x := v))) (vid_set (i + 1) (ucast (attrib s)) (vid_set i v s))"
proof -
  have "2 * (80 * int r + int c) + 1 \<noteq> i" "2 * (80 * int r + int c) \<noteq> i + 1" for r c
    unfolding assms(4) by (rule odd_ne, rule odd_ne [symmetric])
  then show ?thesis using assms by (auto simp: screen_def cell_inj)
qed

lemma screen_scroll:
  assumes "screen m g s"
  shows "screen m (\<lambda>r. if r = 24 then (\<lambda>_. 0x20) else g (Suc r)) (vga_blank 80 (vga_scroll 1920 s))"
proof -
  have "vidmem (vga_blank 80 (vga_scroll 1920 s)) (2 * (80 * int r + int c)) =
      (if r = 24 then (\<lambda>_. 0x20) else g (Suc r)) c \<and>
    vidmem (vga_blank 80 (vga_scroll 1920 s)) (2 * (80 * int r + int c) + 1) = ucast (attrib s)"
    if "r < 25" "c < 80" for r c
  proof (cases "r = 24")
    case True
    then show ?thesis using that by (simp add: vga_blank_mem)
  next
    case False
    then have "r < 24" using that by simp
    then have "vidmem s (2 * (80 * int (Suc r) + int c)) = g (Suc r) c"
      using that(2) screenD(1) [OF assms, of "Suc r" c] by simp
    moreover have "2 * (80 * int (Suc r) + int c) = 160 + 2 * (80 * int r + int c)" by simp
    ultimately have "vidmem s (160 + 2 * (80 * int r + int c)) = g (Suc r) c" by metis
    then show ?thesis using that \<open>r < 24\<close> screenD(2) [OF assms that]
      by (simp add: vga_blank_mem vga_scroll_mem)
  qed
  moreover have "vidmem (vga_blank 80 (vga_scroll 1920 s)) i = m i" if "i < 0 \<or> 4000 \<le> i" for i
    using that assms by (auto simp: screen_def vga_blank_mem vga_scroll_mem)
  ultimately show ?thesis unfolding screen_def vga_blank_frame vga_scroll_frame by blast
qed

lemma newline_shows:
  assumes "screen m (t_grid t) s" "uint (ypos s) = int (t_y t)" "t_y t < 25"
  shows "shows_term m (t_newline t) (vga_newline s)"
proof -
  have y: "uint (ypos s + 1) = int (Suc (t_y t))"
    using assms(2,3) by (simp add: uint_word_ariths(1) take_bit_int_eq_self)
  let ?s = "s\<lparr>xpos := 0, ypos := ypos s + 1\<rparr>"
  have sc: "screen m (t_grid t) ?s" using assms(1) by simp
  show ?thesis
  proof (cases "Suc (t_y t) < 25")
    case True
    then have "vga_newline s = ?s" using y by (simp add: vga_newline_def ROWS_def)
    then show ?thesis using True y sc by (simp add: shows_term_def t_newline_def)
  next
    case False
    let ?s' = "vga_blank 80 (vga_scroll 1920 ?s)"
    have n: "vga_newline s = ?s'\<lparr>ypos := ypos ?s' - 1\<rparr>"
      using False y by (simp add: vga_newline_def ROWS_def COLS_def)
    have "t_grid (t_newline t) = (\<lambda>r. if r = 24 then (\<lambda>_. 0x20) else t_grid t (Suc r))"
      using False by (simp add: t_newline_def)
    then have "screen m (t_grid (t_newline t)) (vga_newline s)"
      unfolding n using screen_scroll [OF sc] by simp
    then show ?thesis using n False assms(2,3) by (simp add: shows_term_def t_newline_def)
  qed
qed

lemma back_shows:
  assumes "shows_term m t s"
  shows "shows_term m (t_back t) (if xpos s = 0
    then (let s = (if ypos s \<noteq> 0 then s\<lparr>ypos := ypos s - 1\<rparr> else s) in s\<lparr>xpos := word_of_int (COLS - 1)\<rparr>)
    else s\<lparr>xpos := xpos s - 1\<rparr>)"
proof -
  have u: "uint (w - 1) = uint w - 1" if "w \<noteq> 0" for w :: u8
    using that by (simp add: uint_minus_simple_alt word_le_def uint_sub_if')
       (metis int_one_le_iff_zero_less uint_0_iff uint_ge_0 order_le_less)
  have z: "w = 0 \<longleftrightarrow> uint w = 0" for w :: u8 by (simp add: uint_0_iff)
  show ?thesis using assms
    by (auto simp: shows_term_def t_back_def Let_def COLS_def u z of_nat_diff)
qed

lemma write_shows:
  assumes "shows_term m t s"
  shows "shows_term m (t_write v t) (vid_set (vga_cell s + 1) (ucast (attrib s)) (vid_set (vga_cell s) v s))"
proof -
  have "vga_cell s = 2 * (80 * int (t_y t) + int (t_x t))"
    using assms by (simp add: shows_term_def vga_cell_def COLS_def)
  then show ?thesis using assms screen_write [of m "t_grid t" s "t_x t" "t_y t" "vga_cell s" v]
    by (simp add: shows_term_def t_write_def)
qed

lemma put_shows:
  assumes "shows_term m t s"
  shows "shows_term m (t_put c t) (vga_put c s)"
proof -
  consider "c = 8" | "c = 10 \<or> c = 13" | "c \<noteq> 8" "c \<noteq> 10" "c \<noteq> 13" by blast
  then show ?thesis
  proof cases
    case 1
    then show ?thesis using write_shows [OF back_shows [OF assms], of "0x20"]
      by (simp add: vga_put_def t_put_def Let_def)
  next
    case 2
    then show ?thesis using newline_shows [of m t s] assms
      by (auto simp: vga_put_def t_put_def shows_term_def)
  next
    case 3
    let ?s = "vid_set (vga_cell s + 1) (ucast (attrib s)) (vid_set (vga_cell s) c s)"
    have w: "shows_term m (t_write c t) ?s" by (rule write_shows [OF assms])
    then have x: "uint (xpos s + 1) = int (Suc (t_x t))"
      by (simp add: shows_term_def t_write_def uint_word_ariths(1) take_bit_int_eq_self)
    have p: "vga_put c s = (if COLS \<le> uint (xpos s + 1) then vga_newline (?s\<lparr>xpos := xpos s + 1\<rparr>)
        else ?s\<lparr>xpos := xpos s + 1\<rparr>)"
      using 3 by (simp add: vga_put_def Let_def)
    have q: "t_put c t = (if t_x t = 79 then t_newline (t_write c t) else (t_write c t)\<lparr>t_x := Suc (t_x t)\<rparr>)"
      using 3 by (simp add: t_put_def Let_def t_write_def)
    have "t_x (t_write c t) = t_x t" by (simp add: t_write_def)
    then show ?thesis using w newline_shows [of m "t_write c t" "?s\<lparr>xpos := xpos s + 1\<rparr>"]
      unfolding p q by (auto simp: shows_term_def COLS_def x)
  qed
qed

definition t_blank :: terminal where
  "t_blank = \<lparr>t_grid = (\<lambda>_ _. 0), t_x = 0, t_y = 0\<rparr>"

lemma vga_curs_frame [simp]:
  "vidmem (vga_curs x y s) = vidmem s" "attrib (vga_curs x y s) = attrib s"
  "xpos (vga_curs x y s) = xpos s" "ypos (vga_curs x y s) = ypos s"
  by (simp_all add: vga_curs_def Let_def outb_def outw_def)

lemma clear_shows:
  assumes "xpos s = 0" "ypos s = 0"
  shows "shows_term (vidmem s) t_blank (vga_clear 2000 s)"
  using assms by (auto simp: shows_term_def t_blank_def screen_def vga_clear_mem)

lemma curs_shows [simp]: "shows_term m t (vga_curs x y s) = shows_term m t s"
  by (simp add: shows_term_def screen_def)

lemma preinit_shows:
  "shows_term (vidmem s) t_blank (vga_preinit e (s\<lparr>xpos := 0, ypos := 0\<rparr>))"
  using clear_shows [of "s\<lparr>xpos := 0, ypos := 0, monitor := M\<rparr>" for M]
    clear_shows [of "s\<lparr>xpos := 0, ypos := 0, monitor := M, attrib := A\<rparr>" for M A]
  by (simp add: vga_preinit_def Let_def COLS_def ROWS_def)

lemma puts_shows: "shows_term m t s \<Longrightarrow> shows_term m (fold t_put cs t) (fold vga_put cs s)"
  by (induction cs arbitrary: t s) (simp_all add: put_shows)

text \<open>
  C15. From the moment the console is set up, whatever the machine's monitor and whatever is
  put on it, the screen shows the terminal: its characters are those of a 25 by 80 grid to which the
  text has been written with backspace, line wrap and scrolling, every cell has the current
  attribute, the cursor is on the grid, and no byte outside the 4000 bytes of the screen has
  changed.
\<close>

theorem vga_refines_terminal:
  "shows_term (vidmem s) (fold t_put cs t_blank) (fold vga_put cs (vga_preinit e (s\<lparr>xpos := 0, ypos := 0\<rparr>)))"
  by (rule puts_shows [OF preinit_shows])

end
