(* ===== verification/Ctype.thy ===== *)
theory Ctype
  imports Prelude
begin

text \<open>
  Character classes (\<^verbatim>\<open>kernel/ctype.c\<close>, \<^verbatim>\<open>include/scaraOS/ctype.h\<close>). A character is
  a byte; \<open>ch\<close> gives the byte of a character constant of the source.
\<close>

definition ch :: "char \<Rightarrow> u8" where
  "ch c = of_nat (of_char c)"

definition ctype_U :: u8 where "ctype_U = 0x01"
definition ctype_L :: u8 where "ctype_L = 0x02"
definition ctype_D :: u8 where "ctype_D = 0x04"
definition ctype_C :: u8 where "ctype_C = 0x08"
definition ctype_P :: u8 where "ctype_P = 0x10"
definition ctype_S :: u8 where "ctype_S = 0x20"
definition ctype_X :: u8 where "ctype_X = 0x40"
definition ctype_SP :: u8 where "ctype_SP = 0x80"

lemmas ctype_bits = ctype_U_def ctype_L_def ctype_D_def ctype_C_def ctype_P_def ctype_S_def
  ctype_X_def ctype_SP_def

text \<open>The table, as its runs of equal entries.\<close>

definition ctype_runs :: "(nat \<times> u8) list" where
  "ctype_runs =
    [(9, ctype_C), (5, ctype_C OR ctype_S), (18, ctype_C),
     (1, ctype_S OR ctype_SP), (15, ctype_P), (10, ctype_D), (7, ctype_P),
     (6, ctype_U OR ctype_X), (20, ctype_U), (6, ctype_P),
     (6, ctype_L OR ctype_X), (20, ctype_L), (4, ctype_P), (1, ctype_C),
     (32, 0), (1, ctype_S OR ctype_SP), (31, ctype_P),
     (23, ctype_U), (1, ctype_P), (7, ctype_U), (24, ctype_L), (1, ctype_P), (8, ctype_L)]"

definition ctype :: "u8 list" where
  "ctype = concat (map (\<lambda>(n, c). replicate n c) ctype_runs)"

definition ismask :: "u8 \<Rightarrow> u8" where
  "ismask c = ctype ! unat c"

definition isalnum :: "u8 \<Rightarrow> bool" where "isalnum c \<longleftrightarrow> ismask c AND (ctype_U OR ctype_L OR ctype_D) \<noteq> 0"
definition isalpha :: "u8 \<Rightarrow> bool" where "isalpha c \<longleftrightarrow> ismask c AND (ctype_U OR ctype_L) \<noteq> 0"
definition iscntrl :: "u8 \<Rightarrow> bool" where "iscntrl c \<longleftrightarrow> ismask c AND ctype_C \<noteq> 0"
definition isdigit :: "u8 \<Rightarrow> bool" where "isdigit c \<longleftrightarrow> ismask c AND ctype_D \<noteq> 0"
definition isgraph :: "u8 \<Rightarrow> bool" where "isgraph c \<longleftrightarrow> ismask c AND (ctype_P OR ctype_U OR ctype_L OR ctype_D) \<noteq> 0"
definition islower :: "u8 \<Rightarrow> bool" where "islower c \<longleftrightarrow> ismask c AND ctype_L \<noteq> 0"
definition isprint :: "u8 \<Rightarrow> bool" where
  "isprint c \<longleftrightarrow> ismask c AND (ctype_P OR ctype_U OR ctype_L OR ctype_D OR ctype_SP) \<noteq> 0"
definition ispunct :: "u8 \<Rightarrow> bool" where "ispunct c \<longleftrightarrow> ismask c AND ctype_P \<noteq> 0"
definition isspace :: "u8 \<Rightarrow> bool" where "isspace c \<longleftrightarrow> ismask c AND ctype_S \<noteq> 0"
definition isupper :: "u8 \<Rightarrow> bool" where "isupper c \<longleftrightarrow> ismask c AND ctype_U \<noteq> 0"
definition isxdigit :: "u8 \<Rightarrow> bool" where "isxdigit c \<longleftrightarrow> ismask c AND (ctype_D OR ctype_X) \<noteq> 0"
definition isascii :: "u8 \<Rightarrow> bool" where "isascii c \<longleftrightarrow> c \<le> 0x7f"
definition toascii :: "u8 \<Rightarrow> u8" where "toascii c = c AND 0x7f"

definition tolower :: "u8 \<Rightarrow> u8" where
  "tolower c = (if isupper c then c - (ch CHR ''A'' - ch CHR ''a'') else c)"

definition toupper :: "u8 \<Rightarrow> u8" where
  "toupper c = (if islower c then c - (ch CHR ''a'' - ch CHR ''A'') else c)"

lemma length_ctype: "length ctype = 256"
  by (simp add: ctype_def ctype_runs_def)

lemma unat_ch: "unat (ch c) = of_char c"
proof -
  have "of_char c < (256 :: nat)" by simp
  then show ?thesis
    by (simp add: ch_def unsigned_of_nat take_bit_nat_eq_self)
qed

lemma ch_eq_iff [simp]: "ch a = ch b \<longleftrightarrow> a = b"
  by (metis unat_ch char_of_char)

text \<open>A class is decided run by run.\<close>

fun run_at :: "(nat \<times> u8) list \<Rightarrow> nat \<Rightarrow> u8" where
  "run_at [] i = 0"
| "run_at ((n, c) # rs) i = (if i < n then c else run_at rs (i - n))"

lemma nth_runs:
  "i < length (concat (map (\<lambda>(n, c). replicate n c) rs)) \<Longrightarrow>
   concat (map (\<lambda>(n, c). replicate n c) rs) ! i = run_at rs i"
  by (induction rs i rule: run_at.induct) (auto simp: nth_append)

lemma ismask_runs: "ismask c = run_at ctype_runs (unat c)"
proof -
  have "unat c < 256" using unsigned_less[of c] by simp
  then show ?thesis
    unfolding ismask_def ctype_def by (rule_tac nth_runs) (simp add: ctype_runs_def)
qed

text \<open>The intervals of bytes whose entry meets a mask.\<close>

fun class_ranges :: "u8 \<Rightarrow> nat \<Rightarrow> (nat \<times> u8) list \<Rightarrow> (nat \<times> nat) list" where
  "class_ranges m k [] = []"
| "class_ranges m k ((n, c) # rs) =
     (if c AND m \<noteq> 0 then (k, k + n) # class_ranges m (k + n) rs else class_ranges m (k + n) rs)"

lemma run_at_ranges:
  "run_at rs i AND m \<noteq> 0 \<longleftrightarrow> list_ex (\<lambda>(a, b). a \<le> k + i \<and> k + i < b) (class_ranges m k rs)"
proof (induction rs i arbitrary: k rule: run_at.induct)
  case (2 n c rs i)
  have later: "k + n \<le> a" if "(a, b) \<in> set (class_ranges m (k + n) rs)" for a b
    using that by (induction m "k + n" rs arbitrary: k n rule: class_ranges.induct)
      (fastforce split: if_splits)+
  show ?case
  proof (cases "i < n")
    case True
    with later show ?thesis by (fastforce simp: list_ex_iff)
  next
    case False
    with 2[of "k + n"] show ?thesis by simp
  qed
qed simp

lemma ismask_class:
  "ismask c AND m \<noteq> 0 \<longleftrightarrow> list_ex (\<lambda>(a, b). a \<le> unat c \<and> unat c < b) (class_ranges m 0 ctype_runs)"
  using run_at_ranges[of ctype_runs "unat c" m 0] by (simp add: ismask_runs)

lemma class_eval:
  "class_ranges ctype_D 0 ctype_runs = [(48, 58)]"
  "class_ranges (ctype_D OR ctype_X) 0 ctype_runs = [(48, 58), (65, 71), (97, 103)]"
  "class_ranges ctype_U 0 ctype_runs = [(65, 71), (71, 91), (192, 215), (216, 223)]"
  "class_ranges ctype_L 0 ctype_runs = [(97, 103), (103, 123), (223, 247), (248, 256)]"
  "class_ranges ctype_S 0 ctype_runs = [(9, 14), (32, 33), (160, 161)]"
  "class_ranges (ctype_P OR ctype_U OR ctype_L OR ctype_D OR ctype_SP) 0 ctype_runs =
     [(32, 33), (33, 48), (48, 58), (58, 65), (65, 71), (71, 91), (91, 97), (97, 103), (103, 123), (123, 127),
      (160, 161), (161, 192), (192, 215), (215, 216), (216, 223), (223, 247), (247, 248), (248, 256)]"
  by code_simp+

lemma isdigit_iff: "isdigit c \<longleftrightarrow> unat c \<in> {48..57}"
  unfolding isdigit_def ismask_class class_eval by auto

lemma isxdigit_iff: "isxdigit c \<longleftrightarrow> unat c \<in> {48..57} \<union> {65..70} \<union> {97..102}"
  unfolding isxdigit_def ismask_class class_eval by auto

lemma isupper_iff: "unat c < 128 \<Longrightarrow> isupper c \<longleftrightarrow> unat c \<in> {65..90}"
  unfolding isupper_def ismask_class class_eval by auto

lemma islower_iff: "unat c < 128 \<Longrightarrow> islower c \<longleftrightarrow> unat c \<in> {97..122}"
  unfolding islower_def ismask_class class_eval by auto

lemma isspace_iff: "unat c < 128 \<Longrightarrow> isspace c \<longleftrightarrow> unat c \<in> {9..13} \<union> {32}"
  unfolding isspace_def ismask_class class_eval by auto

lemma isprint_iff: "unat c < 128 \<Longrightarrow> isprint c \<longleftrightarrow> unat c \<in> {32..126}"
  unfolding isprint_def ismask_class class_eval by (simp only: list_ex_iff list.set Set.bex_simps prod.case atLeastAtMost_iff) presburger

lemma case_offset: "ch CHR ''a'' - ch CHR ''A'' = 32" "ch CHR ''A'' - ch CHR ''a'' = - 32"
  by (simp_all add: ch_def)



end
