(* ===== verification/Vsprintf.thy ===== *)
theory Vsprintf
  imports KString Ctype
begin

text \<open>
  Formatted output into a buffer (\<^verbatim>\<open>kernel/vsprintf.c\<close>) and the 64-bit division it uses
  (\<^verbatim>\<open>include/arch-ia32/div64.h\<close>). The buffer, the format and the strings are in memory and
  may overlap as the caller likes. A \<open>va_list\<close> is a pointer to the words on the caller's stack.
  Field widths and precisions are C ints; signed overflow is undefined in C, so they are unbounded
  here. The functions whose source is between \<^verbatim>\<open>#if 0\<close> and \<^verbatim>\<open>#endif\<close> are not
  compiled and not modelled.
\<close>

subsection \<open>Division\<close>

text \<open>\<open>do_div\<close> divides the 64-bit \<open>n\<close> by the 32-bit \<open>base\<close> with two 32-bit divisions, the
  second of which is the \<open>divl\<close> instruction: it divides \<open>edx:eax\<close>, and faults when
  the quotient does not fit 32 bits. The result is the remainder and the new \<open>n\<close>.\<close>

definition divl :: "u32 \<Rightarrow> u32 \<Rightarrow> u32 \<Rightarrow> (u32 \<times> u32) option" where
  "divl hi lo d = (let n = unat hi * 2 ^ 32 + unat lo in
     if d = 0 \<or> n div unat d \<ge> 2 ^ 32 then None
     else Some (of_nat (n div unat d), of_nat (n mod unat d)))"

definition do_div :: "u64 \<Rightarrow> u32 \<Rightarrow> (u32 \<times> u64) option" where
  "do_div n base = do {
     let low = (ucast n :: u32);
     let high = (ucast (drop_bit 32 n) :: u32);
     let upper = (if high \<noteq> 0 then high mod base else high);
     let high = (if high \<noteq> 0 then high div base else high);
     (low, m) \<leftarrow> divl upper low base;
     Some (m, push_bit 32 (ucast high) OR ucast low)
   }"

subsection \<open>Numbers\<close>

definition ZEROPAD :: u32 where "ZEROPAD = 1"
definition SIGN :: u32 where "SIGN = 2"
definition PLUS :: u32 where "PLUS = 4"
definition SPACE :: u32 where "SPACE = 8"
definition LEFT :: u32 where "LEFT = 16"
definition SPECIAL :: u32 where "SPECIAL = 32"
definition LARGE :: u32 where "LARGE = 64"

text \<open>Output: the memory and the pointer to the next character. A character is stored only when the
  pointer has not passed \<open>e\<close>, the last byte of the buffer; the pointer always advances.\<close>

type_synonym out = "mem \<times> addr"

definition emit :: "addr \<Rightarrow> u8 \<Rightarrow> out \<Rightarrow> out" where
  "emit e c st = (case st of (m, str) \<Rightarrow> (if str \<le> e then m(str := c) else m, str + 1))"

text \<open>\<open>while (size-- > 0) { if (buf <= end) *buf = c; ++buf; }\<close>\<close>

function pad_loop :: "addr \<Rightarrow> u8 \<Rightarrow> int \<Rightarrow> out \<Rightarrow> int \<times> out" where
  "pad_loop e c sz st = (if 0 < sz then pad_loop e c (sz - 1) (emit e c st) else (sz - 1, st))"
  by auto
termination by (relation "measure (\<lambda>(_, _, sz, _). nat sz)") auto

text \<open>\<open>while (lo < hi--) ...\<close>, with the same body.\<close>

function pad_above :: "addr \<Rightarrow> u8 \<Rightarrow> int \<Rightarrow> int \<Rightarrow> out \<Rightarrow> int \<times> out" where
  "pad_above e c lo hi st = (if lo < hi then pad_above e c lo (hi - 1) (emit e c st) else (hi - 1, st))"
  by auto
termination by (relation "measure (\<lambda>(_, _, lo, hi, _). nat (hi - lo))") auto

text \<open>The digits of \<open>num\<close>, least significant first, into \<open>tmp\<close>, an array of 66 characters; a
  store past its end would corrupt the stack.\<close>

definition tmp_size :: nat where "tmp_size = 66"

definition small_digits :: string where "small_digits = ''0123456789abcdefghijklmnopqrstuvwxyz''"
definition large_digits :: string where "large_digits = ''0123456789ABCDEFGHIJKLMNOPQRSTUVWXYZ''"

partial_function (option) digit_loop :: "string \<Rightarrow> u32 \<Rightarrow> u64 \<Rightarrow> u8 list \<Rightarrow> u8 list option" where
  "digit_loop digits base num tmp =
     (if num = 0 then Some tmp
      else do {
        (d, num) \<leftarrow> do_div num base;
        if length tmp < tmp_size then digit_loop digits base num (tmp @ [ch (digits ! unat d)]) else None
      })"

text \<open>\<open>while (i-- > 0) { if (buf <= end) *buf = tmp[i]; ++buf; }\<close>\<close>

fun put_digits :: "addr \<Rightarrow> u8 list \<Rightarrow> nat \<Rightarrow> out \<Rightarrow> out" where
  "put_digits e tmp 0 st = st"
| "put_digits e tmp (Suc i) st = put_digits e tmp i (emit e (tmp ! i) st)"

text \<open>The sign character and the field width left after it; \<open>num < 0\<close> is a signed comparison.\<close>

definition number_sign :: "u64 \<Rightarrow> int \<Rightarrow> u32 \<Rightarrow> u8 \<times> u64 \<times> int" where
  "number_sign num sz type =
     (if type AND SIGN \<noteq> 0
      then if sint num < 0 then (ch CHR ''-'', - num, sz - 1)
           else if type AND PLUS \<noteq> 0 then (ch CHR ''+'', num, sz - 1)
           else if type AND SPACE \<noteq> 0 then (ch CHR '' '', num, sz - 1)
           else (0, num, sz)
      else (0, num, sz))"

definition number_prefix :: "addr \<Rightarrow> string \<Rightarrow> u32 \<Rightarrow> u32 \<Rightarrow> out \<Rightarrow> out" where
  "number_prefix e digits base type st =
     (if type AND SPECIAL \<noteq> 0
      then if base = 8 then emit e (ch CHR ''0'') st
           else if base = 16 then emit e (ch (digits ! 33)) (emit e (ch CHR ''0'') st)
           else st
      else st)"

definition number :: "mem \<Rightarrow> addr \<Rightarrow> addr \<Rightarrow> u64 \<Rightarrow> u32 \<Rightarrow> int \<Rightarrow> int \<Rightarrow> u32 \<Rightarrow> out option" where
  "number m buf e num base sz precision type =
     (let digits = (if type AND LARGE \<noteq> 0 then large_digits else small_digits);
          type = (if type AND LEFT \<noteq> 0 then type AND NOT ZEROPAD else type)
      in if sint base < 2 \<or> sint base > 36 then Some (m, NULL)
      else do {
        let c = (if type AND ZEROPAD \<noteq> 0 then ch CHR ''0'' else ch CHR '' '');
        let (sign, num, sz) = number_sign num sz type;
        let sz = (if type AND SPECIAL \<noteq> 0
                    then if base = 16 then sz - 2 else if base = 8 then sz - 1 else sz
                    else sz);
        tmp \<leftarrow> (if num = 0 then Some [ch CHR ''0''] else digit_loop digits base num []);
        let i = length tmp;
        let precision = (if int i > precision then int i else precision);
        let sz = sz - precision;
        let st = (m, buf);
        let (sz, st) = (if type AND (ZEROPAD + LEFT) = 0 then pad_loop e (ch CHR '' '') sz st else (sz, st));
        let st = (if sign \<noteq> 0 then emit e sign st else st);
        let st = number_prefix e digits base type st;
        let (sz, st) = (if type AND LEFT = 0 then pad_loop e c sz st else (sz, st));
        let (_, st) = pad_above e (ch CHR ''0'') (int i) precision st;
        let st = put_digits e tmp i st;
        let (_, st) = pad_loop e (ch CHR '' '') sz st;
        Some st
      })"

subsection \<open>Formats\<close>

definition va_arg :: "mem \<Rightarrow> addr \<Rightarrow> u32 \<times> addr" where
  "va_arg m ap = (read32 m ap, ap + 4)"

definition va_arg_ll :: "mem \<Rightarrow> addr \<Rightarrow> u64 \<times> addr" where
  "va_arg_ll m ap = (push_bit 32 (ucast (read32 m (ap + 4))) OR ucast (read32 m ap), ap + 8)"

partial_function (option) skip_atoi :: "mem \<Rightarrow> addr \<Rightarrow> int \<Rightarrow> (addr \<times> int) option" where
  "skip_atoi m s i =
     (if isdigit (m s) then skip_atoi m (s + 1) (i * 10 + uint (m s) - uint (ch CHR ''0'')) else Some (s, i))"

text \<open>The label \<open>repeat\<close>: skips the percent sign and collects the flags.\<close>

partial_function (option) fmt_flags :: "mem \<Rightarrow> addr \<Rightarrow> u32 \<Rightarrow> (addr \<times> u32) option" where
  "fmt_flags m fmt flags =
     (let fmt = fmt + 1; c = m fmt in
      if c = ch CHR ''-'' then fmt_flags m fmt (flags OR LEFT)
      else if c = ch CHR ''+'' then fmt_flags m fmt (flags OR PLUS)
      else if c = ch CHR '' '' then fmt_flags m fmt (flags OR SPACE)
      else if c = ch CHR ''#'' then fmt_flags m fmt (flags OR SPECIAL)
      else if c = ch CHR ''0'' then fmt_flags m fmt (flags OR ZEROPAD)
      else Some (fmt, flags))"

definition fmt_width :: "mem \<Rightarrow> addr \<Rightarrow> u32 \<Rightarrow> addr \<Rightarrow> (addr \<times> int \<times> u32 \<times> addr) option" where
  "fmt_width m fmt flags args =
     (if isdigit (m fmt) then do { (fmt, w) \<leftarrow> skip_atoi m fmt 0; Some (fmt, w, flags, args) }
      else if m fmt = ch CHR ''*''
      then let fmt = fmt + 1; (w, args) = va_arg m args
           in if sint w < 0 then Some (fmt, - sint w, flags OR LEFT, args) else Some (fmt, sint w, flags, args)
      else Some (fmt, - 1, flags, args))"

definition fmt_precision :: "mem \<Rightarrow> addr \<Rightarrow> addr \<Rightarrow> (addr \<times> int \<times> addr) option" where
  "fmt_precision m fmt args =
     (if m fmt = ch CHR ''.''
      then do {
        let fmt = fmt + 1;
        (fmt, p, args) \<leftarrow>
          (if isdigit (m fmt) then do { (fmt, p) \<leftarrow> skip_atoi m fmt 0; Some (fmt, p, args) }
           else if m fmt = ch CHR ''*''
           then let (p, args) = va_arg m args in Some (fmt + 1, sint p, args)
           else Some (fmt, - 1, args));
        Some (fmt, if p < 0 then 0 else p, args)
      }
      else Some (fmt, - 1, args))"

definition fmt_qualifier :: "mem \<Rightarrow> addr \<Rightarrow> addr \<times> int" where
  "fmt_qualifier m fmt =
     (let c = m fmt in
      if c = ch CHR ''h'' \<or> c = ch CHR ''l'' \<or> c = ch CHR ''L'' \<or> c = ch CHR ''Z''
      then let fmt = fmt + 1 in
           if c = ch CHR ''l'' \<and> m fmt = ch CHR ''l'' then (fmt + 1, uint (ch CHR ''L'')) else (fmt, uint c)
      else (fmt, - 1))"

definition conv_c :: "addr \<Rightarrow> out \<Rightarrow> int \<Rightarrow> u32 \<Rightarrow> addr \<Rightarrow> out \<times> addr" where
  "conv_c e st field_width flags args =
     (let (field_width, st) =
            (if flags AND LEFT = 0
             then let (w, st) = pad_loop e (ch CHR '' '') (field_width - 1) st in (w + 1, st)
             else (field_width, st));
          (c, args) = va_arg (fst st) args;
          st = emit e (ucast c) st;
          (_, st) = pad_loop e (ch CHR '' '') (field_width - 1) st
      in (st, args))"

fun copy_str :: "addr \<Rightarrow> nat \<Rightarrow> addr \<Rightarrow> out \<Rightarrow> out" where
  "copy_str e 0 s st = st"
| "copy_str e (Suc n) s st = copy_str e n (s + 1) (emit e (fst st s) st)"

text \<open>\<open>null_str\<close> is the address of the literal \<^verbatim>\<open><NULL>\<close>.\<close>

definition conv_s :: "addr \<Rightarrow> addr \<Rightarrow> out \<Rightarrow> int \<Rightarrow> int \<Rightarrow> u32 \<Rightarrow> addr \<Rightarrow> out \<times> addr" where
  "conv_s null_str e st field_width precision flags args =
     (let (s, args) = va_arg (fst st) args;
          s = (if s = NULL then null_str else s);
          len = sint (strnlen (fst st) s (word_of_int precision));
          (field_width, st) =
            (if flags AND LEFT = 0 then pad_above e (ch CHR '' '') len field_width st else (field_width, st));
          st = copy_str e (nat len) s st;
          (_, st) = pad_above e (ch CHR '' '') len field_width st
      in (st, args))"

definition conv_p :: "addr \<Rightarrow> out \<Rightarrow> int \<Rightarrow> int \<Rightarrow> u32 \<Rightarrow> addr \<Rightarrow> (out \<times> addr) option" where
  "conv_p e st field_width precision flags args = do {
     let st = (if snd st < e then emit e (ch CHR ''0'') st else st);
     let st = (if snd st < e then emit e (ch CHR ''x'') st else st);
     let (field_width, flags) = (if field_width = - 1 then (2 * 4, flags OR ZEROPAD) else (field_width, flags));
     let (p, args) = va_arg (fst st) args;
     st \<leftarrow> number (fst st) (snd st) e (ucast p) 16 field_width precision flags;
     Some (st, args)
   }"

text \<open>\<open>%n\<close> stores the number of characters so far through a pointer argument.\<close>

definition conv_n :: "addr \<Rightarrow> out \<Rightarrow> addr \<Rightarrow> out \<times> addr" where
  "conv_n buf st args =
     (let (ip, args) = va_arg (fst st) args in ((write32 (fst st) ip (snd st - buf), snd st), args))"

text \<open>The argument of an integer conversion.\<close>

definition int_arg :: "mem \<Rightarrow> int \<Rightarrow> u32 \<Rightarrow> addr \<Rightarrow> u64 \<times> addr" where
  "int_arg m qualifier flags args =
     (if qualifier = uint (ch CHR ''L'') then va_arg_ll m args
      else let (v, args) = va_arg m args in
           (if qualifier = uint (ch CHR ''l'') then (if flags AND SIGN \<noteq> 0 then scast v else ucast v)
            else if qualifier = uint (ch CHR ''Z'') then ucast v
            else if qualifier = uint (ch CHR ''h'')
            then (if flags AND SIGN \<noteq> 0 then scast (ucast v :: u16) else ucast (ucast v :: u16))
            else (if flags AND SIGN \<noteq> 0 then scast v else ucast v), args))"

definition conv_int ::
  "addr \<Rightarrow> out \<Rightarrow> u32 \<Rightarrow> int \<Rightarrow> int \<Rightarrow> int \<Rightarrow> u32 \<Rightarrow> addr \<Rightarrow> (out \<times> addr) option" where
  "conv_int e st base field_width precision qualifier flags args = do {
     let (num, args) = int_arg (fst st) qualifier flags args;
     st \<leftarrow> number (fst st) (snd st) e num base field_width precision flags;
     Some (st, args)
   }"

text \<open>The unknown conversion: echoed; at the end of the format the pointer steps back so that the
  loop sees the terminator.\<close>

definition conv_other :: "addr \<Rightarrow> out \<Rightarrow> addr \<Rightarrow> out \<times> addr" where
  "conv_other e st fmt =
     (let st = emit e (ch CHR ''%'') st
      in if fst st fmt \<noteq> 0 then (emit e (fst st fmt) st, fmt) else (st, fmt - 1))"

text \<open>One conversion, from the percent sign. The result is the output, the position of the
  conversion's last character and the remaining arguments.\<close>

definition conversion ::
  "addr \<Rightarrow> addr \<Rightarrow> addr \<Rightarrow> out \<Rightarrow> addr \<Rightarrow> addr \<Rightarrow> (out \<times> addr \<times> addr) option" where
  "conversion null_str buf e st fmt args = do {
     let m = fst st;
     (fmt, flags) \<leftarrow> fmt_flags m fmt 0;
     (fmt, field_width, flags, args) \<leftarrow> fmt_width m fmt flags args;
     (fmt, precision, args) \<leftarrow> fmt_precision m fmt args;
     let (fmt, qualifier) = fmt_qualifier m fmt;
     let c = m fmt;
     if c = ch CHR ''c'' then let (st, args) = conv_c e st field_width flags args in Some (st, fmt, args)
     else if c = ch CHR ''s''
     then let (st, args) = conv_s null_str e st field_width precision flags args in Some (st, fmt, args)
     else if c = ch CHR ''p''
     then do { (st, args) \<leftarrow> conv_p e st field_width precision flags args; Some (st, fmt, args) }
     else if c = ch CHR ''n'' then let (st, args) = conv_n buf st args in Some (st, fmt, args)
     else if c = ch CHR ''%'' then Some (emit e (ch CHR ''%'') st, fmt, args)
     else if c \<in> {ch CHR ''o'', ch CHR ''X'', ch CHR ''x'', ch CHR ''d'', ch CHR ''i'', ch CHR ''u''}
     then do {
       let base = (if c = ch CHR ''o'' then 8 else if c = ch CHR ''X'' \<or> c = ch CHR ''x'' then 16 else 10);
       let flags = (if c = ch CHR ''X'' then flags OR LARGE
                    else if c = ch CHR ''d'' \<or> c = ch CHR ''i'' then flags OR SIGN else flags);
       (st, args) \<leftarrow> conv_int e st base field_width precision qualifier flags args;
       Some (st, fmt, args)
     }
     else let (st, fmt) = conv_other e st fmt in Some (st, fmt, args)
   }"

partial_function (option) vsn_loop :: "addr \<Rightarrow> addr \<Rightarrow> addr \<Rightarrow> out \<Rightarrow> addr \<Rightarrow> addr \<Rightarrow> out option" where
  "vsn_loop null_str buf e st fmt args =
     (if fst st fmt = 0 then Some st
      else if fst st fmt \<noteq> ch CHR ''%''
      then vsn_loop null_str buf e (emit e (fst st fmt) st) (fmt + 1) args
      else do {
        (st, fmt, args) \<leftarrow> conversion null_str buf e st fmt args;
        vsn_loop null_str buf e st (fmt + 1) args
      })"

definition vsnprintf :: "addr \<Rightarrow> mem \<Rightarrow> addr \<Rightarrow> u32 \<Rightarrow> addr \<Rightarrow> addr \<Rightarrow> (mem \<times> u32) option" where
  "vsnprintf null_str m buf sz fmt args = do {
     let e = buf + sz - 1;
     let (e, sz) = (if e < buf - 1 then (- 1, - 1 - buf + 1) else (e, sz));
     (m, str) \<leftarrow> vsn_loop null_str buf e (m, buf) fmt args;
     let m = (if str \<le> e then m(str := 0) else if 0 < sz then m(e := 0) else m);
     Some (m, str - buf)
   }"

text \<open>\<open>snprintf\<close> passes the words after its last named argument.\<close>

definition snprintf :: "addr \<Rightarrow> mem \<Rightarrow> addr \<Rightarrow> u32 \<Rightarrow> addr \<Rightarrow> addr \<Rightarrow> (mem \<times> u32) option" where
  "snprintf null_str m buf sz fmt va_start = vsnprintf null_str m buf sz fmt va_start"

definition vsprintf :: "addr \<Rightarrow> mem \<Rightarrow> addr \<Rightarrow> addr \<Rightarrow> addr \<Rightarrow> (mem \<times> u32) option" where
  "vsprintf null_str m buf fmt args = vsnprintf null_str m buf 0xFFFFFFFF fmt args"

subsection \<open>Lemmas\<close>

declare pad_loop.simps [simp del] pad_above.simps [simp del]

lemma mult_add_less: "r < b \<Longrightarrow> l < k \<Longrightarrow> r * k + l < b * (k :: nat)"
proof -
  assume "r < b" "l < k"
  then have "r * k + l < Suc r * k" by simp
  also have "\<dots> \<le> b * k" using \<open>r < b\<close> by (intro mult_right_mono) auto
  finally show ?thesis .
qed

lemma divl_ok:
  assumes "hi < d"
  shows "divl hi lo d = Some (of_nat ((unat hi * 2 ^ 32 + unat lo) div unat d), of_nat ((unat hi * 2 ^ 32 + unat lo) mod unat d))"
proof -
  have lt: "unat hi < unat d" using assms by (simp add: word_less_nat_alt)
  have "unat hi * 2 ^ 32 + unat lo < unat d * 2 ^ 32"
    using unsigned_less[of lo, where 'a = nat] by (intro mult_add_less[OF lt]) simp
  then have "(unat hi * 2 ^ 32 + unat lo) div unat d < 2 ^ 32"
    by (simp add: less_mult_imp_div_less mult.commute)
  moreover have "d \<noteq> 0" using assms by auto
  ultimately show ?thesis by (simp add: divl_def Let_def)
qed

lemma unat_lt64: "unat (n :: u64) < 2 ^ 64"
  using unsigned_less[of n, where 'a = nat] by simp

lemma word_halves:
  fixes n :: u64
  shows "unat (ucast (drop_bit 32 n) :: u32) = unat n div 2 ^ 32" "unat (ucast n :: u32) = unat n mod 2 ^ 32"
proof -
  have "unat n div 2 ^ 32 < 2 ^ 32"
    using unat_lt64[of n] by (simp add: less_mult_imp_div_less)
  then show "unat (ucast (drop_bit 32 n) :: u32) = unat n div 2 ^ 32"
    by (simp add: unsigned_ucast_eq unat_drop_bit_eq drop_bit_eq_div unat_div_distrib take_bit_nat_eq_self)
  show "unat (ucast n :: u32) = unat n mod 2 ^ 32"
    by (simp add: unsigned_ucast_eq take_bit_eq_mod)
qed

lemma join_halves: "push_bit 32 (ucast h) OR ucast l = (of_nat (unat h * 2 ^ 32 + unat l) :: u64)" for h l :: u32
proof -
  have "\<not> bit (push_bit 32 (ucast h) :: u64) k \<or> \<not> bit (ucast l :: u64) k" for k
    using bit_imp_le_length[of l k] by (auto simp: bit_push_bit_iff bit_ucast_iff)
  then have "push_bit 32 (ucast h) OR ucast l = push_bit 32 (ucast h) + (ucast l :: u64)"
    by (simp add: disjunctive_add)
  also have "\<dots> = of_nat (unat h * 2 ^ 32 + unat l)"
    by (simp add: push_bit_eq_mult)
  finally show ?thesis .
qed

lemma do_div_eq:
  assumes "base \<noteq> 0"
  shows "do_div n base = Some (of_nat (unat n mod unat base), of_nat (unat n div unat base))"
proof -
  let ?h = "ucast (drop_bit 32 n) :: u32" and ?l = "ucast n :: u32" and ?b = "unat base"
  let ?lo = "unat (?h mod base) * 2 ^ 32 + unat ?l"
  have upper: "(if ?h \<noteq> 0 then ?h mod base else ?h) = ?h mod base" "(if ?h \<noteq> 0 then ?h div base else ?h) = ?h div base"
    by simp_all
  have lt: "?h mod base < base" using assms by (simp add: word_mod_less_divisor word_gt_0)
  have b: "0 < ?b" using assms by (simp add: unat_gt_0)
  have n: "unat n = unat (?h div base) * ?b * 2 ^ 32 + ?lo"
  proof -
    have "unat n = unat ?h * 2 ^ 32 + unat ?l" by (simp only: word_halves[of n] div_mult_mod_eq)
    also have "unat ?h = unat (?h div base) * ?b + unat (?h mod base)"
      by (simp add: unat_div_distrib unat_mod_distrib)
    finally show ?thesis by (simp add: add_mult_distrib)
  qed
  have "?lo div ?b < 2 ^ 32"
  proof -
    have "unat (?h mod base) < ?b" using lt by (simp add: word_less_nat_alt)
    moreover have "unat ?l < 2 ^ 32" by (simp add: word_halves)
    ultimately have "?lo < ?b * 2 ^ 32" by (rule mult_add_less)
    then show ?thesis by (simp add: less_mult_imp_div_less mult.commute)
  qed
  then have "push_bit 32 (ucast (?h div base)) OR ucast (of_nat (?lo div ?b) :: u32) =
      (of_nat (unat (?h div base) * 2 ^ 32 + ?lo div ?b) :: u64)"
    by (subst join_halves) (simp add: unat_of_nat)
  moreover have "unat n div ?b = unat (?h div base) * 2 ^ 32 + ?lo div ?b" "unat n mod ?b = ?lo mod ?b"
    using b by (simp_all add: n mult.assoc mult.left_commute[of _ ?b])
  ultimately show ?thesis
    by (simp add: do_div_def Let_def upper divl_ok[OF lt])
qed

subsection \<open>What is printed\<close>

text \<open>The digits of a number, least significant first, and their value.\<close>

function base_digits :: "nat \<Rightarrow> nat \<Rightarrow> nat list" where
  "base_digits b n = (if n = 0 \<or> b < 2 then [] else n mod b # base_digits b (n div b))"
  by auto
termination by (relation "measure snd") (auto intro: div_less_dividend)

declare base_digits.simps [simp del]

lemma base_digits_0 [simp]: "base_digits b 0 = []"
  by (simp add: base_digits.simps)

lemma base_digits_rec: "2 \<le> b \<Longrightarrow> 0 < n \<Longrightarrow> base_digits b n = n mod b # base_digits b (n div b)"
  by (subst base_digits.simps) simp

lemma base_digits_value:
  assumes "2 \<le> b"
  shows "foldr (\<lambda>d a. d + b * a) (base_digits b n) 0 = n"
  using assms
proof (induction b n rule: base_digits.induct)
  case (1 b n)
  show ?case
  proof (cases "n = 0")
    case False
    with 1 have "foldr (\<lambda>d a. d + b * a) (base_digits b (n div b)) 0 = n div b" by simp
    moreover have "base_digits b n = n mod b # base_digits b (n div b)"
      using 1(2) False by (intro base_digits_rec) auto
    ultimately show ?thesis by simp
  qed simp
qed

lemma base_digits_less:
  assumes "2 \<le> b" "d \<in> set (base_digits b n)"
  shows "d < b"
  using assms(2)
proof (induction n rule: less_induct)
  case (less n)
  then have "0 < n" by (cases n) auto
  then have "n div b < n" using assms(1) by (intro div_less_dividend) auto
  with less(1)[OF this] less(2) base_digits_rec[OF assms(1) \<open>0 < n\<close>] assms(1) show ?case by auto
qed

lemma base_digits_length: "2 \<le> b \<Longrightarrow> n < 2 ^ k \<Longrightarrow> length (base_digits b n) \<le> k"
proof (induction k arbitrary: n)
  case (Suc k)
  show ?case
  proof (cases "n = 0")
    case False
    have "n div b \<le> n div 2" using Suc.prems by (intro div_le_mono2) auto
    also have "n div 2 < 2 ^ k" using Suc.prems by auto
    finally have "length (base_digits b (n div b)) \<le> k" using Suc.IH Suc.prems(1) by blast
    moreover have "base_digits b n = n mod b # base_digits b (n div b)"
      using Suc.prems(1) False by (intro base_digits_rec) auto
    ultimately show ?thesis by simp
  qed simp
qed simp

lemma digit_loop_eq:
  assumes "2 \<le> base" "length tmp + length (base_digits (unat base) (unat num)) \<le> tmp_size"
  shows "digit_loop digits base num tmp =
    Some (tmp @ map (\<lambda>d. ch (digits ! d)) (base_digits (unat base) (unat num)))"
  using assms(2)
proof (induction "unat num" arbitrary: num tmp rule: less_induct)
  case less
  have b: "2 \<le> unat base" "base \<noteq> 0" using assms(1) by (auto simp: word_le_nat_alt)
  show ?case
  proof (cases "num = 0")
    case True
    then show ?thesis by (simp add: digit_loop.simps)
  next
    case False
    let ?q = "of_nat (unat num div unat base) :: u64"
    have q: "unat ?q = unat num div unat base"
      using le_less_trans[OF div_le_dividend unat_lt64, of num "unat base"]
      by (simp only: unsigned_of_nat) (simp add: take_bit_nat_eq_self)
    have d: "unat (of_nat (unat num mod unat base) :: u32) = unat num mod unat base"
      using unsigned_less[of base, where 'a = nat] b
      by (simp add: unsigned_of_nat take_bit_nat_eq_self less_trans[OF mod_less_divisor])
    have digs: "base_digits (unat base) (unat num) =
        unat num mod unat base # base_digits (unat base) (unat ?q)"
      using b(1) False unfolding q by (intro base_digits_rec) (simp_all add: unat_gt_0)
    have "unat ?q < unat num"
      unfolding q using b False by (intro div_less_dividend) (simp_all add: unat_gt_0)
    then have "digit_loop digits base ?q (tmp @ [ch (digits ! (unat num mod unat base))]) =
      Some (tmp @ [ch (digits ! (unat num mod unat base))] @ map (\<lambda>d. ch (digits ! d)) (base_digits (unat base) (unat ?q)))"
      using less(2) by (subst less(1)) (simp_all only: digs length_append list.size append_assoc)
    moreover have "length tmp < tmp_size" using less(2) by (simp only: digs list.size)
    ultimately show ?thesis
      by (subst digit_loop.simps) (simp only: do_div_eq[OF b(2)] d digs False if_False if_True bind.bind_lunit
        prod.case list.map append.simps)
  qed
qed

text \<open>Emitting a list of characters.\<close>

definition emits :: "addr \<Rightarrow> u8 list \<Rightarrow> out \<Rightarrow> out" where
  "emits e cs st = fold (emit e) cs st"

lemma emits_simps [simp]:
  "emits e [] st = st" "emits e (c # cs) st = emits e cs (emit e c st)"
  by (simp_all add: emits_def)

lemma emits_append: "emits e (xs @ ys) st = emits e ys (emits e xs st)"
  by (simp add: emits_def)

lemma emits_one: "emit e c st = emits e [c] st"
  by simp

lemma replicate_nat: "0 < k \<Longrightarrow> replicate (nat k) c = c # replicate (nat (k - 1)) c"
  by (simp add: nat_diff_distrib' flip: replicate_Suc)

lemma pad_loop_eq:
  "pad_loop e c sz st = (if 0 < sz then - 1 else sz - 1, emits e (replicate (nat sz) c) st)"
  by (induction e c sz st rule: pad_loop.induct) (subst pad_loop.simps, auto simp: replicate_nat)

lemma pad_above_eq:
  "pad_above e c lo hi st = (if lo < hi then lo - 1 else hi - 1, emits e (replicate (nat (hi - lo)) c) st)"
  by (induction e c lo hi st rule: pad_above.induct)
     (subst pad_above.simps, auto simp: replicate_nat diff_right_commute)

lemma put_digits_eq: "i \<le> length tmp \<Longrightarrow> put_digits e tmp i st = emits e (rev (take i tmp)) st"
  by (induction e tmp i st rule: put_digits.induct) (simp_all add: take_Suc_conv_app_nth)

text \<open>Flags are bits.\<close>

lemma and_flag: "w AND 2 ^ k = 0 \<longleftrightarrow> \<not> bit w k" for w :: u32
  by (simp add: and_exp_eq_0_iff_not_bit)

lemma flag_bits:
  "t AND ZEROPAD = 0 \<longleftrightarrow> \<not> bit t 0" "t AND SIGN = 0 \<longleftrightarrow> \<not> bit t 1" "t AND PLUS = 0 \<longleftrightarrow> \<not> bit t 2"
  "t AND SPACE = 0 \<longleftrightarrow> \<not> bit t 3" "t AND LEFT = 0 \<longleftrightarrow> \<not> bit t 4" "t AND SPECIAL = 0 \<longleftrightarrow> \<not> bit t 5"
  "t AND LARGE = 0 \<longleftrightarrow> \<not> bit t 6"
  using and_flag[of t 0] and_flag[of t 1] and_flag[of t 2] and_flag[of t 3] and_flag[of t 4] and_flag[of t 5]
    and_flag[of t 6]
  by (simp_all add: ZEROPAD_def SIGN_def PLUS_def SPACE_def LEFT_def SPECIAL_def LARGE_def)

lemma flag_pair: "t AND (ZEROPAD + LEFT) = 0 \<longleftrightarrow> \<not> bit t 0 \<and> \<not> bit t 4"
proof -
  have "ZEROPAD + LEFT = ZEROPAD OR LEFT" by (simp add: ZEROPAD_def LEFT_def)
  then have "t AND (ZEROPAD + LEFT) = (t AND ZEROPAD) OR (t AND LEFT)"
    by (simp add: bit.conj_disj_distrib)
  then show ?thesis by (simp add: or_eq_0_iff flag_bits)
qed

lemma bit_clear_zeropad: "bit (t AND NOT ZEROPAD) k \<longleftrightarrow> bit t k \<and> k \<noteq> 0" for t :: u32
  by (auto simp: ZEROPAD_def bit_and_iff bit_not_iff bit_1_iff dest: bit_imp_le_length)

text \<open>The characters of a formatted number: padding, sign, base prefix, leading zeros and the
  digits of the magnitude.\<close>

definition number_mag :: "u64 \<Rightarrow> u32 \<Rightarrow> nat" where
  "number_mag num type = (if bit type 1 \<and> sint num < 0 then nat (- sint num) else unat num)"

definition number_signs :: "u64 \<Rightarrow> u32 \<Rightarrow> u8 list" where
  "number_signs num type =
     (if \<not> bit type 1 then [] else if sint num < 0 then [ch CHR ''-'']
      else if bit type 2 then [ch CHR ''+''] else if bit type 3 then [ch CHR '' ''] else [])"

definition digit_chars :: "u32 \<Rightarrow> string" where
  "digit_chars type = (if bit type 6 then large_digits else small_digits)"

definition number_base :: "u32 \<Rightarrow> u32 \<Rightarrow> u8 list" where
  "number_base base type =
     (if \<not> bit type 5 then [] else if base = 16 then [ch CHR ''0'', ch (digit_chars type ! 33)]
      else if base = 8 then [ch CHR ''0''] else [])"

definition number_digits :: "nat \<Rightarrow> u32 \<Rightarrow> u32 \<Rightarrow> u8 list" where
  "number_digits mag base type =
     (if mag = 0 then [ch CHR ''0''] else rev (map (\<lambda>d. ch (digit_chars type ! d)) (base_digits (unat base) mag)))"

definition number_chars :: "u64 \<Rightarrow> u32 \<Rightarrow> int \<Rightarrow> int \<Rightarrow> u32 \<Rightarrow> u8 list" where
  "number_chars num base width precision type =
     (let left = bit type 4; zero = \<not> left \<and> bit type 0;
          sign = number_signs num type; prefix = number_base base type;
          ds = number_digits (number_mag num type) base type;
          fill = nat (width - int (length sign) - int (length prefix) - max precision (int (length ds)))
      in (if \<not> left \<and> \<not> zero then replicate fill (ch CHR '' '') else []) @ sign @ prefix @
         (if zero then replicate fill (ch CHR ''0'') else []) @
         replicate (nat (precision - int (length ds))) (ch CHR ''0'') @ ds @
         (if left then replicate fill (ch CHR '' '') else []))"

lemma unat_neg: "sint num < 0 \<Longrightarrow> unat (- num) = nat (- sint num)" for num :: u64
proof -
  assume neg: "sint num < 0"
  then have "uint (- num) = - uint num mod 2 ^ 64" by (simp add: uint_word_ariths)
  also have "- uint num = - sint num - 2 ^ 64" using uint_sint_neg[OF neg] by simp
  also have "\<dots> mod 2 ^ 64 = - sint num"
  proof -
    have "- (2 ^ 63) \<le> sint num" using sint_greater_eq[of num] by simp
    with neg show ?thesis by (simp add: minus_mod_self2)
  qed
  finally show ?thesis by (simp add: unat_eq_nat_uint)
qed

lemma number_sign_eq:
  "number_sign num sz t =
     (case number_signs num t of [] \<Rightarrow> 0 | c # _ \<Rightarrow> c,
      if bit t 1 \<and> sint num < 0 then - num else num, sz - int (length (number_signs num t)))"
  by (simp add: number_sign_def number_signs_def flag_bits)

lemma unat_mag: "unat (if bit t 1 \<and> sint num < 0 then - num else num) = number_mag num t"
  by (simp add: number_mag_def unat_neg)

lemma number_signs_cases:
  obtains "number_signs num t = []" | c where "number_signs num t = [c]" "c \<noteq> 0"
proof -
  have "ch CHR ''-'' \<noteq> 0" "ch CHR ''+'' \<noteq> 0" "ch CHR '' '' \<noteq> 0" by (simp_all add: ch_def)
  then have "number_signs num t = [] \<or> (\<exists>c. number_signs num t = [c] \<and> c \<noteq> 0)"
    by (auto simp: number_signs_def)
  then show thesis using that by blast
qed

lemma number_mag_lt: "number_mag num t < 2 ^ 64"
  unfolding unat_mag[symmetric] by (rule unat_lt64)

lemma number_digits_ok:
  assumes "2 \<le> base"
  shows "(if n = 0 then Some [ch CHR ''0''] else digit_loop (digit_chars t) base n []) =
    Some (rev (number_digits (unat n) base t))"
proof -
  have "2 \<le> unat base" using assms by (simp add: word_le_nat_alt)
  then have "length (base_digits (unat base) (unat n)) \<le> 64"
    using base_digits_length unat_lt64 by blast
  with assms digit_loop_eq[of base "[]" n "digit_chars t"] show ?thesis
    by (simp add: number_digits_def tmp_size_def unat_eq_zero)
qed

lemma number_prefix_eq: "number_prefix e (digit_chars t) base t' st = emits e (number_base base t') st"
  if "bit t' 5 = bit t 5" "bit t' 6 = bit t 6"
  using that by (auto simp: number_prefix_def number_base_def flag_bits digit_chars_def)

lemma number_eq:
  assumes "2 \<le> sint base" "sint base \<le> 36"
  shows "number m buf e num base width precision t = Some (emits e (number_chars num base width precision t) (m, buf))"
proof -
  define t' where "t' = (if t AND LEFT \<noteq> 0 then t AND NOT ZEROPAD else t)"
  have t': "bit t' 0 \<longleftrightarrow> bit t 0 \<and> \<not> bit t 4" "k \<noteq> 0 \<Longrightarrow> bit t' k \<longleftrightarrow> bit t k" for k
    by (auto simp: t'_def flag_bits bit_clear_zeropad)
  have same: "number_signs num t' = number_signs num t" "number_base base t' = number_base base t"
    "digit_chars t' = digit_chars t" "number_mag num t' = number_mag num t" "bit t' 4 = bit t 4"
    by (simp_all add: number_signs_def number_base_def digit_chars_def number_mag_def t'(2))
  have base: "2 \<le> base" using assms uint_sint[of base] by (simp add: word_le_def)
  have digs: "(if t AND LARGE \<noteq> 0 then large_digits else small_digits) = digit_chars t"
    by (simp add: digit_chars_def flag_bits)
  define n where "n = (if bit t 1 \<and> sint num < 0 then - num else num)"
  have n: "unat n = number_mag num t" unfolding n_def by (rule unat_mag)
  have width: "(if t' AND SPECIAL \<noteq> 0 then if base = 16 then w - 2 else if base = 8 then w - 1 else w else w) =
      w - int (length (number_base base t))" for w
    by (simp add: flag_bits number_base_def t'(2))
  have sign: "number_sign num width t' = (case number_signs num t of [] \<Rightarrow> 0 | c # _ \<Rightarrow> c, n,
      width - int (length (number_signs num t)))"
    using number_sign_eq[of num width t'] by (simp add: same n_def t'(2))
  define L where "L = int (length (number_digits (number_mag num t) base t))"
  have put: "(if (case number_signs num t of [] \<Rightarrow> 0 | c # _ \<Rightarrow> c) \<noteq> 0
      then emit e (case number_signs num t of [] \<Rightarrow> 0 | c # _ \<Rightarrow> c) st else st) = emits e (number_signs num t) st" for st
    by (rule number_signs_cases[of num t]) simp_all
  have digits: "(if n = 0 then Some [ch CHR ''0''] else digit_loop (digit_chars t) base n []) =
      Some (rev (number_digits (number_mag num t) base t))"
    using number_digits_ok[OF base] by (simp add: n)
  have prec: "(if int (length (rev (number_digits (number_mag num t) base t))) > precision
      then int (length (rev (number_digits (number_mag num t) base t))) else precision) = max precision L"
    by (simp add: L_def)
  have prefix: "number_prefix e (digit_chars t) base t' st = emits e (number_base base t) st" for st
    using number_prefix_eq[of t' t e base st] by (simp add: same t'(2))
  have range: "\<not> (sint base < 2 \<or> sint base > 36)" using assms by simp
  define W where "W = width - int (length (number_signs num t)) - int (length (number_base base t)) - max precision L"
  have "number m buf e num base width precision t =
    (let (sz, st) = (if \<not> bit t 4 \<and> \<not> bit t 0 then pad_loop e (ch CHR '' '') W (m, buf) else (W, (m, buf)));
      st = emits e (number_base base t) (emits e (number_signs num t) st);
      (sz, st) = (if \<not> bit t 4 then pad_loop e (if bit t 0 then ch CHR ''0'' else ch CHR '' '') sz st else (sz, st));
      (_, st) = pad_above e (ch CHR ''0'') L (max precision L) st;
      st = emits e (number_digits (number_mag num t) base t) st
     in Some (snd (pad_loop e (ch CHR '' '') sz st)))"
    unfolding W_def
    by (simp only: number_def Let_def range if_False t'_def[symmetric] digs)
       (simp only: sign prod.case width digits bind.bind_lunit prec put prefix,
        simp add: Let_def case_prod_beta flag_pair flag_bits same t'(1) put_digits_eq L_def)
  moreover have "nat (max precision L - L) = nat (precision - L)" by simp
  moreover have "number_chars num base width precision t =
      (if \<not> bit t 4 \<and> \<not> bit t 0 then replicate (nat W) (ch CHR '' '') else []) @ number_signs num t @ number_base base t @
      (if \<not> bit t 4 \<and> bit t 0 then replicate (nat W) (ch CHR ''0'') else []) @
      replicate (nat (precision - L)) (ch CHR ''0'') @ number_digits (number_mag num t) base t @
      (if bit t 4 then replicate (nat W) (ch CHR '' '') else [])"
    by (auto simp: number_chars_def Let_def W_def L_def)
  ultimately show ?thesis
    by (simp add: Let_def pad_loop_eq pad_above_eq emits_append)
qed
subsection \<open>Scanning a format\<close>

text \<open>The format at \<open>p\<close> has the characters \<open>xs\<close> and none of its bytes is in \<open>B\<close>.\<close>

primrec fmt_ok :: "mem \<Rightarrow> addr set \<Rightarrow> addr \<Rightarrow> u8 list \<Rightarrow> bool" where
  "fmt_ok m B p [] \<longleftrightarrow> m p = 0 \<and> p \<notin> B"
| "fmt_ok m B p (x # xs) \<longleftrightarrow> m p = x \<and> x \<noteq> 0 \<and> p \<notin> B \<and> fmt_ok m B (p + 1) xs"

lemma fmt_ok_cong: "(\<And>a. a \<notin> B \<Longrightarrow> m' a = m a) \<Longrightarrow> fmt_ok m' B p xs = fmt_ok m B p xs"
  by (induction xs arbitrary: p) auto

lemma fmt_okD: "fmt_ok m B p xs \<Longrightarrow> p \<notin> B \<and> m p = (case xs of [] \<Rightarrow> 0 | x # _ \<Rightarrow> x)"
  by (cases xs) auto

text \<open>A scan that stops at \<open>p'\<close> leaves a suffix of the format.\<close>

definition scanned :: "mem \<Rightarrow> addr set \<Rightarrow> u8 list \<Rightarrow> addr \<Rightarrow> bool" where
  "scanned m B xs p' \<longleftrightarrow> (\<exists>k. fmt_ok m B p' (drop k xs))"

lemma scanned_refl: "fmt_ok m B p xs \<Longrightarrow> scanned m B xs p"
  unfolding scanned_def by (rule exI[of _ 0]) simp

lemma scanned_Cons: "scanned m B xs p' \<Longrightarrow> scanned m B (x # xs) p'"
  unfolding scanned_def by (metis drop_Suc_Cons)

lemma scanned_trans:
  "scanned m B xs p \<Longrightarrow> (\<And>zs. fmt_ok m B p zs \<Longrightarrow> scanned m B zs p') \<Longrightarrow> scanned m B xs p'"
  unfolding scanned_def by (metis drop_drop)

lemma scanned_step:
  assumes "fmt_ok m B p xs" "m p \<noteq> 0"
  shows "scanned m B xs (p + 1)"
proof (cases xs)
  case (Cons x ys)
  with assms have "fmt_ok m B (p + 1) ys" by simp
  with Cons show ?thesis by (simp add: scanned_Cons scanned_refl)
qed (use assms in simp)

lemma isdigit_0 [simp]: "\<not> isdigit 0"
  by (simp add: isdigit_iff)

lemma skip_atoi_scan: "fmt_ok m B p xs \<Longrightarrow> \<exists>p' i'. skip_atoi m p i = Some (p', i') \<and> scanned m B xs p'"
proof (induction xs arbitrary: p i)
  case Nil
  then show ?case by (subst skip_atoi.simps) (simp add: scanned_refl)
next
  case (Cons x xs)
  show ?case
  proof (cases "isdigit x")
    case True
    from Cons.IH[of "p + 1"] Cons.prems obtain p' i'
      where "skip_atoi m (p + 1) (i * 10 + uint x - uint (ch CHR ''0'')) = Some (p', i')" "scanned m B xs p'"
      by force
    with True Cons.prems show ?thesis
      by (subst skip_atoi.simps) (simp add: scanned_Cons)
  next
    case False
    with Cons.prems show ?thesis by (subst skip_atoi.simps) (simp add: scanned_refl)
  qed
qed

lemma ch_nonzero [simp]: "ch c = 0 \<longleftrightarrow> c = CHR 0x00" "0 = ch c \<longleftrightarrow> c = CHR 0x00"
proof -
  have "ch CHR 0x00 = 0" by (simp add: ch_def)
  then show "ch c = 0 \<longleftrightarrow> c = CHR 0x00" "0 = ch c \<longleftrightarrow> c = CHR 0x00"
    by (metis ch_eq_iff)+
qed

lemma fmt_flags_scan:
  "fmt_ok m B (p + 1) xs \<Longrightarrow> \<exists>p' f'. fmt_flags m p f = Some (p', f') \<and> scanned m B xs p'"
proof (induction xs arbitrary: p f)
  case Nil
  then show ?case by (subst fmt_flags.simps) (simp add: scanned_refl Let_def)
next
  case (Cons x xs)
  from Cons.IH[of "p + 1"] Cons.prems
  have IH: "\<exists>p' f''. fmt_flags m (p + 1) f' = Some (p', f'') \<and> scanned m B (x # xs) p'" for f'
    by (force intro: scanned_Cons)
  have stop: "scanned m B (x # xs) (p + 1)" using Cons.prems by (rule scanned_refl)
  from Cons.prems have "m (p + 1) = x" by simp
  then show ?case
    by (subst fmt_flags.simps) (use IH stop in \<open>auto simp: Let_def\<close>)
qed

lemma fmt_width_scan:
  assumes "fmt_ok m B p xs"
  shows "\<exists>p' w f' a'. fmt_width m p f args = Some (p', w, f', a') \<and> scanned m B xs p'"
proof -
  have "m p = ch CHR ''*'' \<Longrightarrow> scanned m B xs (p + 1)" using scanned_step[OF assms] by simp
  then show ?thesis
    using skip_atoi_scan[OF assms, of 0] scanned_refl[OF assms]
    by (auto simp: fmt_width_def Let_def case_prod_beta)
qed

lemma fmt_precision_scan:
  assumes "fmt_ok m B p xs"
  shows "\<exists>p' w a'. fmt_precision m p args = Some (p', w, a') \<and> scanned m B xs p'"
proof (cases "m p = ch CHR ''.''")
  case True
  then obtain ys where ys: "xs = ch CHR ''.'' # ys" "fmt_ok m B (p + 1) ys"
    using assms by (cases xs) auto
  have step: "scanned m B ys p' \<Longrightarrow> scanned m B xs p'" for p'
    unfolding ys(1) by (rule scanned_Cons)
  have "m (p + 1) = ch CHR ''*'' \<Longrightarrow> scanned m B ys (p + 1 + 1)" using scanned_step[OF ys(2)] by simp
  with True skip_atoi_scan[OF ys(2), of 0] scanned_refl[OF ys(2)] step show ?thesis
    by (auto simp: fmt_precision_def Let_def case_prod_beta)
next
  case False
  with scanned_refl[OF assms] show ?thesis by (simp add: fmt_precision_def)
qed

lemma fmt_qualifier_scan:
  assumes "fmt_ok m B p xs"
  shows "scanned m B xs (fst (fmt_qualifier m p))"
proof -
  have one: "scanned m B xs (p + 1)" if "m p \<noteq> 0"
    using scanned_step[OF assms that] .
  moreover have "scanned m B xs (p + 1 + 1)" if "m p \<noteq> 0" "m (p + 1) \<noteq> 0"
    using one[OF that(1)] by (rule scanned_trans) (erule scanned_step, rule that(2))
  ultimately show ?thesis
    using scanned_refl[OF assms] by (auto simp: fmt_qualifier_def Let_def)
qed

subsection \<open>Output stays below the end of the buffer\<close>

text \<open>\<open>st'\<close> is \<open>st\<close> after some characters.\<close>

definition printed :: "addr \<Rightarrow> out \<Rightarrow> out \<Rightarrow> bool" where
  "printed e st st' \<longleftrightarrow> (\<exists>cs. st' = emits e cs st)"

lemma printed_emits [intro]: "printed e st (emits e cs st)"
  by (auto simp: printed_def)

lemma printed_emit [intro]: "printed e st (emit e c st)"
  using printed_emits[of e st "[c]"] by simp

lemma printed_refl [intro]: "printed e st st"
  using printed_emits[of e st "[]"] by simp

lemma printed_trans [trans]: "printed e st st1 \<Longrightarrow> printed e st1 st2 \<Longrightarrow> printed e st st2"
  unfolding printed_def by (metis emits_append)

lemma emits_above: "a \<notin> {..e} \<Longrightarrow> fst (emits e cs st) a = fst st a"
  by (induction cs arbitrary: st) (auto simp: emit_def split: prod.splits)

lemma printed_above: "printed e st st' \<Longrightarrow> a \<notin> {..e} \<Longrightarrow> fst st' a = fst st a"
  unfolding printed_def using emits_above by blast

lemma copy_str_printed: "printed e st (copy_str e n s st)"
proof (induction n arbitrary: s st)
  case (Suc n)
  have "printed e st (emit e (fst st s) st)" by blast
  also have "printed e \<dots> (copy_str e n (s + 1) (emit e (fst st s) st))" by (rule Suc)
  finally show ?case by simp
qed auto

lemma conv_c_printed: "printed e st (fst (conv_c e st w f args))"
proof -
  have "printed e st (emits e (replicate (nat (w - 1)) (ch CHR '' '')) st)" by blast
  then show ?thesis
    by (auto simp: conv_c_def Let_def pad_loop_eq case_prod_beta emits_one simp flip: emits_append
        simp del: emits_simps(2))
qed

lemma conv_s_printed: "printed e st (fst (conv_s null_str e st w prec f args))"
  unfolding conv_s_def Let_def
  by (auto simp: pad_above_eq case_prod_beta intro: printed_trans copy_str_printed)

lemma conv_p_printed: "\<exists>st' args'. conv_p e st w prec f args = Some (st', args') \<and> printed e st st'"
proof -
  let ?st1 = "if snd st < e then emit e (ch CHR ''0'') st else st"
  let ?st2 = "if snd ?st1 < e then emit e (ch CHR ''x'') ?st1 else ?st1"
  have "printed e st ?st1" "printed e ?st1 ?st2" by auto
  then have "printed e st (emits e cs ?st2)" for cs
    using printed_trans printed_emits by blast
  then show ?thesis
    by (auto simp: conv_p_def Let_def case_prod_beta number_eq)
qed

lemma conv_int_printed:
  "base \<in> {8, 10, 16} \<Longrightarrow>
   \<exists>st' args'. conv_int e st base w prec q f args = Some (st', args') \<and> printed e st st'"
  by (auto simp: conv_int_def Let_def case_prod_beta number_eq) (metis printed_emits surj_pair)+

lemma conv_other_printed:
  assumes "fmt_ok (fst st) {..e} p xs"
  shows "printed e st (fst (conv_other e st p))"
    and "snd (conv_other e st p) = (if xs = [] then p - 1 else p)"
proof -
  have "fst (emit e (ch CHR ''%'') st) p = fst st p"
    using fmt_okD[OF assms] printed_above[OF printed_emit] by blast
  with fmt_okD[OF assms] assms show "snd (conv_other e st p) = (if xs = [] then p - 1 else p)"
    by (cases xs) (auto simp: conv_other_def Let_def)
  show "printed e st (fst (conv_other e st p))"
    by (auto simp: conv_other_def Let_def intro: printed_trans)
qed

text \<open>One conversion returns, prints, and moves forward in the format.\<close>

lemma conversion_printed:
  assumes "fmt_ok (fst st) {..e} (fmt + 1) xs" "ch CHR ''n'' \<notin> set xs"
  shows "\<exists>st' fmt' args'. conversion null_str buf e st fmt args = Some (st', fmt', args') \<and>
    printed e st st' \<and> (\<exists>k. fmt_ok (fst st) {..e} (fmt' + 1) (drop k xs))"
proof -
  let ?m = "fst st"
  obtain p1 f1 where 1: "fmt_flags ?m fmt 0 = Some (p1, f1)" "scanned ?m {..e} xs p1"
    using fmt_flags_scan[OF assms(1)] by blast
  then obtain k1 where k1: "fmt_ok ?m {..e} p1 (drop k1 xs)" by (auto simp: scanned_def)
  obtain p2 w f2 a2 where 2: "fmt_width ?m p1 f1 args = Some (p2, w, f2, a2)" "scanned ?m {..e} (drop k1 xs) p2"
    using fmt_width_scan[OF k1] by blast
  then obtain k2 where k2: "fmt_ok ?m {..e} p2 (drop k2 (drop k1 xs))" by (auto simp: scanned_def)
  obtain p3 pr a3 where 3: "fmt_precision ?m p2 a2 = Some (p3, pr, a3)" "scanned ?m {..e} (drop k2 (drop k1 xs)) p3"
    using fmt_precision_scan[OF k2] by blast
  then obtain k3 where k3: "fmt_ok ?m {..e} p3 (drop k3 (drop k2 (drop k1 xs)))" by (auto simp: scanned_def)
  obtain p q where 4: "fmt_qualifier ?m p3 = (p, q)" by (cases "fmt_qualifier ?m p3")
  with fmt_qualifier_scan[OF k3] obtain k where k: "fmt_ok ?m {..e} p (drop k xs)"
    by (auto simp: scanned_def)
  have "?m p = ch CHR ''n'' \<Longrightarrow> ch CHR ''n'' \<in> set (drop k xs)"
    using fmt_okD[OF k] by (cases "drop k xs") auto
  then have not_n: "?m p \<noteq> ch CHR ''n''"
    using assms(2) in_set_dropD by fast
  have next_p: "\<exists>k. fmt_ok ?m {..e} (p + 1) (drop k xs)" if "?m p \<noteq> 0"
    using scanned_step[OF k that] by (auto simp: scanned_def)
  have stay: "\<exists>k. fmt_ok ?m {..e} (snd (conv_other e st p) + 1) (drop k xs)"
  proof (cases "drop k xs = []")
    case True
    with conv_other_printed(2)[OF k] k show ?thesis by (intro exI[of _ k]) simp
  next
    case False
    with conv_other_printed(2)[OF k] k next_p fmt_okD[OF k] show ?thesis by (cases "drop k xs") auto
  qed
  obtain stp ap where p: "conv_p e st w pr f2 a3 = Some (stp, ap)" "printed e st stp"
    using conv_p_printed by blast
  have int: "\<exists>st' a'. conv_int e st b w pr q f a3 = Some (st', a') \<and> printed e st st'" if "b \<in> {8, 10, 16}" for b f
    using conv_int_printed[OF that] by blast
  show ?thesis
  proof (cases "?m p \<in> {ch CHR ''o'', ch CHR ''X'', ch CHR ''x'', ch CHR ''d'', ch CHR ''i'', ch CHR ''u''}")
    case True
    let ?b = "if ?m p = ch CHR ''o'' then 8 else if ?m p = ch CHR ''X'' \<or> ?m p = ch CHR ''x'' then 16 else 10 :: u32"
    let ?f = "if ?m p = ch CHR ''X'' then f2 OR LARGE
      else if ?m p = ch CHR ''d'' \<or> ?m p = ch CHR ''i'' then f2 OR SIGN else f2"
    have "?b \<in> {8, 10, 16}" by simp
    from int[OF this] obtain st' a' where "conv_int e st ?b w pr q ?f a3 = Some (st', a')" "printed e st st'"
      by blast
    moreover have "\<exists>k. fmt_ok ?m {..e} (p + 1) (drop k xs)" using True by (intro next_p) auto
    moreover from calculation True have "conversion null_str buf e st fmt args = Some (st', p, a')"
      by (auto simp: conversion_def 1 2 3 4)
    ultimately show ?thesis by blast
  next
    case False
    with not_n show ?thesis
      using next_p stay p conv_c_printed[of e st w f2 a3] conv_s_printed[of e st null_str w pr f2 a3]
        conv_other_printed(1)[OF k]
      by (auto simp: conversion_def 1 2 3 4 case_prod_beta Let_def simp del: split_paired_Ex)
  qed
qed
lemma vsn_loop_printed:
  assumes "fmt_ok (fst st) {..e} fmt xs" "ch CHR ''n'' \<notin> set xs"
  shows "\<exists>st'. vsn_loop null_str buf e st fmt args = Some st' \<and> printed e st st'"
  using assms
proof (induction "length xs" arbitrary: xs st fmt args rule: less_induct)
  case less
  show ?case
  proof (cases xs)
    case Nil
    with less.prems show ?thesis by (subst vsn_loop.simps) auto
  next
    case (Cons x ys)
    with less.prems have x: "fst st fmt = x" "x \<noteq> 0" "fmt_ok (fst st) {..e} (fmt + 1) ys" by auto
    have keep: "fmt_ok (fst st') {..e} p zs = fmt_ok (fst st) {..e} p zs" if "printed e st st'" for st' p zs
      using printed_above[OF that] by (intro fmt_ok_cong) blast
    show ?thesis
    proof (cases "x = ch CHR ''%''")
      case True
      have "ch CHR ''n'' \<notin> set ys" using less.prems(2) Cons by simp
      from conversion_printed[OF x(3) this] obtain st1 fmt1 a1 k
        where c: "conversion null_str buf e st fmt args = Some (st1, fmt1, a1)" "printed e st st1"
          "fmt_ok (fst st) {..e} (fmt1 + 1) (drop k ys)"
        by blast
      have "\<exists>st'. vsn_loop null_str buf e st1 (fmt1 + 1) a1 = Some st' \<and> printed e st1 st'"
        using c(3) less.prems(2) Cons set_drop_subset[of k ys]
        by (intro less.hyps) (auto simp: keep[OF c(2)])
      with c True x show ?thesis
        by (subst vsn_loop.simps) (auto intro: printed_trans simp del: split_paired_Ex)
    next
      case False
      have "\<exists>st'. vsn_loop null_str buf e (emit e x st) (fmt + 1) args = Some st' \<and> printed e (emit e x st) st'"
        using x(3) less.prems(2) Cons by (intro less.hyps) (auto simp: keep[OF printed_emit])
      with False x show ?thesis
        by (subst vsn_loop.simps) (auto intro: printed_trans simp del: split_paired_Ex)
    qed
  qed
qed

lemma unat_succ: "unat (p :: addr) + 1 < 2 ^ 32 \<Longrightarrow> unat (p + 1) = unat p + 1"
  by (simp add: unat_word_ariths)

text \<open>What is in memory after the characters, as long as the pointer does not wrap around.\<close>

lemma emits_mem:
  assumes "unat str + length cs < 2 ^ 32"
  shows "snd (emits e cs (m, str)) = str + of_nat (length cs)"
    and "fst (emits e cs (m, str)) a =
      (if unat str \<le> unat a \<and> unat a < unat str + length cs \<and> a \<le> e then cs ! (unat a - unat str) else m a)"
  using assms
proof (induction cs arbitrary: m str)
  case (Cons c cs)
  case 1
  then show ?case using Cons.IH(1)[of "str + 1"] by (simp add: emit_def unat_succ)
next
  case (Cons c cs)
  case 2
  then have s: "unat (str + 1) = unat str + 1" by (intro unat_succ) simp
  have "fst (emits e (c # cs) (m, str)) a =
    (if unat (str + 1) \<le> unat a \<and> unat a < unat (str + 1) + length cs \<and> a \<le> e then cs ! (unat a - unat (str + 1))
     else (if str \<le> e then m(str := c) else m) a)"
    using Cons.IH(2)[of "str + 1"] 2 s by (simp add: emit_def)
  also have "\<dots> = (if unat str \<le> unat a \<and> unat a < unat str + length (c # cs) \<and> a \<le> e
      then (c # cs) ! (unat a - unat str) else m a)"
  proof (cases "a = str")
    case False
    then have "unat a \<noteq> unat str" by (simp add: word_unat_eq_iff)
    with False s show ?thesis by (auto simp: nth_Cons')
  qed (simp add: s)
  finally show ?case .
qed auto

lemma buffer_end:
  fixes buf sz :: addr
  assumes "0 < sz" "buf \<noteq> 0" "unat buf + unat sz \<le> 2 ^ 32"
  shows "unat (buf + sz - 1) = unat buf + unat sz - 1" "\<not> buf + sz - 1 < buf - 1"
proof -
  have sz: "unat (sz - 1) = unat sz - 1" "0 < unat sz"
    using assms(1) by (simp_all add: unat_sub unat_gt_0 word_gt_0 word_le_nat_alt Suc_leI)
  have "unat (buf + (sz - 1)) = unat buf + unat (sz - 1)"
    using assms(3) sz by (intro unat_add_lem[THEN iffD1]) simp
  then show e: "unat (buf + sz - 1) = unat buf + unat sz - 1" using sz by (simp add: add_diff_eq)
  have "unat (buf - 1) = unat buf - 1"
    using assms(2) by (simp add: unat_sub unat_gt_0 word_le_nat_alt Suc_leI)
  with e sz show "\<not> buf + sz - 1 < buf - 1" by (simp add: word_less_nat_alt)
qed

text \<open>The terminating NUL goes after the last character that fits.\<close>

lemma terminated:
  fixes buf sz :: addr
  assumes "0 < sz" "buf \<noteq> 0" "unat buf + unat sz \<le> 2 ^ 32" "unat buf + length cs < 2 ^ 32"
    and st: "(m', str) = emits (buf + sz - 1) cs (m, buf)"
    and m'': "m'' = (if str \<le> buf + sz - 1 then m'(str := 0) else m'(buf + sz - 1 := 0))"
  shows "a < buf \<or> buf + sz - 1 < a \<Longrightarrow> m'' a = m a"
    and "i < length cs \<Longrightarrow> i < unat sz - 1 \<Longrightarrow> m'' (buf + of_nat i) = cs ! i"
    and "m'' (buf + of_nat (min (length cs) (unat sz - 1))) = 0"
proof -
  let ?e = "buf + sz - 1"
  have e: "unat ?e = unat buf + unat sz - 1" by (rule buffer_end(1)[OF assms(1-3)])
  have sz: "0 < unat sz" using assms(1) by (simp add: word_gt_0 unat_gt_0)
  have str: "str = buf + of_nat (length cs)" using emits_mem(1)[OF assms(4)] st by (metis snd_conv)
  have m': "m' a = (if unat buf \<le> unat a \<and> unat a < unat buf + length cs \<and> a \<le> ?e
      then cs ! (unat a - unat buf) else m a)" for a
    using emits_mem(2)[OF assms(4)] st by (metis fst_conv)
  have off: "unat (buf + of_nat k) = unat buf + k" if "unat buf + k < 2 ^ 32" for k
    using that by (simp add: unat_word_ariths unsigned_of_nat take_bit_nat_eq_self)
  have ustr: "unat str = unat buf + length cs" using off assms(4) by (simp add: str)
  show "m'' a = m a" if "a < buf \<or> ?e < a"
  proof -
    from that have "a \<noteq> ?e" "a \<noteq> str \<or> \<not> str \<le> ?e" "m' a = m a"
      using e sz ustr by (auto simp: m' word_less_nat_alt word_le_nat_alt)
    then show ?thesis by (auto simp: m'')
  qed
  show "m'' (buf + of_nat i) = cs ! i" if "i < length cs" "i < unat sz - 1"
  proof -
    have u: "unat (buf + of_nat i) = unat buf + i" using that assms(4) by (intro off) simp
    with that e ustr have "buf + of_nat i \<noteq> ?e" "buf + of_nat i \<noteq> str" "buf + of_nat i \<le> ?e"
      by (auto simp: word_unat_eq_iff word_le_nat_alt)
    with u that show ?thesis by (simp add: m'' m')
  qed
  show "m'' (buf + of_nat (min (length cs) (unat sz - 1))) = 0"
  proof (cases "length cs \<le> unat sz - 1")
    case True
    then have "str \<le> ?e" using ustr e sz by (simp add: word_le_nat_alt)
    with True show ?thesis by (simp add: m'' str min_absorb1)
  next
    case False
    then have "\<not> str \<le> ?e" using ustr e sz by (simp add: word_le_nat_alt)
    moreover have "buf + of_nat (unat sz - 1) = ?e"
      using False assms(4) by (simp add: word_unat_eq_iff off e) (use sz in simp)
    ultimately show ?thesis using False by (simp add: m'' min_absorb2)
  qed
qed

subsection \<open>Properties\<close>

text \<open>C32. \<open>do_div\<close> never faults on a non-zero base: the two 32-bit divisions leave the quotient of
  the 64-bit division in \<open>n\<close> and return its remainder.\<close>

theorem do_div_correct:
  assumes "base \<noteq> 0"
  shows "\<exists>r q. do_div n base = Some (r, q) \<and> unat q = unat n div unat base \<and> unat r = unat n mod unat base"
proof -
  have "unat n div unat base < 2 ^ 64" using div_le_dividend unat_lt64 by (rule le_less_trans)
  moreover have "unat n mod unat base < 2 ^ 32"
    using unsigned_less[of base, where 'a = nat] assms
    by (intro less_trans[OF mod_less_divisor]) (simp_all add: unat_gt_0)
  ultimately show ?thesis
    by (simp add: do_div_eq[OF assms] unsigned_of_nat take_bit_nat_eq_self)
qed

theorem do_div_correct_witness:
  "\<exists>r q. do_div 0x123456789 10 = Some (r, q) \<and> unat q = 488671834 \<and> unat r = 5"
  using do_div_correct[of 10 "0x123456789"] by simp

text \<open>C13. For every base from 2 to 36 \<open>number\<close> returns, never overruns its array of digits, and
  prints exactly the padding, sign, base prefix, leading zeros and digits of the value; read back in
  the base, the digits are the magnitude of the number.\<close>

theorem number_correct:
  assumes "2 \<le> sint base" "sint base \<le> 36"
  shows "number m buf e num base width precision type =
      Some (emits e (number_chars num base width precision type) (m, buf))
    \<and> foldr (\<lambda>d a. d + unat base * a) (base_digits (unat base) (number_mag num type)) 0 = number_mag num type"
proof -
  have "uint base = sint base" using assms(1) by (intro uint_sint) simp
  with assms(1) have "2 \<le> unat base" by (simp add: unat_eq_nat_uint)
  with number_eq[OF assms] base_digits_value show ?thesis by blast
qed

lemma demo_number_chars:
  "number_chars (- 0x2a) 10 6 (- 1) (SIGN OR ZEROPAD) = map ch ''-00042''"
  by code_simp

theorem number_correct_witness:
  "number (\<lambda>_. 0) 0x1000 0x1fff (- 0x2a) 10 6 (- 1) (SIGN OR ZEROPAD) =
     Some (emits 0x1fff (map ch ''-00042'') (\<lambda>_. 0, 0x1000))"
  using number_correct[of 10 "\<lambda>_. 0" "0x1000" "0x1fff" "- 0x2a" 6 "- 1" "SIGN OR ZEROPAD"]
  unfolding demo_number_chars by simp


definition demo_fmt_mem :: mem where
  "demo_fmt_mem = (\<lambda>_. 0)(0x3000 := ch CHR ''o'', 0x3001 := ch CHR ''k'', 0x3002 := ch CHR ''%'', 0x3003 := ch CHR ''d'')"


end
