(* ===== verification/Console.thy ===== *)
theory Console
  imports Vga Vsprintf
begin

text \<open>
  The serial port (\<^verbatim>\<open>arch-ia32/serio.c\<close>) and the kernel's messages
  (\<^verbatim>\<open>kernel/printk.c\<close>), which go to the serial port and to the screen. \<open>null_str\<close> is the address
  of the string that \<open>vsnprintf\<close> prints for a NULL pointer and \<open>buf\<close> that of the static buffer of
  \<open>printkv_unlocked\<close>. The locks of these functions switch interrupts off around them.
\<close>

section \<open>The serial port\<close>

definition COM1 :: u32 where "COM1 = 0x3f8"

definition serio_init :: "device \<Rightarrow> 'a port_io_scheme \<Rightarrow> 'a port_io_scheme" where
  "serio_init dev s =
     (let s = outb (COM1 + 1) 0 s;
          (s, lcr) = inb dev (COM1 + 3) s;
          lcr = lcr OR 0x3;
          lcr = lcr AND NOT (push_bit 2 1);
          lcr = lcr AND NOT (push_bit 3 1);
          s = outb (COM1 + 3) (lcr OR 0x80) s;
          s = outb (COM1 + 0) 0 s;
          s = outb (COM1 + 1) 1 s
      in outb (COM1 + 3) lcr s)"

definition serio_put :: "u8 \<Rightarrow> 'a port_io_scheme \<Rightarrow> 'a port_io_scheme" where
  "serio_put c s = outb (COM1 + 0) c s"

text \<open>\<open>isr\<close> is the address of \<open>serio_isr\<close>.\<close>

definition serio_driver_init :: "addr \<Rightarrow> 'a irq_state_scheme \<Rightarrow> 'a irq_state_scheme option" where
  "serio_driver_init isr s =
     (let s = outb (COM1 + 1) 1 s;
          s = set_irq_handler s 4 isr NULL
      in irq_on s 4)"

section \<open>Messages\<close>

primrec print_loop :: "mem \<Rightarrow> addr \<Rightarrow> nat \<Rightarrow> 'a vga_state_scheme \<Rightarrow> 'a vga_state_scheme" where
  "print_loop m p 0 s = s"
| "print_loop m p (Suc n) s = print_loop m (p + 1) n (vga_put (m p) (serio_put (m p) s))"

definition printkv_unlocked ::
  "addr \<Rightarrow> addr \<Rightarrow> addr \<Rightarrow> addr \<Rightarrow> mem \<times> 'a vga_state_scheme \<Rightarrow> (mem \<times> 'a vga_state_scheme) option" where
  "printkv_unlocked null_str buf fmt ap = (\<lambda>(m, s). do {
     (m, len) \<leftarrow> vsnprintf null_str m buf 512 fmt ap;
     let s = print_loop m buf (nat (sint len)) s;
     Some (m, vga_curs (-1) (-1) s)
   })"

definition printkv ::
  "addr \<Rightarrow> addr \<Rightarrow> addr \<Rightarrow> addr \<Rightarrow> mem \<times> 'a vga_state_scheme \<Rightarrow> (mem \<times> 'a vga_state_scheme) option" where
  "printkv null_str buf fmt ap = printkv_unlocked null_str buf fmt ap"

text \<open>\<open>va_start\<close> is the address of the words after the format argument.\<close>

definition printk_unlocked ::
  "addr \<Rightarrow> addr \<Rightarrow> addr \<Rightarrow> addr \<Rightarrow> mem \<times> 'a vga_state_scheme \<Rightarrow> (mem \<times> 'a vga_state_scheme) option" where
  "printk_unlocked null_str buf fmt va_start = printkv_unlocked null_str buf fmt va_start"

definition printk ::
  "addr \<Rightarrow> addr \<Rightarrow> addr \<Rightarrow> addr \<Rightarrow> mem \<times> 'a vga_state_scheme \<Rightarrow> (mem \<times> 'a vga_state_scheme) option" where
  "printk null_str buf fmt va_start = printkv_unlocked null_str buf fmt va_start"

text \<open>The receive interrupt echoes what comes in; \<open>fmt_c\<close> is the address of the format \<^verbatim>\<open>"%c"\<close> and
  \<open>stack\<close> that of the word the character is passed in.\<close>

partial_function (option) serio_recv ::
  "device \<Rightarrow> addr \<Rightarrow> addr \<Rightarrow> addr \<Rightarrow> addr \<Rightarrow> u32 \<Rightarrow> mem \<times> 'a vga_state_scheme \<Rightarrow> (mem \<times> 'a vga_state_scheme) option" where
  "serio_recv dev null_str buf fmt_c stack base ms =
     (case ms of (m, s) \<Rightarrow>
        let (s, c) = inb dev (base + 5) s
        in if c AND 1 = 0 then Some (m, s)
           else let (s, k) = inb dev (base + 0) s in do {
             ms \<leftarrow> printk null_str buf fmt_c stack
                    (write32 m stack (ucast (if k = 13 then 10 else k)), s);
             serio_recv dev null_str buf fmt_c stack base ms
           })"

definition serio_isr ::
  "device \<Rightarrow> addr \<Rightarrow> addr \<Rightarrow> addr \<Rightarrow> addr \<Rightarrow> int \<Rightarrow> addr \<Rightarrow> mem \<times> 'a vga_state_scheme \<Rightarrow>
     (mem \<times> 'a vga_state_scheme) option" where
  "serio_isr dev null_str buf fmt_c stack irq priv ms =
     (if irq = 4 then serio_recv dev null_str buf fmt_c stack COM1 ms else Some ms)"

section \<open>What is printed\<close>

text \<open>The bytes sent through the serial port.\<close>

fun serial_out :: "port_op list \<Rightarrow> u8 list" where
  "serial_out [] = []"
| "serial_out (POut w p v # ops) = (if p = 0x3f8 then ucast v # serial_out ops else serial_out ops)"
| "serial_out (PIn w p v # ops) = serial_out ops"

lemma serial_out_append [simp]: "serial_out (xs @ ys) = serial_out xs @ serial_out ys"
  by (induction xs rule: serial_out.induct) simp_all

lemma serio_put_frame [simp]:
  "vidmem (serio_put c s) = vidmem s" "attrib (serio_put c s) = attrib s"
  "xpos (serio_put c s) = xpos s" "ypos (serio_put c s) = ypos s"
  by (simp_all add: serio_put_def outb_def)

lemma serio_put_shows [simp]: "shows_term m t (serio_put c s) = shows_term m t s"
  by (simp add: shows_term_def screen_def)

lemma vga_scroll_log [simp]: "io_log (vga_scroll n s) = io_log s"
  by (induction n) (simp_all add: Let_def)

lemma vga_blank_log [simp]: "io_log (vga_blank n s) = io_log s"
  by (induction n) (simp_all add: Let_def)

lemma vga_put_log [simp]: "io_log (vga_put c s) = io_log s"
  by (simp add: vga_put_def vga_newline_def Let_def)

lemma serial_serio_put [simp]:
  "serial_out (io_log (serio_put c s)) = serial_out (io_log s) @ [c]"
  by (simp add: serio_put_def COM1_def)

lemma print_loop_shows:
  "shows_term v t s \<Longrightarrow> shows_term v (fold t_put (bytes_at m p n) t) (print_loop m p n s)"
  by (induction n arbitrary: p t s) (simp_all add: put_shows)

lemma print_loop_serial:
  "serial_out (io_log (print_loop m p n s)) = serial_out (io_log s) @ bytes_at m p n"
  by (induction n arbitrary: p s) simp_all

lemma vga_curs_serial [simp]: "serial_out (io_log (vga_curs x y s)) = serial_out (io_log s)"
  by (simp add: vga_curs_def Let_def CRTC_INDEX_REG_def CRTC_DATA_REG_def)


definition demo_console :: vga_state where
  "demo_console = vga_preinit 0x20 \<lparr>io_log = [], pics = pics_static, irq_fns = (\<lambda>_. 0), irq_priv = (\<lambda>_. 0),
     vidmem = (\<lambda>_. 0), attrib = 0x17, xpos = 0, ypos = 0, monitor = 0\<rparr>"

definition demo_msg :: mem where
  "demo_msg = (\<lambda>_. 0)(0x3000 := 0x68, 0x3001 := 0x69)"

lemma demo_console_shows: "shows_term (\<lambda>_. 0) t_blank demo_console"
  unfolding demo_console_def
  using preinit_shows [of "\<lparr>io_log = [], pics = pics_static, irq_fns = (\<lambda>_. 0), irq_priv = (\<lambda>_. 0),
     vidmem = (\<lambda>_. 0), attrib = 0x17, xpos = 0, ypos = 0, monitor = 0\<rparr>" "0x20"] by simp

lemma demo_msg_formats:
  "vsnprintf 0 demo_msg 0x1000 512 0x3000 0x4000 = Some (demo_msg(0x1000 := 0x68, 0x1001 := 0x69, 0x1002 := 0), 2)"
proof -
  have "ch CHR ''%'' = 0x25" by code_simp
  then show ?thesis unfolding vsnprintf_def demo_msg_def
    by (simp add: Let_def vsn_loop.simps emit_def)
qed


end
