(* ===== verification/Dma.thy ===== *)
theory Dma
  imports PortIO
begin

unbundle bit_operations_syntax

text \<open>
  The DMA controller driver (\<^verbatim>\<open>arch-ia32/dma.c\<close>). The reference is a model of the two 8237
  controllers of a PC as a state machine over the bytes written to their ports; the property says
  what the registers of a channel hold after a transfer has been set up. The kernel runs the
  sequence with interrupts off (\<^verbatim>\<open>lock_irq\<close>), so it is atomic here.
\<close>

section \<open>The driver\<close>

record dma =
  page_port :: u8
  addr_port :: u8
  count_port :: u8
  mask_port :: u8
  mode_port :: u8
  clear_port :: u8

definition dma_chan :: "dma list" where
  "dma_chan =
    [\<lparr>page_port = 0x87, addr_port = 0x00, count_port = 0x01, mask_port = 0x0a, mode_port = 0x0b, clear_port = 0x0c\<rparr>,
     \<lparr>page_port = 0x83, addr_port = 0x02, count_port = 0x03, mask_port = 0x0a, mode_port = 0x0b, clear_port = 0x0c\<rparr>,
     \<lparr>page_port = 0x81, addr_port = 0x04, count_port = 0x05, mask_port = 0x0a, mode_port = 0x0b, clear_port = 0x0c\<rparr>,
     \<lparr>page_port = 0x82, addr_port = 0x06, count_port = 0x07, mask_port = 0x0a, mode_port = 0x0b, clear_port = 0x0c\<rparr>,
     \<lparr>page_port = 0x8f, addr_port = 0xc0, count_port = 0xc2, mask_port = 0xd4, mode_port = 0xd6, clear_port = 0xd8\<rparr>,
     \<lparr>page_port = 0x8b, addr_port = 0xc6, count_port = 0xc6, mask_port = 0xd4, mode_port = 0xd6, clear_port = 0xd8\<rparr>,
     \<lparr>page_port = 0x89, addr_port = 0xc8, count_port = 0xca, mask_port = 0xd4, mode_port = 0xd6, clear_port = 0xd8\<rparr>,
     \<lparr>page_port = 0x8a, addr_port = 0xcc, count_port = 0xce, mask_port = 0xd4, mode_port = 0xd6, clear_port = 0xd8\<rparr>]"

definition dma_cmd :: "u8 \<Rightarrow> u8 \<Rightarrow> u16 \<Rightarrow> u16 \<Rightarrow> u8 \<Rightarrow> 'a port_io_scheme \<Rightarrow> 'a port_io_scheme option" where
  "dma_cmd chan pg ofs len md s = do {
     _ \<leftarrow> BUG_ON (length dma_chan \<le> unat chan);
     let c = dma_chan ! unat chan;
     let s = outb (ucast (mask_port c)) (0x04 OR chan) s;
     let s = outb (ucast (clear_port c)) 0x00 s;
     let s = outb (ucast (mode_port c)) md s;
     let s = outb (ucast (addr_port c)) (ucast (ofs AND 0xff)) s;
     let s = outb (ucast (addr_port c)) (ucast (drop_bit 8 ofs AND 0xff)) s;
     let s = outb (ucast (page_port c)) pg s;
     let s = outb (ucast (count_port c)) (ucast (len AND 0xff)) s;
     let s = outb (ucast (count_port c)) (ucast (drop_bit 8 len AND 0xff)) s;
     let s = outb (ucast (mask_port c)) chan s;
     Some s
   }"

definition dma_write :: "u8 \<Rightarrow> addr \<Rightarrow> u16 \<Rightarrow> 'a port_io_scheme \<Rightarrow> 'a port_io_scheme option" where
  "dma_write chan a len = dma_cmd chan (ucast (drop_bit 16 a)) (ucast (a AND 0xffff)) (len - 1) (0x48 + chan)"

definition dma_read :: "u8 \<Rightarrow> addr \<Rightarrow> u16 \<Rightarrow> 'a port_io_scheme \<Rightarrow> 'a port_io_scheme option" where
  "dma_read chan a len = dma_cmd chan (ucast (drop_bit 16 a)) (ucast (a AND 0xffff)) (len - 1) (0x44 + chan)"

section \<open>The controllers\<close>

text \<open>
  A controller has four channels, each with an address and a count register loaded a byte at a
  time under a common flip-flop; writing the clear port resets the flip-flop, the mask port sets or
  clears the mask bit of the channel in its low two bits according to bit 2, and the mode port loads
  the mode of the channel in its low two bits. Channels 0 to 3 are on the first controller, 4 to 7 on
  the second, whose ports are two apart.
\<close>

datatype dma_reg = RAddr nat | RCount nat | RMask | RMode | RClear

definition dma_port :: "nat \<Rightarrow> (nat \<times> dma_reg) option" where
  "dma_port p =
    (if p < 8 then Some (0, if even p then RAddr (p div 2) else RCount (p div 2))
     else if p = 0x0a then Some (0, RMask) else if p = 0x0b then Some (0, RMode)
     else if p = 0x0c then Some (0, RClear)
     else if 0xc0 \<le> p \<and> p < 0xd0 \<and> even p
       then Some (1, if even (p div 2) then RAddr ((p - 0xc0) div 4) else RCount ((p - 0xc0) div 4))
     else if p = 0xd4 then Some (1, RMask) else if p = 0xd6 then Some (1, RMode)
     else if p = 0xd8 then Some (1, RClear) else None)"

record dma_hw =
  hw_high :: "nat \<Rightarrow> bool"
  hw_addr :: "nat \<Rightarrow> u16"
  hw_count :: "nat \<Rightarrow> u16"
  hw_mode :: "nat \<Rightarrow> u8"
  hw_masked :: "nat \<Rightarrow> bool"
  hw_page :: "nat \<Rightarrow> u8"

definition load_byte :: "bool \<Rightarrow> u8 \<Rightarrow> u16 \<Rightarrow> u16" where
  "load_byte high b w = (if high then push_bit 8 (ucast b) OR (w AND 0x00ff) else ucast b OR (w AND 0xff00))"

definition dma_hw_out :: "nat \<Rightarrow> u8 \<Rightarrow> dma_hw \<Rightarrow> dma_hw" where
  "dma_hw_out p b h = (case dma_port p of
     None \<Rightarrow> h\<lparr>hw_page := (hw_page h)(p := b)\<rparr>
   | Some (k, RAddr c) \<Rightarrow>
       h\<lparr>hw_addr := (hw_addr h)(4 * k + c := load_byte (hw_high h k) b (hw_addr h (4 * k + c))),
         hw_high := (hw_high h)(k := \<not> hw_high h k)\<rparr>
   | Some (k, RCount c) \<Rightarrow>
       h\<lparr>hw_count := (hw_count h)(4 * k + c := load_byte (hw_high h k) b (hw_count h (4 * k + c))),
         hw_high := (hw_high h)(k := \<not> hw_high h k)\<rparr>
   | Some (k, RMask) \<Rightarrow> h\<lparr>hw_masked := (hw_masked h)(4 * k + unat (b AND 3) := bit b 2)\<rparr>
   | Some (k, RMode) \<Rightarrow> h\<lparr>hw_mode := (hw_mode h)(4 * k + unat (b AND 3) := b AND 0xfc)\<rparr>
   | Some (k, RClear) \<Rightarrow> h\<lparr>hw_high := (hw_high h)(k := False)\<rparr>)"

fun dma_hw_run :: "port_op list \<Rightarrow> dma_hw \<Rightarrow> dma_hw" where
  "dma_hw_run [] h = h"
| "dma_hw_run (POut w p v # ops) h = dma_hw_run ops (dma_hw_out (unat p) (ucast v) h)"
| "dma_hw_run (PIn w p v # ops) h = dma_hw_run ops h"

text \<open>The registers of a channel set up for a transfer of \<open>len\<close> bytes at \<open>a\<close>.\<close>

definition dma_armed :: "nat \<Rightarrow> u8 \<Rightarrow> addr \<Rightarrow> u16 \<Rightarrow> u8 \<Rightarrow> dma_hw \<Rightarrow> dma_hw" where
  "dma_armed c pgport a len md h =
    h\<lparr>hw_high := (hw_high h)(0 := False), hw_addr := (hw_addr h)(c := ucast a),
      hw_count := (hw_count h)(c := len - 1), hw_mode := (hw_mode h)(c := md),
      hw_masked := (hw_masked h)(c := False),
      hw_page := (hw_page h)(unat pgport := ucast (drop_bit 16 a))\<rparr>"

lemma dma_hw_run_append: "dma_hw_run (xs @ ys) h = dma_hw_run ys (dma_hw_run xs h)"
  by (induction xs h rule: dma_hw_run.induct) simp_all

lemma ff_masks: "(0xff :: u16) = mask 8" "(0xff00 :: u16) = push_bit 8 (mask 8)"
  by (simp_all add: mask_eq_exp_minus_1 push_bit_eq_mult)

lemma load_word: "load_byte True (ucast (drop_bit 8 w AND 0xff)) (load_byte False (ucast (w AND 0xff)) x) = w"
  unfolding load_byte_def ff_masks
  by (simp, rule bit_word_eqI) (auto simp: bit_simps)

lemma ucast_ffff: "ucast (a AND 0xffff :: u32) = (ucast a :: u16)"
proof -
  have m: "(0xffff :: u32) = mask 16" by (simp add: mask_eq_exp_minus_1)
  show ?thesis unfolding m by (intro bit_word_eqI) (auto simp: bit_simps)
qed

lemma u8_cases4:
  assumes "unat (c :: u8) < 4"
  obtains "c = 0" | "c = 1" | "c = 2" | "c = 3"
proof -
  have "unat c = unat (0 :: u8) \<or> unat c = unat (1 :: u8) \<or> unat c = unat (2 :: u8) \<or> unat c = unat (3 :: u8)"
    using assms by (simp, linarith)
  then show thesis using that by (auto simp only: unsigned_word_eqI word_unat_eq_iff)
qed

lemmas dma_run_simps = dma_cmd_def dma_chan_def dma_hw_run_append dma_hw_out_def dma_port_def
  dma_armed_def load_word ucast_ffff

lemma dma_chan_low:
  assumes "unat (chan :: u8) < 4"
  shows "mask_port (dma_chan ! unat chan) = 0x0a" "mode_port (dma_chan ! unat chan) = 0x0b"
    "clear_port (dma_chan ! unat chan) = 0x0c"
    "dma_port (unat (addr_port (dma_chan ! unat chan))) = Some (0, RAddr (unat chan))"
    "dma_port (unat (count_port (dma_chan ! unat chan))) = Some (0, RCount (unat chan))"
    "dma_port (unat (page_port (dma_chan ! unat chan))) = None"
  by (rule u8_cases4 [OF assms]; simp add: dma_chan_def dma_port_def)+

lemma unat_less_word8: "unat (b :: u8) < 256"
proof -
  have "unat b < 2 ^ LENGTH(8)" by (rule unsigned_less)
  then show ?thesis by simp
qed

lemma unat_port [simp]: "unat (ucast (ucast (b :: u8) :: u32) :: u16) = unat b"
  using unat_less_word8 [of b]
  by (simp add: unsigned_ucast_eq take_bit_word_eq_self take_bit_nat_eq_self)

lemma dma_run_outb:
  "dma_hw_run (io_log (outb p b s)) h = dma_hw_out (unat (ucast p :: u16)) b (dma_hw_run (io_log s) h)"
  by (simp add: dma_hw_run_append)

lemma dma_out_simps:
  "dma_port p = Some (k, RMask) \<Longrightarrow> dma_hw_out p b h = h\<lparr>hw_masked := (hw_masked h)(4 * k + unat (b AND 3) := bit b 2)\<rparr>"
  "dma_port p = Some (k, RMode) \<Longrightarrow> dma_hw_out p b h = h\<lparr>hw_mode := (hw_mode h)(4 * k + unat (b AND 3) := b AND 0xfc)\<rparr>"
  "dma_port p = Some (k, RClear) \<Longrightarrow> dma_hw_out p b h = h\<lparr>hw_high := (hw_high h)(k := False)\<rparr>"
  "dma_port p = None \<Longrightarrow> dma_hw_out p b h = h\<lparr>hw_page := (hw_page h)(p := b)\<rparr>"
  by (simp_all add: dma_hw_out_def)

lemma dma_addr_pair:
  "dma_port p = Some (k, RAddr c) \<Longrightarrow> \<not> hw_high h k \<Longrightarrow>
    dma_hw_out p (ucast (drop_bit 8 w AND 0xff)) (dma_hw_out p (ucast (w AND 0xff)) h) =
      h\<lparr>hw_addr := (hw_addr h)(4 * k + c := w)\<rparr>"
  by (cases h) (simp add: dma_hw_out_def load_word fun_upd_idem)

lemma dma_count_pair:
  "dma_port p = Some (k, RCount c) \<Longrightarrow> \<not> hw_high h k \<Longrightarrow>
    dma_hw_out p (ucast (drop_bit 8 w AND 0xff)) (dma_hw_out p (ucast (w AND 0xff)) h) =
      h\<lparr>hw_count := (hw_count h)(4 * k + c := w)\<rparr>"
  by (cases h) (simp add: dma_hw_out_def load_word fun_upd_idem)

lemma dma_cmd_armed:
  assumes "unat chan < 4" "(md + chan) AND 3 = chan" "(md + chan) AND 0xfc = md"
  shows "\<exists>s'. dma_cmd chan (ucast (drop_bit 16 a)) (ucast (a AND 0xffff)) (len - 1) (md + chan) s = Some s' \<and>
    port_io.more s' = port_io.more s \<and>
    dma_hw_run (io_log s') h =
      dma_armed (unat chan) (page_port (dma_chan ! unat chan)) a len md (dma_hw_run (io_log s) h)"
proof -
  have m: "(4 OR chan) AND 3 = chan" "bit (4 OR chan) 2" "chan AND 3 = chan" "\<not> bit chan 2"
    by (rule u8_cases4 [OF assms(1)]; simp)+
  have p: "dma_port 0x0a = Some (0, RMask)" "dma_port 0x0b = Some (0, RMode)"
    "dma_port 0x0c = Some (0, RClear)" "\<not> length dma_chan \<le> unat chan"
    using assms(1) by (simp_all add: dma_port_def dma_chan_def)
  note d = dma_chan_low [OF assms(1)]
  let ?c = "dma_chan ! unat chan" and ?h = "dma_hw_run (io_log s) h"
  let ?h1 = "?h\<lparr>hw_masked := (hw_masked ?h)(unat chan := True), hw_high := (hw_high ?h)(0 := False),
    hw_mode := (hw_mode ?h)(unat chan := md)\<rparr>"
  let ?h2 = "?h1\<lparr>hw_addr := (hw_addr ?h)(unat chan := ucast a),
    hw_page := (hw_page ?h)(unat (page_port ?c) := ucast (drop_bit 16 a))\<rparr>"
  let ?h3 = "?h2\<lparr>hw_count := (hw_count ?h)(unat chan := len - 1)\<rparr>"
  have 1: "dma_hw_out 0x0b (md + chan) (dma_hw_out 0x0c 0 (dma_hw_out 0x0a (4 OR chan) ?h)) = ?h1"
    by (simp add: dma_out_simps p m assms)
  have 2: "dma_hw_out (unat (page_port ?c)) (ucast (drop_bit 16 a))
      (dma_hw_out (unat (addr_port ?c)) (ucast (drop_bit 8 (ucast a :: u16) AND 0xff))
        (dma_hw_out (unat (addr_port ?c)) (ucast ((ucast a :: u16) AND 0xff)) ?h1)) = ?h2"
    by (subst dma_addr_pair [OF d(4)]) (simp_all add: dma_out_simps d(6))
  have 3: "dma_hw_out (unat (count_port ?c)) (ucast (drop_bit 8 (len - 1) AND 0xff))
      (dma_hw_out (unat (count_port ?c)) (ucast ((len - 1) AND 0xff)) ?h2) = ?h3"
    by (subst dma_count_pair [OF d(5)]) simp_all
  have 4: "dma_hw_out 0x0a chan ?h3 = dma_armed (unat chan) (page_port ?c) a len md ?h"
    by (simp add: dma_out_simps p m dma_armed_def)
  have c: "dma_cmd chan (ucast (drop_bit 16 a)) (ucast (a AND 0xffff)) (len - 1) (md + chan) s =
    Some (outb 0x0a chan (outb (ucast (count_port ?c)) (ucast (drop_bit 8 (len - 1) AND 0xff))
      (outb (ucast (count_port ?c)) (ucast ((len - 1) AND 0xff))
      (outb (ucast (page_port ?c)) (ucast (drop_bit 16 a))
      (outb (ucast (addr_port ?c)) (ucast (drop_bit 8 (ucast a :: u16) AND 0xff))
      (outb (ucast (addr_port ?c)) (ucast ((ucast a :: u16) AND 0xff))
      (outb 0x0b (md + chan) (outb 0x0c 0 (outb 0x0a (4 OR chan) s)))))))))"
    using p(4) by (simp add: dma_cmd_def Let_def d ucast_ffff)
  have "unat (ucast (0x0a :: u32) :: u16) = 0x0a" "unat (ucast (0x0b :: u32) :: u16) = 0x0b"
    "unat (ucast (0x0c :: u32) :: u16) = 0x0c" by simp_all
  then show ?thesis unfolding c
    by (simp only: dma_run_outb unat_port 1 2 3 4 out_more option.inject ex_simps simp_thms)
qed

text \<open>
  C22. For each of the four 8-bit channels \<open>dma_read\<close> and \<open>dma_write\<close> return, and the controller
  is then armed for exactly the requested transfer: the channel's address and page registers hold the
  address, the count register the length minus one, the mode is a single transfer to memory or from
  memory, the channel is unmasked, and no other channel has changed, whatever the state of the
  controllers was before, in particular of the byte flip-flop.
\<close>

theorem dma_transfer_armed:
  assumes "unat chan < 4"
  shows "(\<exists>s'. dma_read chan a len s = Some s' \<and> port_io.more s' = port_io.more s \<and>
      dma_hw_run (io_log s') h =
        dma_armed (unat chan) (page_port (dma_chan ! unat chan)) a len 0x44 (dma_hw_run (io_log s) h)) \<and>
    (\<exists>s'. dma_write chan a len s = Some s' \<and> port_io.more s' = port_io.more s \<and>
      dma_hw_run (io_log s') h =
        dma_armed (unat chan) (page_port (dma_chan ! unat chan)) a len 0x48 (dma_hw_run (io_log s) h))"
proof -
  have "(0x44 + chan) AND 3 = chan" "(0x44 + chan) AND 0xfc = 0x44"
    "(0x48 + chan) AND 3 = chan" "(0x48 + chan) AND 0xfc = 0x48"
    by (rule u8_cases4 [OF assms]; simp)+
  then show ?thesis unfolding dma_read_def dma_write_def
    by (blast intro: dma_cmd_armed [OF assms])
qed

theorem dma_transfer_armed_witness:
  "\<forall>h. \<exists>s'. dma_read 2 0x00123456 512 \<lparr>io_log = []\<rparr> = Some s' \<and>
     hw_addr (dma_hw_run (io_log s') h) 2 = 0x3456 \<and> hw_page (dma_hw_run (io_log s') h) 0x81 = 0x12 \<and>
     hw_count (dma_hw_run (io_log s') h) 2 = 511 \<and> \<not> hw_masked (dma_hw_run (io_log s') h) 2"
proof
  fix h
  have "unat (2 :: u8) < 4" by simp
  from dma_transfer_armed [OF this, of "0x00123456" 512 "\<lparr>io_log = []\<rparr>" h, THEN conjunct1]
  show "\<exists>s'. dma_read 2 0x00123456 512 \<lparr>io_log = []\<rparr> = Some s' \<and>
     hw_addr (dma_hw_run (io_log s') h) 2 = 0x3456 \<and> hw_page (dma_hw_run (io_log s') h) 0x81 = 0x12 \<and>
     hw_count (dma_hw_run (io_log s') h) 2 = 511 \<and> \<not> hw_masked (dma_hw_run (io_log s') h) 2"
    by (force simp: dma_armed_def dma_chan_def)
qed

text \<open>
  The 16-bit channels cannot be used: the final write to the mask port carries the channel number
  4 to 7, whose bit 2 asks the controller to mask the channel again. The mode has the direction of
  the transfer wrong for the same reason.
\<close>

lemma dma_cmd_last:
  assumes "unat chan < length dma_chan"
  shows "\<exists>s1. dma_cmd chan pg ofs len md s = Some (outb (ucast (mask_port (dma_chan ! unat chan))) chan s1)"
  unfolding dma_cmd_def Let_def using assms by (simp only: BUG_ON_bind not_le [symmetric] if_False) blast

lemma dma_high_masked:
  assumes "4 \<le> unat chan" "unat chan < 8"
  shows "\<exists>s'. dma_read chan a len s = Some s' \<and> hw_masked (dma_hw_run (io_log s') h) (unat chan)"
proof -
  have "unat (chan - 4) < 4" using assms by (simp add: unat_sub word_le_nat_alt)
  then have c: "chan = 4 \<or> chan = 5 \<or> chan = 6 \<or> chan = 7"
    by (rule u8_cases4) (auto simp: algebra_simps diff_eq_eq)
  then have m: "mask_port (dma_chan ! unat chan) = 0xd4" "unat chan < length dma_chan"
    "4 + unat (chan AND 3) = unat chan" "bit chan 2"
    by (elim disjE; simp add: dma_chan_def)+
  obtain s1 where s1: "dma_read chan a len s = Some (outb (ucast (0xd4 :: u8)) chan s1)"
    using dma_cmd_last [OF m(2)] unfolding dma_read_def m(1) by blast
  have "dma_port (unat (0xd4 :: u8)) = Some (1, RMask)" by (simp add: dma_port_def)
  then have "hw_masked (dma_hw_run (io_log (outb (ucast (0xd4 :: u8)) chan s1)) h) (unat chan)"
    unfolding dma_run_outb unat_port by (simp only: dma_out_simps) (simp add: m)
  then show ?thesis using s1 by blast
qed

text \<open>Channel 5 has its count port in the place of its address port, so its address is never loaded.\<close>

lemma dma_chan5_addr: "addr_port (dma_chan ! 5) = count_port (dma_chan ! 5)"
  by (simp add: dma_chan_def)

end
