(* ===== verification/Timer.thy ===== *)
theory Timer
  imports Interrupt
begin

text \<open>
  The interval timer and the delay loops (\<^verbatim>\<open>arch-ia32/timer.c\<close>). The timer counts down while the
  processor spins, so the device here also depends on the number of loop iterations executed so
  far, \<open>spun\<close>.
\<close>

section \<open>The driver\<close>

definition PIT_SECOND :: u32 where "PIT_SECOND = 1193180"
definition HZ :: u32 where "HZ = 100"
definition LATCH :: u32 where "LATCH = (PIT_SECOND + HZ div 2) div HZ"
definition TMR_PORT :: u32 where "TMR_PORT = 0x43"
definition PIT_BOTH :: u8 where "PIT_BOTH = 0x30"
definition PIT_MODE_0 :: u8 where "PIT_MODE_0 = 0x0"
definition PIT_MODE_3 :: u8 where "PIT_MODE_3 = 0x6"
definition PIT_LATCH :: u8 where "PIT_LATCH = 0x00"

type_synonym timer_device = "nat \<Rightarrow> device"

record timer_state = irq_state +
  ticks :: u32
  loops_ms :: u32
  spun :: nat

text \<open>The assembly loop: decrement, and again while the result is not negative. The result is the
  number of iterations.\<close>

function delay_loop :: "u32 \<Rightarrow> nat" where
  "delay_loop d = (let d' = d - 1 in if bit d' 31 then 1 else Suc (delay_loop d'))"
  by auto

definition delay :: "u32 \<Rightarrow> 'a timer_state_scheme \<Rightarrow> 'a timer_state_scheme" where
  "delay loops s = s\<lparr>spun := spun s + delay_loop loops\<rparr>"

definition mdelay :: "u32 \<Rightarrow> 'a timer_state_scheme \<Rightarrow> 'a timer_state_scheme" where
  "mdelay m s = delay (m * loops_ms s) s"

definition udelay :: "u32 \<Rightarrow> 'a timer_state_scheme \<Rightarrow> 'a timer_state_scheme" where
  "udelay m s = delay (drop_bit 10 (m * loops_ms s)) s"

definition set_timer_chan :: "u16 \<Rightarrow> u8 \<Rightarrow> 'a port_io_scheme \<Rightarrow> 'a port_io_scheme" where
  "set_timer_chan h chan s =
     (let s = outb_p TMR_PORT (chan * 0x40 OR PIT_BOTH OR PIT_MODE_3) s;
          s = outb_p (0x40 + ucast chan) (ucast (h AND 0xFF)) s
      in outb_p (0x40 + ucast chan) (ucast (drop_bit 8 h)) s)"

definition set_timer_chan_oneshot :: "u16 \<Rightarrow> u8 \<Rightarrow> 'a port_io_scheme \<Rightarrow> 'a port_io_scheme" where
  "set_timer_chan_oneshot h chan s =
     (let s = outb_p TMR_PORT (chan * 0x40 OR PIT_BOTH OR PIT_MODE_0) s;
          s = outb_p (0x40 + ucast chan) (ucast (h AND 0xFF)) s
      in outb_p (0x40 + ucast chan) (ucast (drop_bit 8 h)) s)"

text \<open>The conditional operator binds weaker than the bitwise or, so the channel is part of the
  condition.\<close>

definition get_timer_chan :: "timer_device \<Rightarrow> u8 \<Rightarrow> int \<Rightarrow> 'a timer_state_scheme \<Rightarrow> 'a timer_state_scheme \<times> u32" where
  "get_timer_chan dev chan reset s =
     (let s = outb_p TMR_PORT (if (uint chan * 0x40) OR reset \<noteq> 0 then 0x0 else PIT_LATCH) s;
          (s, lo) = inb_p (dev (spun s)) (0x40 + ucast chan) s;
          (s, hi) = inb_p (dev (spun s)) (0x40 + ucast chan) s
      in (s, ucast lo + push_bit 8 (ucast hi)))"

text \<open>One measurement: has the one-shot counter gone below 64000 after a delay of \<open>loops_ms\<close>?\<close>

definition measure_delay :: "timer_device \<Rightarrow> 'a timer_state_scheme \<Rightarrow> 'a timer_state_scheme \<times> bool" where
  "measure_delay dev s =
     (let s = set_timer_chan_oneshot 0xFFFF 0 s;
          s = delay (loops_ms s) s;
          (s, x) = get_timer_chan dev 0 1 s
      in (s, x < 64000))"

text \<open>The first loop doubles \<open>loops_ms\<close> until it is 0 or the measurement succeeds.\<close>

partial_function (option) coarse ::
  "timer_device \<Rightarrow> 'a timer_state_scheme \<Rightarrow> 'a timer_state_scheme option" where
  "coarse dev s =
     (let s = s\<lparr>loops_ms := push_bit 1 (loops_ms s)\<rparr>
      in if loops_ms s = 0 then Some s
         else let (s, below) = measure_delay dev s
              in if below then Some s else coarse dev s)"

primrec precise :: "timer_device \<Rightarrow> nat \<Rightarrow> u32 \<Rightarrow> 'a timer_state_scheme \<Rightarrow> 'a timer_state_scheme" where
  "precise dev 0 lb s = s"
| "precise dev (Suc lp) lb s =
     (let lb = drop_bit 1 lb
      in if lb = 0 then s
         else let s = s\<lparr>loops_ms := loops_ms s OR lb\<rparr>;
                  (s, below) = measure_delay dev s;
                  s = (if below then s\<lparr>loops_ms := loops_ms s AND NOT lb\<rparr> else s)
              in precise dev lp lb s)"

definition calibrate_delay_loop :: "timer_device \<Rightarrow> 'a timer_state_scheme \<Rightarrow> 'a timer_state_scheme option" where
  "calibrate_delay_loop dev s = do {
     s \<leftarrow> coarse dev (s\<lparr>loops_ms := push_bit 12 1\<rparr>);
     let s = s\<lparr>loops_ms := drop_bit 1 (loops_ms s)\<rparr>;
     let s = precise dev 8 (loops_ms s) s;
     let s = s\<lparr>loops_ms := loops_ms s * (PIT_SECOND div (65535 - 64000))\<rparr>;
     Some (s\<lparr>loops_ms := loops_ms s div 1000\<rparr>)
   }"

definition pit_isr :: "int \<Rightarrow> addr \<Rightarrow> 'a timer_state_scheme \<Rightarrow> 'a timer_state_scheme" where
  "pit_isr irq priv s = s\<lparr>ticks := ticks s + 1\<rparr>"

text \<open>\<open>isr\<close> is the address of \<open>pit_isr\<close>.\<close>

definition pit_start_timer1 :: "addr \<Rightarrow> 'a irq_state_scheme \<Rightarrow> 'a irq_state_scheme option" where
  "pit_start_timer1 isr s =
     (let s = set_irq_handler s 0 isr NULL;
          s = set_timer_chan (ucast LATCH) 0 s
      in irq_on s 0)"

section \<open>Termination\<close>

termination delay_loop
proof (relation "measure unat", simp)
  fix d d' :: u32
  assume d': "d' = d - 1" "\<not> bit d' 31"
  have "d \<noteq> 0"
  proof
    assume "d = 0"
    then have "d' = NOT 0" using d'(1) by simp
    then show False using d'(2) by (simp add: bit_simps)
  qed
  then show "(d', d) \<in> measure unat" using d'(1) by (simp add: unat_minus_one unat_gt_0)
qed

declare delay_loop.simps [simp del]

lemma bit31: "bit (d :: u32) 31 \<longleftrightarrow> 2 ^ 31 \<le> unat d"
proof -
  have "unat d < 2 ^ LENGTH(32)" by (rule unsigned_less)
  then have "unat d div 2 ^ 31 < 2" by (simp add: less_mult_imp_div_less)
  then have o: "odd (unat d div 2 ^ 31) \<longleftrightarrow> unat d div 2 ^ 31 \<noteq> 0"
    by (cases "unat d div 2 ^ 31"; simp)
  have "bit d 31 \<longleftrightarrow> bit (unat d) 31" by (simp add: bit_unsigned_iff)
  also have "\<dots> \<longleftrightarrow> unat d div 2 ^ 31 \<noteq> 0" unfolding bit_iff_odd using o .
  finally show ?thesis by (simp add: div_eq_0_iff not_less)
qed

text \<open>A delay spins one iteration more than it is asked to, and a request of more than half the
  range of the counter does not delay at all.\<close>

lemma delay_loop_iterations:
  "delay_loop d = (if d = 0 \<or> 2 ^ 31 < unat d then 1 else Suc (unat d))"
proof (induction d rule: delay_loop.induct)
  case (1 d)
  show ?case
  proof (cases "d = 0")
    case True
    then show ?thesis by (subst delay_loop.simps) (simp add: bit31 unsigned_minus_1_eq_mask mask_eq_exp_minus_1)
  next
    case False
    then have u: "unat (d - 1) = unat d - 1" "0 < unat d" by (simp_all add: unat_minus_one unat_gt_0)
    then have z: "d - 1 = 0 \<longleftrightarrow> unat d = 1" by (metis One_nat_def Suc_pred diff_is_0_eq' le_refl unat_eq_0)
    show ?thesis
    proof (cases "bit (d - 1) 31")
      case True
      then show ?thesis using u False by (subst delay_loop.simps) (auto simp: bit31)
    next
      case b: False
      have "delay_loop (d - 1) = Suc (unat (d - 1)) \<or> unat d = 1 \<and> delay_loop (d - 1) = 1"
        using "1.IH" [OF refl b] u z b by (auto simp: bit31)
      then show ?thesis using u False b by (subst delay_loop.simps) (auto simp: bit31)
    qed
  qed
qed

lemma set_timer_frame [simp]:
  "timer_state.loops_ms (set_timer_chan_oneshot h c s) = loops_ms s"
  "length (io_log (set_timer_chan_oneshot h c s)) = length (io_log s) + 6"
  by (simp_all add: set_timer_chan_oneshot_def Let_def outb_p_def outb_def)

lemma get_timer_frame:
  "get_timer_chan dev c r s = (s', x) \<Longrightarrow>
    loops_ms s' = loops_ms s \<and> length (io_log s') = length (io_log s) + 6"
  by (auto simp: get_timer_chan_def Let_def outb_p_def outb_def inb_p_def inb_def)

lemma measure_delay_frame:
  assumes "measure_delay dev s = (s', b)"
  shows "loops_ms s' = loops_ms s" "length (io_log s') = length (io_log s) + 12"
  using assms get_timer_frame
  by (force simp: measure_delay_def Let_def delay_def split: prod.splits)+

lemma coarse_returns:
  assumes "push_bit (Suc k) (loops_ms s) = 0"
  shows "\<exists>s'. coarse dev s = Some s' \<and> length (io_log s') \<le> length (io_log s) + 12 * k"
  using assms
proof (induction k arbitrary: s)
  case 0
  then show ?case by (subst coarse.simps) simp
next
  case (Suc k)
  let ?s = "s\<lparr>loops_ms := push_bit 1 (loops_ms s)\<rparr>"
  obtain s1 b where m: "measure_delay dev ?s = (s1, b)" by fastforce
  have "push_bit (Suc k) (loops_ms s1) = 0" using Suc.prems measure_delay_frame(1) [OF m] by simp
  from Suc.IH [OF this] obtain s' where
    "coarse dev s1 = Some s'" "length (io_log s') \<le> length (io_log s1) + 12 * k" by blast
  then show ?case using m measure_delay_frame(2) [OF m]
    by (subst coarse.simps) (auto simp: Let_def)
qed

lemma precise_log: "length (io_log (precise dev lp lb s)) \<le> length (io_log s) + 12 * lp"
proof (induction lp arbitrary: lb s)
  case (Suc lp)
  let ?s = "s\<lparr>loops_ms := loops_ms s OR drop_bit 1 lb\<rparr>"
  obtain s1 b where m: "measure_delay dev ?s = (s1, b)" by fastforce
  let ?s2 = "if b then s1\<lparr>loops_ms := loops_ms s1 AND NOT (drop_bit 1 lb)\<rparr> else s1"
  have "length (io_log ?s2) = length (io_log s) + 12" using measure_delay_frame(2) [OF m] by simp
  then show ?case using Suc.IH [of "drop_bit 1 lb" ?s2] m by (cases b) (simp_all add: Let_def)
qed simp


text \<open>Reading a channel always latches channel 0.\<close>

lemma get_timer_latch:
  "get_timer_chan dev chan reset s = (s', x) \<Longrightarrow>
    \<exists>ops. io_log s' = io_log s @ POut 8 0x43 0 # ops"
  by (auto simp: get_timer_chan_def Let_def outb_p_def inb_p_def inb_def PIT_LATCH_def TMR_PORT_def)

end
