(* ===== verification/Keyboard.thy ===== *)
theory Keyboard
  imports Interrupt
begin

text \<open>
  The keyboard driver (\<^verbatim>\<open>arch-ia32/pc_keyb.c\<close>). Nothing takes scan codes out of the buffer yet.
\<close>

definition KBR_STATUS :: u32 where "KBR_STATUS = 0x64"
definition KBR_DATA :: u32 where "KBR_DATA = 0x60"
definition KB_STAT_IBF :: u8 where "KB_STAT_IBF = 0x02"
definition KB_CMD_SET_LEDS :: u8 where "KB_CMD_SET_LEDS = 0xED"
definition KB_CMD_ENABLE :: u8 where "KB_CMD_ENABLE = 0xF4"
definition KB_CMD_RESET :: u8 where "KB_CMD_RESET = 0xFF"
definition KB_BUFLEN :: nat where "KB_BUFLEN = 0x100"

record kb_state = irq_state +
  kb_buffer :: "u8 list"
  kb_len :: u8

text \<open>\<open>None\<close> is a store outside the buffer.\<close>

definition kb_isr :: "device \<Rightarrow> int \<Rightarrow> addr \<Rightarrow> 'a kb_state_scheme \<Rightarrow> 'a kb_state_scheme option" where
  "kb_isr dev irq priv s =
     (let (s, x) = inb dev KBR_DATA s
      in if KB_BUFLEN \<le> unat (kb_len s) then Some s
         else if unat (kb_len s) < length (kb_buffer s)
           then Some (s\<lparr>kb_buffer := (kb_buffer s)[unat (kb_len s) := x], kb_len := kb_len s + 1\<rparr>)
           else None)"

partial_function (option) kb_wait :: "device \<Rightarrow> 'a port_io_scheme \<Rightarrow> 'a port_io_scheme option" where
  "kb_wait dev s = (let (s, x) = inb dev KBR_STATUS s
     in if x AND KB_STAT_IBF \<noteq> 0 then kb_wait dev s else Some s)"

definition kb_setleds :: "device \<Rightarrow> u8 \<Rightarrow> 'a port_io_scheme \<Rightarrow> 'a port_io_scheme option" where
  "kb_setleds dev l s = do {
     s \<leftarrow> kb_wait dev (outb KBR_DATA KB_CMD_SET_LEDS s);
     kb_wait dev (outb KBR_DATA l s)
   }"

text \<open>\<open>isr\<close> is the address of \<open>kb_isr\<close>.\<close>

definition pc_keyb_init :: "device \<Rightarrow> addr \<Rightarrow> 'a irq_state_scheme \<Rightarrow> 'a irq_state_scheme option" where
  "pc_keyb_init dev isr s = do {
     s \<leftarrow> kb_wait dev (outb KBR_DATA KB_CMD_RESET s);
     s \<leftarrow> kb_wait dev (outb KBR_DATA KB_CMD_ENABLE s);
     s \<leftarrow> kb_setleds dev 0 s;
     irq_on (set_irq_handler s 1 isr NULL) 1
   }"

section \<open>The buffer\<close>

text \<open>A sequence of keyboard interrupts, each of which finds the scan code \<open>x\<close> in the data port.\<close>

primrec kb_press :: "u8 list \<Rightarrow> 'a kb_state_scheme \<Rightarrow> 'a kb_state_scheme option" where
  "kb_press [] s = Some s"
| "kb_press (x # xs) s = do { s \<leftarrow> kb_isr (\<lambda>_ _. ucast x) 1 NULL s; kb_press xs s }"

lemma unat_byte_less: "unat (b :: u8) < 256"
proof -
  have "unat b < 2 ^ LENGTH(8)" by (rule unsigned_less)
  then show ?thesis by simp
qed

lemma unat_byte_Suc: "unat (b + 1 :: u8) = Suc (unat b) mod 256"
  by (simp add: unat_word_ariths)

lemma kb_isr_stores:
  assumes "length (kb_buffer s) = KB_BUFLEN"
  shows "\<exists>s'. kb_isr (\<lambda>_ _. ucast x) 1 NULL s = Some s' \<and>
    kb_buffer s' = (kb_buffer s)[unat (kb_len s) := x] \<and> kb_len s' = kb_len s + 1"
  using assms unat_byte_less [of "kb_len s"]
  by (simp add: kb_isr_def inb_def Let_def KB_BUFLEN_def)

text \<open>The scan codes of a sequence of keys land in the buffer one after the other, wrapping around at
  its end.\<close>

lemma kb_press_stores:
  assumes "length (kb_buffer s) = KB_BUFLEN"
  shows "\<exists>s'. kb_press xs s = Some s' \<and> length (kb_buffer s') = KB_BUFLEN \<and>
    unat (kb_len s') = (unat (kb_len s) + length xs) mod 256 \<and>
    kb_buffer s' = fold (\<lambda>(i, x) b. b[(unat (kb_len s) + i) mod 256 := x]) (zip [0..<length xs] xs) (kb_buffer s)"
  using assms
proof (induction xs arbitrary: s)
  case Nil
  then show ?case using unat_byte_less by simp
next
  case (Cons x xs)
  obtain s1 where s1: "kb_isr (\<lambda>_ _. ucast x) 1 NULL s = Some s1"
    "kb_buffer s1 = (kb_buffer s)[unat (kb_len s) := x]" "kb_len s1 = kb_len s + 1"
    using kb_isr_stores [OF Cons.prems] by blast
  then have l: "length (kb_buffer s1) = KB_BUFLEN" using Cons.prems by simp
  have z: "zip [0..<length (x # xs)] (x # xs) = (0, x) # map (\<lambda>(i, y). (Suc i, y)) (zip [0..<length xs] xs)"
    by (simp add: upt_conv_Cons zip_map1 [symmetric] map_Suc_upt del: upt_Suc)
  have m: "(unat (kb_len s + 1) + i) mod 256 = Suc (unat (kb_len s) + i) mod 256" for i
    by (simp add: unat_byte_Suc mod_simps)
  show ?case using Cons.IH [OF l] s1 unat_byte_less [of "kb_len s"] unfolding z
    by (auto simp: fold_map comp_def case_prod_beta m)
qed

text \<open>The overflow check never fires, since the counter is a byte: after 256 keys the buffer looks
  empty.\<close>

lemma kb_overflow_unnoticed:
  assumes "length (kb_buffer s) = KB_BUFLEN" "kb_len s = 0" "length xs = 256"
  shows "\<exists>s'. kb_press xs s = Some s' \<and> kb_len s' = 0"
  using kb_press_stores [OF assms(1), of xs] assms(2,3) by (auto simp: unat_eq_0)

end
