(* ===== verification/Memchunk.thy ===== *)
theory Memchunk
  imports Buddy
begin

text \<open>
  The object caches of \<^verbatim>\<open>kernel/memchunk.c\<close> (\<^verbatim>\<open>include/scaraOS/memchunk.h\<close>, \<open>struct slab_hdr\<close> of
  \<^verbatim>\<open>include/scaraOS/mm.h\<close>). A cache hands out objects of one size from pages of the page
  allocator: from the free list of the first partial slab, else from the untouched rest of the
  current slab, else from a new page.

  Caches and pools are addressed by their C addresses; a slab header is the index of its page. The
  free list of a slab is threaded through the first word of the free objects in memory. The list
  members of all these structures live in one store of list nodes. Functions between \<open>#if 0\<close> and
  \<open>#endif\<close> are not compiled and not modelled.
\<close>

subsection \<open>State\<close>

record slab_hdr =
  c_ptr :: addr
  c_cache :: addr
  c_free_list :: addr
  c_inuse :: u32

record objcache =
  o_sz :: u32
  o_num :: u32
  o_ptr :: addr
  o_ptr_end :: addr
  o_cur :: "nat option"
  o_pool :: addr
  o_label :: addr

record mempool =
  p_reserved :: addr
  p_num_reserve :: u32
  p_reserve :: u32
  p_label :: addr

text \<open>The list members: \<open>o_partials\<close>, \<open>o_full\<close> and \<open>o_list\<close> of a cache, \<open>p_caches\<close> of a pool,
  \<open>m_pools\<close> and \<open>c_o.list\<close> of a slab.\<close>

datatype mnode = Partials addr | Full addr | OList addr | PCaches addr | MPools | SlabNode nat

text \<open>\<open>mc\<close> is the address the linker gives the variable of that name.\<close>

record memchunk = buddy +
  slabs :: "nat \<Rightarrow> slab_hdr"
  objcaches :: "addr \<Rightarrow> objcache"
  mempools :: "addr \<Rightarrow> mempool"
  mlinks :: "mnode lstore"
  memsem :: int
  mc :: addr

definition OBJCACHE_POISON_PATTERN :: u32 where "OBJCACHE_POISON_PATTERN = 0xa5"

definition sizeof_mempool :: u32 where "sizeof_mempool = 32"
definition sizeof_objcache :: u32 where "sizeof_objcache = 52"

definition m_gpool :: "'a memchunk_scheme \<Rightarrow> addr" where "m_gpool s = mc s"
definition m_self_cache :: "'a memchunk_scheme \<Rightarrow> addr" where "m_self_cache s = mc s + sizeof_mempool"
definition m_pool_cache :: "'a memchunk_scheme \<Rightarrow> addr" where
  "m_pool_cache s = m_self_cache s + sizeof_objcache"

abbreviation upd_slab :: "nat \<Rightarrow> (slab_hdr \<Rightarrow> slab_hdr) \<Rightarrow> 'a memchunk_scheme \<Rightarrow> 'a memchunk_scheme" where
  "upd_slab c f s \<equiv> s\<lparr>slabs := (slabs s)(c := f (slabs s c))\<rparr>"

abbreviation upd_cache :: "addr \<Rightarrow> (objcache \<Rightarrow> objcache) \<Rightarrow> 'a memchunk_scheme \<Rightarrow> 'a memchunk_scheme" where
  "upd_cache x f s \<equiv> s\<lparr>objcaches := (objcaches s)(x := f (objcaches s x))\<rparr>"

definition O_POISON :: "addr \<Rightarrow> u32 \<Rightarrow> 'a memchunk_scheme \<Rightarrow> 'a memchunk_scheme" where
  "O_POISON ptr len s = s\<lparr>kmem := memset (kmem s) ptr OBJCACHE_POISON_PATTERN len\<rparr>"

subsection \<open>Setting up\<close>

definition do_cache_init :: "addr \<Rightarrow> addr \<Rightarrow> addr \<Rightarrow> u32 \<Rightarrow> 'a memchunk_scheme \<Rightarrow> 'a memchunk_scheme option" where
  "do_cache_init p x label obj_sz s =
     (if obj_sz = 0 then None
      else
        let s = upd_cache x (\<lambda>c. c\<lparr>o_sz := obj_sz, o_num := PAGE_SIZE div obj_sz, o_ptr := NULL,
              o_ptr_end := NULL, o_cur := None\<rparr>) s;
            s = s\<lparr>mlinks := INIT_LIST_HEAD (mlinks s) (Partials x)\<rparr>;
            s = s\<lparr>mlinks := INIT_LIST_HEAD (mlinks s) (Full x)\<rparr>;
            s = s\<lparr>mlinks := list_add_tail (mlinks s) (OList x) (PCaches p)\<rparr>
        in Some (upd_cache x (\<lambda>c. c\<lparr>o_pool := p, o_label := label\<rparr>) s))"

text \<open>The labels are string literals; their addresses are arguments.\<close>

definition memchunk_init :: "addr \<Rightarrow> addr \<Rightarrow> addr \<Rightarrow> 'a memchunk_scheme \<Rightarrow> 'a memchunk_scheme option" where
  "memchunk_init global_str objcache_str mempool_str s = do {
     let s = s\<lparr>mlinks := INIT_LIST_HEAD (mlinks s) MPools\<rparr>;
     let s = s\<lparr>mlinks := INIT_LIST_HEAD (mlinks s) (PCaches (m_gpool s))\<rparr>;
     let s = s\<lparr>mempools := (mempools s)(m_gpool s := (mempools s (m_gpool s))\<lparr>p_label := global_str\<rparr>)\<rparr>;
     s \<leftarrow> do_cache_init (m_gpool s) (m_self_cache s) objcache_str sizeof_objcache s;
     do_cache_init (m_gpool s) (m_pool_cache s) mempool_str sizeof_mempool s
   }"

subsection \<open>Pages\<close>

definition memchunk_get :: "addr \<Rightarrow> 'a memchunk_scheme \<Rightarrow> ('a memchunk_scheme \<times> nat) option" where
  "memchunk_get p s = do {
     (s, pptr) \<leftarrow> alloc_page s;
     BUG_ON (pptr = NULL);
     let page = virt_to_page pptr;
     BUG_ON (pg_count (pfa s page) \<noteq> 1);
     let s = upd_page page (\<lambda>q. q\<lparr>pg_type := PG_slab\<rparr>) s;
     let s = upd_slab page (\<lambda>c. c\<lparr>c_ptr := pptr\<rparr>) s;
     Some (s, page)
   }"

definition memchunk_put :: "addr \<Rightarrow> nat \<Rightarrow> 'a memchunk_scheme \<Rightarrow> 'a memchunk_scheme option" where
  "memchunk_put p hdr s = free_page s (page_address hdr)"

subsection \<open>Allocation\<close>

definition alloc_from_partial :: "addr \<Rightarrow> nat \<Rightarrow> 'a memchunk_scheme \<Rightarrow> 'a memchunk_scheme \<times> addr" where
  "alloc_from_partial x c s =
     (let ret = c_free_list (slabs s c);
          s = upd_slab c (\<lambda>h. h\<lparr>c_free_list := read32 (kmem s) ret, c_inuse := c_inuse h + 1\<rparr>) s;
          s = (if c_free_list (slabs s c) = NULL \<and> Some c \<noteq> o_cur (objcaches s x)
               then s\<lparr>mlinks := list_move (mlinks s) (SlabNode c) (Full x)\<rparr> else s)
      in (O_POISON ret (o_sz (objcaches s x)) s, ret))"

definition alloc_fast :: "addr \<Rightarrow> 'a memchunk_scheme \<Rightarrow> ('a memchunk_scheme \<times> addr) option" where
  "alloc_fast x s =
     (let ret = o_ptr (objcaches s x);
          s = upd_cache x (\<lambda>k. k\<lparr>o_ptr := o_ptr k + o_sz k\<rparr>) s
      in case o_cur (objcaches s x) of
           None \<Rightarrow> None
         | Some c \<Rightarrow>
             let s = upd_slab c (\<lambda>h. h\<lparr>c_inuse := c_inuse h + 1\<rparr>) s;
                 s = (if c_inuse (slabs s c) = o_num (objcaches s x) \<and> c_free_list (slabs s c) = NULL
                      then upd_cache x (\<lambda>k. k\<lparr>o_cur := None\<rparr>)
                             (s\<lparr>mlinks := list_move (mlinks s) (SlabNode c) (Full x)\<rparr>)
                      else s)
             in Some (O_POISON ret (o_sz (objcaches s x)) s, ret))"

definition alloc_slow :: "addr \<Rightarrow> 'a memchunk_scheme \<Rightarrow> ('a memchunk_scheme \<times> addr) option" where
  "alloc_slow x s = do {
     (s, c) \<leftarrow> memchunk_get (o_pool (objcaches s x)) s;
     let s = upd_cache x (\<lambda>k. k\<lparr>o_cur := Some c, o_ptr := c_ptr (slabs s c),
           o_ptr_end := c_ptr (slabs s c) + o_sz k * o_num k\<rparr>) s;
     let s = upd_slab c (\<lambda>h. h\<lparr>c_cache := x, c_free_list := NULL, c_inuse := 0\<rparr>) s;
     let s = s\<lparr>mlinks := INIT_LIST_HEAD (mlinks s) (SlabNode c)\<rparr>;
     alloc_fast x s
   }"

text \<open>\<open>list_entry\<close> of a node that is not the list member of a slab would be a wild pointer.\<close>

fun slab_of :: "mnode \<Rightarrow> nat option" where
  "slab_of (SlabNode c) = Some c"
| "slab_of _ = None"

definition first_partial :: "addr \<Rightarrow> 'a memchunk_scheme \<Rightarrow> nat option" where
  "first_partial x s =
     (if list_empty (mlinks s) (Partials x) then None else slab_of (lh_next (mlinks s (Partials x))))"

definition do_alloc :: "addr \<Rightarrow> 'a memchunk_scheme \<Rightarrow> ('a memchunk_scheme \<times> addr) option" where
  "do_alloc x s =
     (if x = NULL then Some (s, NULL)
      else do {
        sem \<leftarrow> sem_down (memsem s);
        let s = s\<lparr>memsem := sem\<rparr>;
        (s, ret) \<leftarrow>
          (case first_partial x s of
             Some c \<Rightarrow>
               if c_free_list (slabs s c) \<noteq> NULL then Some (alloc_from_partial x c s)
               else if o_ptr (objcaches s x) + o_sz (objcaches s x) \<le> o_ptr_end (objcaches s x) then alloc_fast x s
               else alloc_slow x s
           | None \<Rightarrow>
               if o_ptr (objcaches s x) + o_sz (objcaches s x) \<le> o_ptr_end (objcaches s x) then alloc_fast x s
               else alloc_slow x s);
        Some (s\<lparr>memsem := sem_up (memsem s)\<rparr>, ret)
      })"

definition objcache_alloc :: "addr \<Rightarrow> 'a memchunk_scheme \<Rightarrow> ('a memchunk_scheme \<times> addr) option" where
  "objcache_alloc x s = do_alloc x s"

definition objcache_alloc0 :: "addr \<Rightarrow> 'a memchunk_scheme \<Rightarrow> ('a memchunk_scheme \<times> addr) option" where
  "objcache_alloc0 x s = do {
     (s, ret) \<leftarrow> do_alloc x s;
     Some (if ret \<noteq> NULL then s\<lparr>kmem := memset (kmem s) ret 0 (o_sz (objcaches s x))\<rparr> else s, ret)
   }"

definition objcache_init :: "addr \<Rightarrow> addr \<Rightarrow> u32 \<Rightarrow> 'a memchunk_scheme \<Rightarrow> ('a memchunk_scheme \<times> addr) option" where
  "objcache_init pool label obj_sz s = do {
     BUG_ON (obj_sz > PAGE_SIZE);
     if obj_sz = 0 then Some (s, NULL)
     else do {
       let obj_sz = (if obj_sz < 4 then 4 else obj_sz);
       (s, x) \<leftarrow> objcache_alloc (m_self_cache s) s;
       if x = NULL then Some (s, NULL)
       else do {
         let pool = (if pool = NULL then m_gpool s else pool);
         s \<leftarrow> do_cache_init pool x label obj_sz s;
         Some (s, x)
       }
     }
   }"

subsection \<open>Freeing\<close>

text \<open>The debug walk over the free list: \<open>BUG_ON(tmp == obj)\<close>.\<close>

partial_function (option) free_list_check :: "mem \<Rightarrow> addr \<Rightarrow> addr \<Rightarrow> unit option" where
  "free_list_check m tmp obj =
     (if tmp = NULL then Some ()
      else if tmp = obj then None
      else free_list_check m (read32 m tmp) obj)"

definition do_cache_free :: "addr \<Rightarrow> nat \<Rightarrow> addr \<Rightarrow> 'a memchunk_scheme \<Rightarrow> 'a memchunk_scheme option" where
  "do_cache_free x c obj s = do {
     BUG_ON (c_inuse (slabs s c) = 0);
     BUG_ON (c_inuse (slabs s c) > o_num (objcaches s x));
     BUG_ON (obj \<ge> o_ptr (objcaches s x) \<and> obj \<le> o_ptr_end (objcaches s x));
     sem \<leftarrow> sem_down (memsem s);
     let s = s\<lparr>memsem := sem\<rparr>;
     free_list_check (kmem s) (c_free_list (slabs s c)) obj;
     s \<leftarrow>
       (if c_free_list (slabs s c) = NULL
        then do {
          BUG_ON (Some c \<noteq> o_cur (objcaches s x) \<and> c_inuse (slabs s c) \<noteq> o_num (objcaches s x));
          Some (s\<lparr>mlinks := list_move (mlinks s) (SlabNode c) (Partials x)\<rparr>)
        }
        else Some s);
     let s = O_POISON obj (o_sz (objcaches s x)) s;
     let s = s\<lparr>kmem := write32 (kmem s) obj (c_free_list (slabs s c))\<rparr>;
     let s = upd_slab c (\<lambda>h. h\<lparr>c_free_list := obj, c_inuse := c_inuse h - 1\<rparr>) s;
     s \<leftarrow>
       (if c_inuse (slabs s c) = 0
        then do {
          let s = s\<lparr>mlinks := list_del (mlinks s) (SlabNode c)\<rparr>;
          let s = (if o_cur (objcaches s x) = Some c
                   then upd_cache x (\<lambda>k. k\<lparr>o_ptr := NULL, o_ptr_end := NULL, o_cur := None\<rparr>) s else s);
          memchunk_put (o_pool (objcaches s x)) c s
        }
        else Some s);
     Some (s\<lparr>memsem := sem_up (memsem s)\<rparr>)
   }"

partial_function (option) slab_walk :: "mnode lstore \<Rightarrow> mnode \<Rightarrow> nat \<Rightarrow> mnode \<Rightarrow> bool option" where
  "slab_walk st head hdr chk =
     (if chk = head then Some False
      else do {
        c \<leftarrow> slab_of chk;
        if hdr = c then Some True else slab_walk st head hdr (lh_next (st chk))
      })"

definition slab_is_on :: "nat \<Rightarrow> mnode \<Rightarrow> 'a memchunk_scheme \<Rightarrow> bool option" where
  "slab_is_on hdr head s = slab_walk (mlinks s) head hdr (lh_next (mlinks s head))"

text \<open>The debug condition \<open>c != o_cur && !slab_is_on(partials) && !slab_is_on(full)\<close>, which the
  operator \<open>&&\<close> evaluates from left to right.\<close>

definition slab_lost :: "nat \<Rightarrow> 'a memchunk_scheme \<Rightarrow> bool option" where
  "slab_lost c s =
     (let x = c_cache (slabs s c)
      in if Some c = o_cur (objcaches s x) then Some False
         else do {
           p \<leftarrow> slab_is_on c (Partials x) s;
           if p then Some False
           else do {
             f \<leftarrow> slab_is_on c (Full x) s;
             Some (\<not> f)
           }
         })"

definition objcache_free :: "addr \<Rightarrow> 'a memchunk_scheme \<Rightarrow> 'a memchunk_scheme option" where
  "objcache_free obj s =
     (if obj = NULL then Some s
      else do {
        let c = virt_to_page obj;
        BUG_ON (pg_type (pfa s c) \<noteq> PG_slab);
        BUG_ON (pg_count (pfa s c) \<noteq> 1);
        lost \<leftarrow> slab_lost c s;
        BUG_ON lost;
        do_cache_free (c_cache (slabs s c)) c obj s
      })"

definition objcache_free2 :: "addr \<Rightarrow> addr \<Rightarrow> 'a memchunk_scheme \<Rightarrow> 'a memchunk_scheme option" where
  "objcache_free2 x obj s =
     (if obj = NULL then Some s
      else do {
        let c = virt_to_page obj;
        BUG_ON (pg_type (pfa s c) \<noteq> PG_slab);
        BUG_ON (pg_count (pfa s c) \<noteq> 1);
        BUG_ON (c_cache (slabs s c) \<noteq> x);
        lost \<leftarrow> slab_lost c s;
        BUG_ON lost;
        do_cache_free (c_cache (slabs s c)) c obj s
      })"

subsection \<open>Addresses of objects\<close>

text \<open>An interval of addresses that does not wrap.\<close>

lemma unat_diff_less:
  fixes a d :: addr
  assumes "unat d + n \<le> 2 ^ 32"
  shows "unat (a - d) < n \<longleftrightarrow> unat d \<le> unat a \<and> unat a < unat d + n"
proof (cases "d \<le> a")
  case True
  then show ?thesis by (simp add: unat_sub word_le_nat_alt) (use True in \<open>auto simp: word_le_nat_alt\<close>)
next
  case False
  then have "unat a < unat d" by (simp add: word_le_nat_alt)
  moreover from this have "unat (a - d) = unat a + 2 ^ 32 - unat d"
    by (simp add: unat_sub_if')
  ultimately show ?thesis using assms by auto
qed

lemma unat_add_nowrap: "unat a + unat b < 2 ^ 32 \<Longrightarrow> unat (a + b) = unat a + unat b" for a b :: addr
  by (simp add: unat_word_ariths)

definition slot :: "nat \<Rightarrow> nat \<Rightarrow> nat \<Rightarrow> addr" where
  "slot i z k = page_address i + of_nat (k * z)"

lemma unat_slot:
  assumes "i < 262143" "k * z \<le> 4096"
  shows "unat (slot i z k) = 0xc0000000 + 4096 * i + k * z"
proof -
  have k: "unat (of_nat (k * z) :: addr) = k * z"
    using assms by (simp add: unat_of_nat take_bit_nat_eq_self del: of_nat_mult)
  have "unat (page_address i) + k * z < 2 ^ 32" using assms unat_page_address[of i] by simp
  then show ?thesis using unat_add_nowrap[of "page_address i" "of_nat (k * z)"] assms unat_page_address[of i]
    by (simp add: slot_def k del: of_nat_mult)
qed

lemma slot_in_page: "k < n \<Longrightarrow> n * z \<le> (4096::nat) \<Longrightarrow> k * z + z \<le> 4096"
proof -
  assume "k < n" "n * z \<le> 4096"
  then have "Suc k * z \<le> n * z" by (intro mult_le_mono1) simp
  with \<open>n * z \<le> 4096\<close> show ?thesis by simp
qed

lemma virt_to_page_eq:
  assumes "i < 262143" "unat a = 0xc0000000 + 4096 * i + r" "r < 4096"
  shows "virt_to_page a = i"
proof -
  have "PAGE_OFFSET \<le> a" using assms by (simp add: word_le_nat_alt PAGE_OFFSET_def)
  then have "unat (pa a) = 4096 * i + r" using assms by (simp add: pa_def unat_sub PAGE_OFFSET_def)
  then show ?thesis using assms by (simp add: virt_to_page_def PAGE_SHIFT_def drop_bit_eq_div unat_div_distrib)
qed

lemma virt_to_page_slot:
  assumes "i < 262143" "k * z < 4096"
  shows "virt_to_page (slot i z k) = i"
  using assms unat_slot[of i k z] by (intro virt_to_page_eq) auto

lemma slot_inj:
  assumes "i < 262143" "k * z < 4096" "l * z < 4096" "0 < z"
  shows "slot i z k = slot i z l \<longleftrightarrow> k = l"
proof
  assume eq: "slot i z k = slot i z l"
  have "unat (slot i z k) = 0xc0000000 + 4096 * i + k * z" "unat (slot i z l) = 0xc0000000 + 4096 * i + l * z"
    using assms(1-3) by (simp_all add: unat_slot)
  with eq have "k * z = l * z" by (metis add_left_cancel)
  then show "k = l" using assms(4) by simp
qed simp

lemma slot_nonnull:
  assumes "i < 262143" "k * z \<le> 4096"
  shows "slot i z k \<noteq> NULL"
proof
  assume "slot i z k = NULL"
  then have "unat (slot i z k) = 0" by simp
  then show False using unat_slot[OF assms] by simp
qed

text \<open>Distinct slots do not overlap.\<close>

lemma slots_apart:
  assumes i: "i < 262143" "k * z + z \<le> 4096" and j: "j < 262143" "l * w + w \<le> 4096"
    and ne: "i \<noteq> j \<or> (z = w \<and> k \<noteq> l)" and r: "r < w"
  shows "\<not> unat (slot j w l + of_nat r - slot i z k) < z"
proof -
  have d: "unat (slot i z k) = 0xc0000000 + 4096 * i + k * z" using i by (intro unat_slot) auto
  have s: "unat (slot j w l) = 0xc0000000 + 4096 * j + l * w" using j by (intro unat_slot) auto
  have "r < 4096" using r j by linarith
  then have rn: "unat (of_nat r :: addr) = r" by (simp add: unat_of_nat take_bit_nat_eq_self)
  have "unat (slot j w l) + r < 2 ^ 32" unfolding s using j r by simp
  then have a: "unat (slot j w l + of_nat r) = 0xc0000000 + 4096 * j + l * w + r"
    using unat_add_nowrap[of "slot j w l" "of_nat r"] by (simp only: rn s)
  have bound: "unat (slot i z k) + z \<le> 2 ^ 32" using d i by simp
  have "\<not> (unat (slot i z k) \<le> unat (slot j w l + of_nat r) \<and> unat (slot j w l + of_nat r) < unat (slot i z k) + z)"
  proof (cases "i = j")
    case False
    then have "4096 * i + 4096 \<le> 4096 * j \<or> 4096 * j + 4096 \<le> 4096 * i" by auto
    then show ?thesis using a d i j r by auto
  next
    case True
    with ne have zw: "z = w" and "k < l \<or> l < k" by auto
    then have "Suc k * w \<le> l * w \<or> Suc l * w \<le> k * w" by (metis Suc_leI mult_le_mono1)
    then show ?thesis using a d r True zw by auto
  qed
  then show ?thesis using unat_diff_less[OF bound] by blast
qed

lemma page_apart:
  assumes i: "i < 262143" and j: "j < 262143" "l * w + w \<le> 4096" and ne: "i \<noteq> j" and r: "r < w"
  shows "\<not> unat (slot j w l + of_nat r - page_address i) < 4096"
  using slots_apart[of i 0 4096 j l w r] assms by (simp add: slot_def)

end
