(* ===== verification/Slabs.thy ===== *)
theory Slabs
  imports Memchunk
begin

text \<open>
  The invariant of the object caches of \<^verbatim>\<open>kernel/memchunk.c\<close> and that allocation keeps it. A
  \<open>view\<close> says what the pointers stand for: the slabs, their free lists, how far the current slab is
  used, the lists the slabs are on and the free pages. \<open>mem_inv\<close> relates it to the state,
  \<open>objs\<close> is the set of objects in use, and \<open>do_alloc_ok\<close> the contract of allocation.
\<close>

subsection \<open>Free lists in memory\<close>

fun fl_at :: "mem \<Rightarrow> addr \<Rightarrow> addr list \<Rightarrow> bool" where
  "fl_at m p [] \<longleftrightarrow> p = NULL"
| "fl_at m p (q # qs) \<longleftrightarrow> p = q \<and> q \<noteq> NULL \<and> fl_at m (read32 m q) qs"

lemma fl_at_cong: "(\<And>q. q \<in> set qs \<Longrightarrow> read32 m' q = read32 m q) \<Longrightarrow> fl_at m' p qs = fl_at m p qs"
  by (induction qs arbitrary: p) auto

lemma fl_at_Nil: "fl_at m p qs \<Longrightarrow> p = NULL \<longleftrightarrow> qs = []"
  by (cases qs) auto

lemma free_list_check_ok: "fl_at m p qs \<Longrightarrow> obj \<notin> set qs \<Longrightarrow> free_list_check m p obj = Some ()"
  by (induction qs arbitrary: p) (subst free_list_check.simps; auto)+

lemma free_list_check_bad: "fl_at m p qs \<Longrightarrow> obj \<in> set qs \<Longrightarrow> free_list_check m p obj = None"
  by (induction qs arbitrary: p) (simp, subst free_list_check.simps, auto)

text \<open>The walk of \<open>slab_is_on\<close> decides membership.\<close>

lemma slab_walk_chain:
  assumes "chain st a xs h" "distinct (h # xs)" "set xs \<subseteq> range SlabNode"
  shows "slab_walk st h c (lh_next (st a)) = Some (SlabNode c \<in> set xs)"
  using assms
proof (induction xs arbitrary: a)
  case Nil
  then show ?case by (subst slab_walk.simps) simp
next
  case (Cons x xs)
  then obtain i where x: "x = SlabNode i" by auto
  have "lh_next (st a) = x" "x \<noteq> h" using Cons.prems by auto
  moreover have "slab_walk st h c (lh_next (st x)) = Some (SlabNode c \<in> set xs)"
    using Cons.prems by (intro Cons.IH) auto
  ultimately show ?case by (subst slab_walk.simps) (auto simp: x)
qed

lemma slab_is_on_iff:
  assumes "lists_rep (mlinks s) H L" "h \<in> H" "set (L h) \<subseteq> range SlabNode"
  shows "slab_is_on c h s = Some (SlabNode c \<in> set (L h))"
  using slab_walk_chain[of "mlinks s" h "L h" h c] lists_rep_dll[OF assms(1,2)] assms(3)
  by (simp add: slab_is_on_def dll_def)

subsection \<open>The invariant\<close>

text \<open>
  What the caches hold: the slabs, the free list of each slab, how many objects of it have been
  handed out at least once, the lists of slabs, the slabs that are current and on no list, the
  pools, pages of the kernel image, and the free pages.
\<close>

record view =
  vS :: "nat set"
  vF :: "nat \<Rightarrow> addr list"
  vN :: "nat \<Rightarrow> nat"
  vL :: "mnode \<Rightarrow> mnode list"
  vD :: "nat set"
  vP :: "addr set"
  vK :: "nat set"
  vQ :: "nat list"

abbreviation osz :: "'a memchunk_scheme \<Rightarrow> addr \<Rightarrow> nat" where
  "osz s x \<equiv> unat (o_sz (objcaches s x))"

abbreviation onum :: "'a memchunk_scheme \<Rightarrow> addr \<Rightarrow> nat" where
  "onum s x \<equiv> unat (o_num (objcaches s x))"

abbreviation owner :: "'a memchunk_scheme \<Rightarrow> nat \<Rightarrow> addr" where
  "owner s i \<equiv> c_cache (slabs s i)"

definition cache_ok :: "'a memchunk_scheme \<Rightarrow> view \<Rightarrow> addr \<Rightarrow> bool" where
  "cache_ok s v x \<longleftrightarrow> x \<noteq> NULL \<and> 4 \<le> osz s x \<and> osz s x \<le> 4096 \<and> onum s x = 4096 div osz s x \<and>
     (case o_cur (objcaches s x) of
        None \<Rightarrow> o_ptr (objcaches s x) = o_ptr_end (objcaches s x) \<and> unat (o_ptr (objcaches s x)) + 4096 < 2 ^ 32
      | Some i \<Rightarrow> i \<in> vS v \<and> owner s i = x \<and> o_ptr (objcaches s x) = slot i (osz s x) (vN v i) \<and>
          o_ptr_end (objcaches s x) = slot i (osz s x) (onum s x) \<and> vN v i < onum s x)"

definition slab_ok :: "'a memchunk_scheme \<Rightarrow> addr set \<Rightarrow> view \<Rightarrow> nat \<Rightarrow> bool" where
  "slab_ok s C v i \<longleftrightarrow> i < unat (nr_physpages s) \<and> pg_count (pfa s i) = 1 \<and> pg_type (pfa s i) = PG_slab \<and>
     owner s i \<in> C \<and> fl_at (kmem s) (c_free_list (slabs s i)) (vF v i) \<and> distinct (vF v i) \<and>
     set (vF v i) \<subseteq> slot i (osz s (owner s i)) ` {..<vN v i} \<and>
     unat (c_inuse (slabs s i)) + length (vF v i) = vN v i \<and> vN v i \<le> onum s (owner s i) \<and>
     (o_cur (objcaches s (owner s i)) \<noteq> Some i \<longrightarrow> vN v i = onum s (owner s i))"

definition slab_heads :: "addr set \<Rightarrow> view \<Rightarrow> mnode set" where
  "slab_heads C v = Partials ` C \<union> Full ` C \<union> SlabNode ` vD v \<union> PCaches ` vP v"

text \<open>A slab that is not current is on the partial list exactly when it has free objects, else on
  the full list; a current slab is detached or on the partial list. \<open>cur\<close> and \<open>own\<close> give the
  current slab of a cache and the cache of a slab.\<close>

definition listed :: "addr set \<Rightarrow> view \<Rightarrow> (addr \<Rightarrow> nat option) \<Rightarrow> (nat \<Rightarrow> addr) \<Rightarrow> bool" where
  "listed C v cur own \<longleftrightarrow>
     (\<forall>x\<in>C. \<forall>n\<in>set (vL v (Partials x)). \<exists>i\<in>vS v. n = SlabNode i \<and> own i = x \<and> (vF v i \<noteq> [] \<or> cur x = Some i)) \<and>
     (\<forall>x\<in>C. \<forall>n\<in>set (vL v (Full x)). \<exists>i\<in>vS v. n = SlabNode i \<and> own i = x \<and> vF v i = [] \<and> cur x \<noteq> Some i) \<and>
     (\<forall>i\<in>vS v - vD v. if vF v i = [] \<and> cur (own i) \<noteq> Some i then SlabNode i \<in> set (vL v (Full (own i)))
        else SlabNode i \<in> set (vL v (Partials (own i)))) \<and>
     (\<forall>i\<in>vD v. i \<in> vS v \<and> vF v i = [] \<and> cur (own i) = Some i \<and> vL v (SlabNode i) = []) \<and>
     (\<forall>p\<in>vP v. set (vL v (PCaches p)) \<subseteq> OList ` C)"

definition mem_inv :: "'a memchunk_scheme \<Rightarrow> addr set \<Rightarrow> view \<Rightarrow> bool" where
  "mem_inv s C v \<longleftrightarrow> buddy_rep s (vQ v) \<and> unat (nr_physpages s) < 2 ^ 18 - 1 \<and>
     (\<forall>x\<in>C. cache_ok s v x) \<and> (\<forall>i\<in>vS v. slab_ok s C v i) \<and>
     lists_rep (mlinks s) (slab_heads C v) (vL v) \<and>
     listed C v (\<lambda>x. o_cur (objcaches s x)) (owner s) \<and> vK v \<inter> (vS v \<union> set (vQ v)) = {}"


lemma mem_invD:
  assumes "mem_inv s C v"
  shows "buddy_rep s (vQ v)" and "unat (nr_physpages s) < 2 ^ 18 - 1"
    and "x \<in> C \<Longrightarrow> cache_ok s v x" and "i \<in> vS v \<Longrightarrow> slab_ok s C v i"
    and "lists_rep (mlinks s) (slab_heads C v) (vL v)"
    and "listed C v (\<lambda>x. o_cur (objcaches s x)) (owner s)" and "vK v \<inter> (vS v \<union> set (vQ v)) = {}"
  using assms unfolding mem_inv_def by blast+

lemma heads_in [simp]:
  "x \<in> C \<Longrightarrow> Partials x \<in> slab_heads C v" "x \<in> C \<Longrightarrow> Full x \<in> slab_heads C v"
  "i \<in> vD v \<Longrightarrow> SlabNode i \<in> slab_heads C v" "p \<in> vP v \<Longrightarrow> PCaches p \<in> slab_heads C v"
  by (auto simp: slab_heads_def)

lemma listedD:
  assumes "listed C v cur own"
  shows "x \<in> C \<Longrightarrow> n \<in> set (vL v (Partials x)) \<Longrightarrow> \<exists>i\<in>vS v. n = SlabNode i \<and> own i = x \<and> (vF v i \<noteq> [] \<or> cur x = Some i)"
    and "x \<in> C \<Longrightarrow> n \<in> set (vL v (Full x)) \<Longrightarrow> \<exists>i\<in>vS v. n = SlabNode i \<and> own i = x \<and> vF v i = [] \<and> cur x \<noteq> Some i"
    and "i \<in> vS v \<Longrightarrow> i \<notin> vD v \<Longrightarrow> vF v i = [] \<Longrightarrow> cur (own i) \<noteq> Some i \<Longrightarrow> SlabNode i \<in> set (vL v (Full (own i)))"
    and "i \<in> vS v \<Longrightarrow> i \<notin> vD v \<Longrightarrow> vF v i \<noteq> [] \<or> cur (own i) = Some i \<Longrightarrow> SlabNode i \<in> set (vL v (Partials (own i)))"
    and "i \<in> vD v \<Longrightarrow> i \<in> vS v \<and> vF v i = [] \<and> cur (own i) = Some i \<and> vL v (SlabNode i) = []"
    and "p \<in> vP v \<Longrightarrow> set (vL v (PCaches p)) \<subseteq> OList ` C"
proof -
  have *: "\<forall>x\<in>C. \<forall>n\<in>set (vL v (Partials x)). \<exists>i\<in>vS v. n = SlabNode i \<and> own i = x \<and> (vF v i \<noteq> [] \<or> cur x = Some i)"
    "\<forall>x\<in>C. \<forall>n\<in>set (vL v (Full x)). \<exists>i\<in>vS v. n = SlabNode i \<and> own i = x \<and> vF v i = [] \<and> cur x \<noteq> Some i"
    "\<forall>i\<in>vS v - vD v. if vF v i = [] \<and> cur (own i) \<noteq> Some i then SlabNode i \<in> set (vL v (Full (own i)))
        else SlabNode i \<in> set (vL v (Partials (own i)))"
    "\<forall>i\<in>vD v. i \<in> vS v \<and> vF v i = [] \<and> cur (own i) = Some i \<and> vL v (SlabNode i) = []"
    "\<forall>p\<in>vP v. set (vL v (PCaches p)) \<subseteq> OList ` C"
    using assms unfolding listed_def by blast+
  show "x \<in> C \<Longrightarrow> n \<in> set (vL v (Partials x)) \<Longrightarrow> \<exists>i\<in>vS v. n = SlabNode i \<and> own i = x \<and> (vF v i \<noteq> [] \<or> cur x = Some i)"
    "x \<in> C \<Longrightarrow> n \<in> set (vL v (Full x)) \<Longrightarrow> \<exists>i\<in>vS v. n = SlabNode i \<and> own i = x \<and> vF v i = [] \<and> cur x \<noteq> Some i"
    using *(1,2) by blast+
  show "i \<in> vS v \<Longrightarrow> i \<notin> vD v \<Longrightarrow> vF v i = [] \<Longrightarrow> cur (own i) \<noteq> Some i \<Longrightarrow> SlabNode i \<in> set (vL v (Full (own i)))"
    "i \<in> vS v \<Longrightarrow> i \<notin> vD v \<Longrightarrow> vF v i \<noteq> [] \<or> cur (own i) = Some i \<Longrightarrow> SlabNode i \<in> set (vL v (Partials (own i)))"
    using *(3) by (metis DiffI)+
  show "i \<in> vD v \<Longrightarrow> i \<in> vS v \<and> vF v i = [] \<and> cur (own i) = Some i \<and> vL v (SlabNode i) = []"
    "p \<in> vP v \<Longrightarrow> set (vL v (PCaches p)) \<subseteq> OList ` C" using *(4,5) by blast+
qed

text \<open>Sizes: a slot of a slab lies inside its page.\<close>

lemma inv_sizes:
  assumes inv: "mem_inv s C v" and i: "i \<in> vS v" and k: "k < onum s (owner s i)"
  shows "i < 262142" "4 \<le> osz s (owner s i)" "k * osz s (owner s i) + osz s (owner s i) \<le> 4096"
proof -
  have ok: "slab_ok s C v i" using mem_invD(4)[OF inv i] .
  then have c: "cache_ok s v (owner s i)" using mem_invD(3)[OF inv] by (simp add: slab_ok_def)
  show "i < 262142" using ok mem_invD(2)[OF inv] by (simp add: slab_ok_def)
  show "4 \<le> osz s (owner s i)" using c by (simp add: cache_ok_def)
  have "onum s (owner s i) * osz s (owner s i) \<le> 4096" using c by (simp add: cache_ok_def)
  then show "k * osz s (owner s i) + osz s (owner s i) \<le> 4096" by (rule slot_in_page[OF k])
qed

abbreviation obj :: "'a memchunk_scheme \<Rightarrow> nat \<Rightarrow> nat \<Rightarrow> addr" where
  "obj s i k \<equiv> slot i (osz s (owner s i)) k"

lemma inv_apart:
  assumes inv: "mem_inv s C v" and i: "i \<in> vS v" "k < onum s (owner s i)" and j: "j \<in> vS v" "l < onum s (owner s j)"
    and ne: "i \<noteq> j \<or> k \<noteq> l" and r: "r < osz s (owner s j)"
  shows "\<not> unat (obj s j l + of_nat r - obj s i k) < osz s (owner s i)"
proof (rule slots_apart)
  note I = inv_sizes[OF inv i] and J = inv_sizes[OF inv j]
  show "i < 262143" "j < 262143" using I(1) J(1) by simp_all
  show "i \<noteq> j \<or> osz s (owner s i) = osz s (owner s j) \<and> k \<noteq> l" using ne by auto
qed (use inv_sizes(3)[OF inv i] inv_sizes(3)[OF inv j] r in auto)

lemma inv_obj_inj:
  assumes inv: "mem_inv s C v" and i: "i \<in> vS v" "k < onum s (owner s i)" and j: "j \<in> vS v" "l < onum s (owner s j)"
  shows "obj s i k = obj s j l \<longleftrightarrow> i = j \<and> k = l"
proof
  assume eq: "obj s i k = obj s j l"
  show "i = j \<and> k = l"
  proof (rule ccontr)
    assume "\<not> (i = j \<and> k = l)"
    then have "\<not> unat (obj s j l + of_nat 0 - obj s i k) < osz s (owner s i)"
      using inv_sizes(2)[OF inv j] by (intro inv_apart[OF inv i j]) auto
    then show False using eq inv_sizes(2)[OF inv i] by simp
  qed
qed simp

text \<open>Memory changes inside one slot that is not on a free list keep the free lists.\<close>

lemma read32_off:
  assumes "\<And>b. \<not> unat (b - a) < n \<Longrightarrow> m' b = m b" "\<And>r. r < 4 \<Longrightarrow> \<not> unat (q + of_nat r - a) < n"
  shows "read32 m' q = read32 m q"
proof (rule read32_cong)
  fix j :: addr assume "j < 4"
  then have "unat j < 4" by (simp add: word_less_nat_alt)
  with assms(2)[of "unat j"] show "m' (q + j) = m (q + j)" by (intro assms(1)) simp
qed

lemma fl_frame:
  assumes inv: "mem_inv s C v" and i: "i \<in> vS v" "k < onum s (owner s i)" and j: "j \<in> vS v"
    and qs: "set qs \<subseteq> obj s j ` {..<onum s (owner s j)}" "obj s i k \<notin> set qs"
    and m': "\<And>b. \<not> unat (b - obj s i k) < osz s (owner s i) \<Longrightarrow> m' b = kmem s b"
  shows "fl_at m' p qs = fl_at (kmem s) p qs"
proof (rule fl_at_cong)
  fix q assume q: "q \<in> set qs"
  then obtain l where l: "l < onum s (owner s j)" "q = obj s j l" using qs(1) by auto
  have ne: "i \<noteq> j \<or> k \<noteq> l" using qs(2) q l(2) by auto
  show "read32 m' q = read32 (kmem s) q"
  proof (rule read32_off[OF m'])
    fix r :: nat assume "r < 4"
    then show "\<not> unat (q + of_nat r - obj s i k) < osz s (owner s i)"
      unfolding l(2) using inv_sizes(2)[OF inv j l(1)] by (intro inv_apart[OF inv i j l(1) ne]) simp
  qed
qed

lemma inv_free_objs:
  assumes "mem_inv s C v" "j \<in> vS v"
  shows "set (vF v j) \<subseteq> obj s j ` {..<onum s (owner s j)}"
  using mem_invD(4)[OF assms] by (auto simp: slab_ok_def)

text \<open>An object of a slab is on no free list of another.\<close>

lemma obj_not_free:
  assumes inv: "mem_inv s C v" and i: "i \<in> vS v" "k < onum s (owner s i)" and j: "j \<in> vS v" "j \<noteq> i"
  shows "obj s i k \<notin> set (vF v j)"
  using inv_free_objs[OF inv j(1)] inv_obj_inj[OF inv i j(1)] j(2) by auto

lemma memset_off: "\<not> unat (b - a) < unat n \<Longrightarrow> memset m a c n b = m b"
  by (simp add: memset_apply)


lemma cache_ok_cong:
  "objcaches s' x = objcaches s x \<Longrightarrow> (\<And>i. owner s' i = owner s i) \<Longrightarrow> vS v' = vS v \<Longrightarrow> vN v' = vN v \<Longrightarrow>
    cache_ok s' v' x = cache_ok s v x"
  by (simp add: cache_ok_def split: option.splits)

text \<open>A slab changes its list: it goes to the list that its new free list and the new current slab
  call for.\<close>

lemma listed_relist:
  assumes l: "listed C v cur own" and c: "c \<in> vS v" "own c = x" "x \<in> C"
    and v': "vS v' = vS v" "vD v' = vD v - {c}" "vF v' = (vF v)(c := f)" "vP v' = vP v"
    and cur: "\<And>y. y \<noteq> x \<Longrightarrow> cur' y = cur y" "cur' x = cur x \<or> cur x = Some c \<and> cur' x = None"
    and P: "set (vL v' (Partials x)) = set (vL v (Partials x)) - {SlabNode c} \<union> (if f = [] \<and> cur' x \<noteq> Some c then {} else {SlabNode c})"
    and F: "set (vL v' (Full x)) = set (vL v (Full x)) - {SlabNode c} \<union> (if f = [] \<and> cur' x \<noteq> Some c then {SlabNode c} else {})"
    and L: "\<And>h. h \<notin> {Partials x, Full x} \<Longrightarrow> vL v' h = vL v h"
  shows "listed C v' cur' own"
proof -
  have curi: "cur' (own i) = Some i \<longleftrightarrow> cur (own i) = Some i" if "i \<noteq> c" for i
    using cur that by (cases "own i = x") auto
  have "\<exists>i\<in>vS v'. n = SlabNode i \<and> own i = y \<and> (vF v' i \<noteq> [] \<or> cur' y = Some i)"
    if y: "y \<in> C" and n: "n \<in> set (vL v' (Partials y))" for y n
  proof (cases "n = SlabNode c")
    case True
    have "y = x" using L[of "Partials y"] listedD(1)[OF l y] n True c(2) by (cases "y = x") auto
    then show ?thesis using n P True c v' by (auto split: if_splits)
  next
    case False
    then have "n \<in> set (vL v (Partials y))" using n P L[of "Partials y"] by (cases "y = x") (auto split: if_splits)
    then obtain i where "i \<in> vS v" "n = SlabNode i" "own i = y" "vF v i \<noteq> [] \<or> cur y = Some i"
      using listedD(1)[OF l y] by blast
    with False curi[of i] v' show ?thesis by auto
  qed
  moreover have "\<exists>i\<in>vS v'. n = SlabNode i \<and> own i = y \<and> vF v' i = [] \<and> cur' y \<noteq> Some i"
    if y: "y \<in> C" and n: "n \<in> set (vL v' (Full y))" for y n
  proof (cases "n = SlabNode c")
    case True
    have "y = x" using L[of "Full y"] listedD(2)[OF l y] n True c(2) by (cases "y = x") auto
    then show ?thesis using n F True c v' by (auto split: if_splits)
  next
    case False
    then have "n \<in> set (vL v (Full y))" using n F L[of "Full y"] by (cases "y = x") (auto split: if_splits)
    then obtain i where "i \<in> vS v" "n = SlabNode i" "own i = y" "vF v i = []" "cur y \<noteq> Some i"
      using listedD(2)[OF l y] by blast
    with False curi[of i] v' show ?thesis by auto
  qed
  moreover have "if vF v' i = [] \<and> cur' (own i) \<noteq> Some i then SlabNode i \<in> set (vL v' (Full (own i)))
        else SlabNode i \<in> set (vL v' (Partials (own i)))" if i: "i \<in> vS v' - vD v'" for i
  proof (cases "i = c")
    case True
    then show ?thesis using P F c(2) v'(3) by auto
  next
    case False
    then have "i \<in> vS v" "i \<notin> vD v" using i v' by auto
    note old = listedD(3,4)[OF l this]
    have keep: "SlabNode i \<in> set (vL v' (Full (own i))) \<longleftrightarrow> SlabNode i \<in> set (vL v (Full (own i)))"
      "SlabNode i \<in> set (vL v' (Partials (own i))) \<longleftrightarrow> SlabNode i \<in> set (vL v (Partials (own i)))"
      using P F L False by (cases "own i = x"; auto split: if_splits)+
    show ?thesis using old False curi[of i] keep v'(3) by auto
  qed
  moreover have "i \<in> vS v' \<and> vF v' i = [] \<and> cur' (own i) = Some i \<and> vL v' (SlabNode i) = []" if "i \<in> vD v'" for i
    using listedD(5)[OF l, of i] that v' curi[of i] L[of "SlabNode i"] by auto
  moreover have "set (vL v' (PCaches p)) \<subseteq> OList ` C" if "p \<in> vP v'" for p
    using listedD(6)[OF l, of p] that v'(4) L[of "PCaches p"] by auto
  ultimately show ?thesis unfolding listed_def by blast
qed


definition inuse_pos :: "'a memchunk_scheme \<Rightarrow> nat set \<Rightarrow> bool" where
  "inuse_pos s X \<longleftrightarrow> (\<forall>i\<in>X. c_inuse (slabs s i) \<noteq> 0)"

lemma buddy_rep_cong:
  assumes "buddy_rep s Q" "free_links s' = free_links s" "pagesem s' = pagesem s" "nr_freepages s' = nr_freepages s"
    "nr_physpages s' = nr_physpages s" "\<And>i. pg_count (pfa s' i) = pg_count (pfa s i)"
  shows "buddy_rep s' Q"
  using assms by (simp add: buddy_rep_def)

lemma onum_le:
  assumes "mem_inv s C v" "x \<in> C"
  shows "onum s x \<le> 1024" "0 < onum s x"
proof -
  have c: "4 \<le> osz s x" "osz s x \<le> 4096" "onum s x = 4096 div osz s x"
    using mem_invD(3)[OF assms] by (simp_all add: cache_ok_def)
  have "4096 div osz s x \<le> 4096 div 4" using c(1) by (intro div_le_mono2) auto
  then show "onum s x \<le> 1024" using c(3) by simp
  have "osz s x * 1 \<le> 4096" using c(2) by simp
  then have "1 \<le> 4096 div osz s x" using c(1,2) by (simp add: less_eq_div_iff_mult_less_eq)
  then show "0 < onum s x" using c(3) by simp
qed

lemma partial_inv:
  assumes inv: "mem_inv s C v" and x: "x \<in> C" and P: "vL v (Partials x) = SlabNode c # rest" and F: "vF v c = a # fl"
  defines "L' \<equiv> if fl = [] \<and> o_cur (objcaches s x) \<noteq> Some c
      then (vL v)(Partials x := rest, Full x := SlabNode c # vL v (Full x)) else vL v"
  defines "v' \<equiv> v\<lparr>vF := (vF v)(c := fl), vL := L'\<rparr>"
  shows "snd (alloc_from_partial x c s) = a" "mem_inv (fst (alloc_from_partial x c s)) C v'"
proof -
  note l = mem_invD(6)[OF inv]
  have c: "c \<in> vS v" "owner s c = x" using listedD(1)[OF l x, of "SlabNode c"] P by auto
  have ok: "slab_ok s C v c" using mem_invD(4)[OF inv c(1)] .
  then have fl: "c_free_list (slabs s c) = a" "a \<noteq> NULL" "fl_at (kmem s) (read32 (kmem s) a) fl" "a \<notin> set fl"
    using F by (auto simp: slab_ok_def)
  obtain k where k: "k < vN v c" "a = obj s c k" using ok F by (auto simp: slab_ok_def)
  then have ko: "k < onum s (owner s c)" using ok by (simp add: slab_ok_def)
  let ?s = "fst (alloc_from_partial x c s)"
  let ?m = "memset (kmem s) a OBJCACHE_POISON_PATTERN (o_sz (objcaches s x))"
  let ?h = "(slabs s c)\<lparr>c_free_list := read32 (kmem s) a, c_inuse := c_inuse (slabs s c) + 1\<rparr>"
  have nil: "read32 (kmem s) a = NULL \<longleftrightarrow> fl = []" using fl_at_Nil[OF fl(3)] .
  have s': "kmem ?s = ?m" "slabs ?s = (slabs s)(c := ?h)" "objcaches ?s = objcaches s" "pfa ?s = pfa s"
    "free_links ?s = free_links s" "pagesem ?s = pagesem s" "nr_freepages ?s = nr_freepages s" "nr_physpages ?s = nr_physpages s"
    "mlinks ?s = (if fl = [] \<and> o_cur (objcaches s x) \<noteq> Some c then list_move (mlinks s) (SlabNode c) (Full x) else mlinks s)"
    by (auto simp: alloc_from_partial_def Let_def fl(1) nil O_POISON_def)
  have own: "owner ?s i = owner s i" for i by (simp add: s')
  show "snd (alloc_from_partial x c s) = a" by (simp add: alloc_from_partial_def Let_def fl(1))
  have m: "?m b = kmem s b" if "\<not> unat (b - obj s c k) < osz s (owner s c)" for b
    using that c(2) by (simp add: k(2) memset_off)
  have inuse: "unat (c_inuse (slabs s c) + 1) = unat (c_inuse (slabs s c)) + 1"
    using ok onum_le[OF inv x] c(2) by (intro unat_add_nowrap[THEN trans]) (auto simp: slab_ok_def)
  have slabs: "slab_ok ?s C v' j" if j: "j \<in> vS v" for j
  proof -
    have okj: "slab_ok s C v j" using mem_invD(4)[OF inv j] .
    have "set (vF v' j) \<subseteq> set (vF v j)" using F by (auto simp: v'_def)
    moreover have "obj s c k \<notin> set (vF v' j)"
      using obj_not_free[OF inv c(1) ko j] fl(4) k(2) by (cases "j = c") (auto simp: v'_def)
    ultimately have fr: "fl_at ?m p (vF v' j) = fl_at (kmem s) p (vF v' j)" for p
      using inv_free_objs[OF inv j] by (intro fl_frame[OF inv c(1) ko j _ _ m]) auto
    show ?thesis
      using okj fl fr F inuse by (cases "j = c") (auto simp: slab_ok_def s' v'_def)
  qed
  have lists: "lists_rep (mlinks ?s) (slab_heads C v') (vL v')"
    using mem_invD(5)[OF inv] lh.move_other(1)[OF mem_invD(5)[OF inv] heads_in(1)[OF x] _ heads_in(2)[OF x], of "SlabNode c"] P
    by (auto simp: s' v'_def L'_def slab_heads_def)
  have listed: "listed C v' (\<lambda>x. o_cur (objcaches ?s x)) (owner ?s)"
  proof -
    have nD: "c \<notin> vD v" using listedD(5)[OF l, of c] F by auto
    have "SlabNode c \<notin> set rest" using lh.rep_distinct[OF mem_invD(5)[OF inv] heads_in(1)[OF x]] P by simp
    moreover have "SlabNode c \<notin> set (vL v (Full x))" using listedD(2)[OF l x, of "SlabNode c"] F by auto
    ultimately show ?thesis unfolding own s'(3)
      by (intro listed_relist[OF l c x]) (use P nD in \<open>auto simp: v'_def L'_def\<close>)
  qed
  show "mem_inv ?s C v'"
    unfolding mem_inv_def
  proof (intro conjI ballI)
    show "buddy_rep ?s (vQ v')" using buddy_rep_cong[OF mem_invD(1)[OF inv], of ?s] by (simp add: s' v'_def)
    show "unat (nr_physpages ?s) < 2 ^ 18 - 1" using mem_invD(2)[OF inv] by (simp add: s')
    show "cache_ok ?s v' y" if "y \<in> C" for y
      using mem_invD(3)[OF inv that] cache_ok_cong[of ?s y s v' v] by (simp add: s' v'_def)
  qed (use slabs lists listed mem_invD(7)[OF inv] in \<open>simp_all add: v'_def\<close>)
qed


lemma slot_next: "slot i (unat z) k + z = slot i (unat z) (Suc k)"
  by (simp add: slot_def algebra_simps)

lemma fast_inv:
  assumes inv: "mem_inv s C v" and x: "x \<in> C" and cur: "o_cur (objcaches s x) = Some c" and F: "vF v c = []"
  defines "full \<equiv> Suc (vN v c) = onum s x"
  defines "L' \<equiv> if full then (vL v)(Partials x := remove1 (SlabNode c) (vL v (Partials x)), Full x := SlabNode c # vL v (Full x)) else vL v"
  defines "v' \<equiv> v\<lparr>vN := (vN v)(c := Suc (vN v c)), vL := L', vD := if full then vD v - {c} else vD v\<rparr>"
  shows "\<exists>s'. alloc_fast x s = Some (s', obj s c (vN v c)) \<and> mem_inv s' C v' \<and> objcaches s' = (objcaches s)(x := (objcaches s x)\<lparr>
      o_ptr := o_ptr (objcaches s x) + o_sz (objcaches s x), o_cur := if full then None else Some c\<rparr>) \<and>
    slabs s' = (slabs s)(c := (slabs s c)\<lparr>c_inuse := c_inuse (slabs s c) + 1\<rparr>) \<and>
    kmem s' = memset (kmem s) (obj s c (vN v c)) OBJCACHE_POISON_PATTERN (o_sz (objcaches s x)) \<and> memsem s' = memsem s \<and> mc s' = mc s"
proof -
  note l = mem_invD(6)[OF inv] and lr = mem_invD(5)[OF inv]
  have cx: "cache_ok s v x" using mem_invD(3)[OF inv x] .
  then have c: "c \<in> vS v" "owner s c = x" "o_ptr (objcaches s x) = slot c (osz s x) (vN v c)"
    "o_ptr_end (objcaches s x) = slot c (osz s x) (onum s x)" and k: "vN v c < onum s x"
    using cur by (auto simp: cache_ok_def)
  have ok: "slab_ok s C v c" using mem_invD(4)[OF inv c(1)] .
  have ko: "vN v c < onum s (owner s c)" using k c(2) by simp
  have inuse: "unat (c_inuse (slabs s c) + 1) = Suc (vN v c)"
    using ok F k onum_le(1)[OF inv x] by (intro unat_add_nowrap[THEN trans]) (auto simp: slab_ok_def)
  have full: "c_inuse (slabs s c) + 1 = o_num (objcaches s x) \<longleftrightarrow> full"
    unfolding full_def inuse[symmetric] by (rule word_unat_eq_iff)
  have null: "c_free_list (slabs s c) = NULL" using ok F by (simp add: slab_ok_def)
  let ?a = "obj s c (vN v c)"
  let ?m = "memset (kmem s) ?a OBJCACHE_POISON_PATTERN (o_sz (objcaches s x))"
  let ?k = "(objcaches s x)\<lparr>o_ptr := o_ptr (objcaches s x) + o_sz (objcaches s x), o_cur := if full then None else Some c\<rparr>"
  let ?s = "s\<lparr>kmem := ?m, objcaches := (objcaches s)(x := ?k),
      slabs := (slabs s)(c := (slabs s c)\<lparr>c_inuse := c_inuse (slabs s c) + 1\<rparr>),
      mlinks := if full then list_move (mlinks s) (SlabNode c) (Full x) else mlinks s\<rparr>"
  have run: "alloc_fast x s = Some (?s, ?a)"
    using cur full null c(2,3) by (cases full; cases "objcaches s x") (simp_all add: alloc_fast_def Let_def O_POISON_def)
  have m: "?m b = kmem s b" if "\<not> unat (b - ?a) < osz s (owner s c)" for b
    using that c(2) by (simp add: memset_off)
  have slabs: "slab_ok ?s C v' j" if j: "j \<in> vS v" for j
  proof -
    have okj: "slab_ok s C v j" using mem_invD(4)[OF inv j] .
    have "?a \<notin> set (vF v j)" using obj_not_free[OF inv c(1) ko j] F by (cases "j = c") auto
    then have fr: "fl_at ?m p (vF v j) = fl_at (kmem s) p (vF v j)" for p
      using inv_free_objs[OF inv j] by (intro fl_frame[OF inv c(1) ko j _ _ m]) auto
    show ?thesis
    proof (cases "j = c")
      case True
      have "slab_ok ?s C v' c"
        using ok F inuse k c(2) null fr by (auto simp: slab_ok_def v'_def full_def)
      with True show ?thesis by simp
    next
      case False
      then show ?thesis
        using okj fr cur by (auto simp: slab_ok_def v'_def)
    qed
  qed
  have caches: "cache_ok ?s v' y" if y: "y \<in> C" for y
  proof (cases "y = x")
    case True
    have "unat (slot c (osz s x) (onum s x)) + 4096 < 2 ^ 32"
    proof -
      have "onum s x * osz s x \<le> 4096" using cx by (simp add: cache_ok_def)
      then show ?thesis using inv_sizes(1)[OF inv c(1) ko] by (simp add: unat_slot)
    qed
    then show ?thesis
      using cx c k cur True by (auto simp: cache_ok_def v'_def full_def slot_next)
  next
    case False
    have "j \<noteq> c" if "o_cur (objcaches s y) = Some j" for j
      using mem_invD(3)[OF inv y] that False c(2) by (auto simp: cache_ok_def)
    then show ?thesis
      using mem_invD(3)[OF inv y] False by (auto simp: cache_ok_def v'_def split: option.splits)
  qed
  have lists: "lists_rep (mlinks ?s) (slab_heads C v') (vL v')"
  proof (cases full)
    case False
    then show ?thesis using lr by (simp add: v'_def L'_def slab_heads_def)
  next
    case True
    show ?thesis
    proof (cases "c \<in> vD v")
      case D: True
      have "SlabNode c \<notin> set (vL v (Partials x))"
        using lh.rep_head_notin[OF lr heads_in(1)[OF x] heads_in(3)[OF D]] .
      moreover have "slab_heads C v' = slab_heads C v - {SlabNode c}"
        using True by (auto simp: slab_heads_def v'_def)
      ultimately show ?thesis
        using lh.rep_move_detached[OF lr heads_in(3)[OF D] _ heads_in(2)[OF x]] listedD(5)[OF l D] True
        by (simp add: v'_def L'_def remove1_idem fun_upd_idem)
    next
      case D: False
      have "SlabNode c \<in> set (vL v (Partials x))" using listedD(4)[OF l c(1) D] cur c(2) by simp
      then show ?thesis
        using lh.move_other(1)[OF lr heads_in(1)[OF x] _ heads_in(2)[OF x]] True D
        by (simp add: v'_def L'_def slab_heads_def)
    qed
  qed
  have listed: "listed C v' (\<lambda>x. o_cur (objcaches ?s x)) (owner ?s)"
  proof (cases full)
    case False
    then have "(\<lambda>x. o_cur (objcaches ?s x)) = (\<lambda>x. o_cur (objcaches s x))" "owner ?s = owner s"
      using cur by auto
    then show ?thesis using l False by (simp add: listed_def v'_def L'_def)
  next
    case True
    have own: "owner ?s = owner s" by auto
    have d: "distinct (vL v (Partials x))" using lh.rep_distinct[OF lr heads_in(1)[OF x]] .
    have "SlabNode c \<notin> set (vL v (Full x))" using listedD(2)[OF l x, of "SlabNode c"] cur by auto
    with True d cur F show ?thesis unfolding own
      by (intro listed_relist[OF l c(1,2) x, where f = "[]"]) (auto simp: v'_def L'_def fun_upd_idem)
  qed
  have "mem_inv ?s C v'"
    unfolding mem_inv_def
  proof (intro conjI ballI)
    show "buddy_rep ?s (vQ v')" using buddy_rep_cong[OF mem_invD(1)[OF inv], of ?s] by (simp add: v'_def)
    show "unat (nr_physpages ?s) < 2 ^ 18 - 1" using mem_invD(2)[OF inv] by simp
  qed (use caches slabs lists listed mem_invD(7)[OF inv] in \<open>simp_all add: v'_def\<close>)
  with run show ?thesis by (intro exI[of _ ?s]) simp
qed


lemma list_members:
  assumes l: "listed C v cur own" and h: "h \<in> slab_heads C v"
  shows "set (vL v h) \<subseteq> SlabNode ` vS v \<union> OList ` C"
proof -
  consider y where "y \<in> C" "h = Partials y" | y where "y \<in> C" "h = Full y" | j where "j \<in> vD v" "h = SlabNode j" | q where "q \<in> vP v" "h = PCaches q"
    using h by (auto simp: slab_heads_def)
  then show ?thesis
  proof cases
    case 1
    then show ?thesis using listedD(1)[OF l] by fast
  next
    case 2
    then show ?thesis using listedD(2)[OF l] by fast
  next
    case 3
    then show ?thesis using listedD(5)[OF l] by auto
  next
    case 4
    then show ?thesis using listedD(6)[OF l] by fast
  qed
qed

lemma slab_node_fresh:
  assumes inv: "mem_inv s C v" and i: "i \<notin> vS v" and h: "h \<in> slab_heads C v"
  shows "SlabNode i \<notin> set (vL v h)" "h \<noteq> SlabNode i"
  using list_members[OF mem_invD(6)[OF inv] h] listedD(5)[OF mem_invD(6)[OF inv], of i] h i by (auto simp: slab_heads_def)

lemma slow_start:
  assumes inv: "mem_inv s C v" and x: "x \<in> C" and cur: "o_cur (objcaches s x) = None" and Q: "vQ v = i # Q"
  defines "v' \<equiv> v\<lparr>vS := insert i (vS v), vF := (vF v)(i := []), vN := (vN v)(i := 0), vL := (vL v)(SlabNode i := []),
      vD := insert i (vD v), vQ := Q\<rparr>"
  shows "\<exists>s'. alloc_slow x s = alloc_fast x s' \<and> mem_inv s' C v' \<and> i \<notin> vS v \<and> objcaches s' = (objcaches s)(x := (objcaches s x)\<lparr>
      o_cur := Some i, o_ptr := page_address i, o_ptr_end := page_address i + o_sz (objcaches s x) * o_num (objcaches s x)\<rparr>) \<and>
    slabs s' = (slabs s)(i := (slabs s i)\<lparr>c_ptr := page_address i, c_cache := x, c_free_list := NULL, c_inuse := 0\<rparr>) \<and>
    kmem s' = kmem s \<and> memsem s' = memsem s \<and> mc s' = mc s"
proof -
  have B: "buddy_rep s (i # Q)" using mem_invD(1)[OF inv] Q by simp
  have i: "i < unat (nr_physpages s)" "i < 262142" using buddy_repD(5)[OF B, of i] mem_invD(2)[OF inv] by auto
  have cnt: "pg_count (pfa s i) = 0" using buddy_repD(6)[OF B i(1)] by simp
  have iS: "i \<notin> vS v" using mem_invD(4)[OF inv, of i] cnt by (auto simp: slab_ok_def)
  have al: "alloc_page s = Some (alloc_post s i, page_address i)"
    using alloc_pages_Cons[OF B] by (simp add: alloc_page_def)
  have pa: "page_address i \<noteq> NULL" "virt_to_page (page_address i) = i" using i by simp_all
  let ?k = "(objcaches s x)\<lparr>o_cur := Some i, o_ptr := page_address i, o_ptr_end := page_address i + o_sz (objcaches s x) * o_num (objcaches s x)\<rparr>"
  let ?h = "(slabs s i)\<lparr>c_ptr := page_address i, c_cache := x, c_free_list := NULL, c_inuse := 0\<rparr>"
  let ?p = "(pfa s i)\<lparr>pg_count := 1, pg_type := PG_slab\<rparr>"
  let ?s = "(alloc_post s i)\<lparr>pfa := (pfa s)(i := ?p), objcaches := (objcaches s)(x := ?k), slabs := (slabs s)(i := ?h),
      mlinks := INIT_LIST_HEAD (mlinks s) (SlabNode i)\<rparr>"
  have run: "alloc_slow x s = alloc_fast x ?s"
    using pa cnt by (simp add: alloc_slow_def memchunk_get_def al Let_def) (simp add: alloc_post_def get_page_def)
  have s': "kmem ?s = kmem s" "nr_physpages ?s = nr_physpages s" "memsem ?s = memsem s" "mc ?s = mc s"
    by (simp_all add: alloc_post_def get_page_def)
  have slabs: "slab_ok ?s C v' j" if j: "j \<in> vS v'" for j
  proof (cases "j = i")
    case True
    then show ?thesis using i x s' by (simp add: slab_ok_def v'_def)
  next
    case False
    then have "j \<in> vS v" using j by (simp add: v'_def)
    then have "slab_ok s C v j" using mem_invD(4)[OF inv] by blast
    then show ?thesis using False cur s' by (auto simp: slab_ok_def v'_def)
  qed
  have caches: "cache_ok ?s v' y" if y: "y \<in> C" for y
  proof (cases "y = x")
    case True
    have "page_address i + o_sz (objcaches s x) * o_num (objcaches s x) = slot i (osz s x) (onum s x)"
      "page_address i = slot i (osz s x) 0" by (simp_all add: slot_def mult.commute)
    then show ?thesis using True mem_invD(3)[OF inv x] onum_le(2)[OF inv x] by (auto simp: cache_ok_def v'_def)
  next
    case False
    have "j \<noteq> i" if "o_cur (objcaches s y) = Some j" for j
      using mem_invD(3)[OF inv y] that iS by (auto simp: cache_ok_def)
    then show ?thesis using mem_invD(3)[OF inv y] False by (auto simp: cache_ok_def v'_def split: option.splits)
  qed
  have lists: "lists_rep (mlinks ?s) (slab_heads C v') (vL v')"
  proof -
    have "slab_heads C v' = insert (SlabNode i) (slab_heads C v)" by (auto simp: slab_heads_def v'_def)
    then show ?thesis
      using lh.rep_init[OF mem_invD(5)[OF inv], of "SlabNode i"] slab_node_fresh[OF inv iS] by (auto simp: v'_def)
  qed
  have listed: "listed C v' (\<lambda>x. o_cur (objcaches ?s x)) (owner ?s)"
  proof -
    note l = mem_invD(6)[OF inv]
    have ne: "j \<noteq> i" if "j \<in> vS v" for j using that iS by auto
    have cu: "o_cur (objcaches ?s (owner s j)) = Some j \<longleftrightarrow> o_cur (objcaches s (owner s j)) = Some j" if "j \<in> vS v" for j
      using ne[OF that] cur by auto
    have "\<exists>j\<in>vS v'. n = SlabNode j \<and> owner ?s j = y \<and> (vF v' j \<noteq> [] \<or> o_cur (objcaches ?s y) = Some j)"
      if "y \<in> C" "n \<in> set (vL v' (Partials y))" for y n
      using listedD(1)[OF l that(1), of n] that(2) ne cu by (fastforce simp: v'_def)
    moreover have "\<exists>j\<in>vS v'. n = SlabNode j \<and> owner ?s j = y \<and> vF v' j = [] \<and> o_cur (objcaches ?s y) \<noteq> Some j"
      if "y \<in> C" "n \<in> set (vL v' (Full y))" for y n
      using listedD(2)[OF l that(1), of n] that(2) ne cu by (fastforce simp: v'_def)
    moreover have "if vF v' j = [] \<and> o_cur (objcaches ?s (owner ?s j)) \<noteq> Some j then SlabNode j \<in> set (vL v' (Full (owner ?s j)))
        else SlabNode j \<in> set (vL v' (Partials (owner ?s j)))" if "j \<in> vS v' - vD v'" for j
    proof -
      have j: "j \<in> vS v" "j \<notin> vD v" "j \<noteq> i" using that by (auto simp: v'_def)
      show ?thesis using listedD(3,4)[OF l j(1,2)] j(3) cu[OF j(1)] by (simp add: v'_def)
    qed
    moreover have "j \<in> vS v' \<and> vF v' j = [] \<and> o_cur (objcaches ?s (owner ?s j)) = Some j \<and> vL v' (SlabNode j) = []"
      if "j \<in> vD v'" for j
      using that listedD(5)[OF l, of j] cu[of j] by (cases "j = i") (auto simp: v'_def)
    moreover have "set (vL v' (PCaches p)) \<subseteq> OList ` C" if "p \<in> vP v'" for p
      using that listedD(6)[OF l, of p] by (simp add: v'_def)
    ultimately show ?thesis unfolding listed_def by blast
  qed
  have "mem_inv ?s C v'"
    unfolding mem_inv_def
  proof (intro conjI ballI)
    show "buddy_rep ?s (vQ v')"
      using buddy_rep_cong[OF alloc_post_rep[OF B], of ?s] cnt by (auto simp: v'_def alloc_post_def get_page_def)
    show "unat (nr_physpages ?s) < 2 ^ 18 - 1" using mem_invD(2)[OF inv] s' by simp
    show "vK v' \<inter> (vS v' \<union> set (vQ v')) = {}" using mem_invD(7)[OF inv] Q by (simp add: v'_def)
  qed (use caches slabs lists listed in simp_all)
  with run iS s' show ?thesis by (intro exI[of _ ?s]) simp
qed


subsection \<open>Allocation\<close>

text \<open>What is in use: the objects handed out and not on a free list, with their sizes.\<close>

definition used :: "'a memchunk_scheme \<Rightarrow> view \<Rightarrow> (nat \<times> nat) set" where
  "used s v = {(i, k). i \<in> vS v \<and> k < vN v i \<and> obj s i k \<notin> set (vF v i)}"

definition objs :: "'a memchunk_scheme \<Rightarrow> view \<Rightarrow> (addr \<times> nat) set" where
  "objs s v = (\<lambda>(i, k). (obj s i k, osz s (owner s i))) ` used s v"

text \<open>The caches are in the kernel image, whose pages are \<open>K\<close>, or are objects themselves.\<close>

definition objs_rep :: "nat set \<Rightarrow> addr set \<Rightarrow> 'a memchunk_scheme \<Rightarrow> (addr \<times> nat) set \<Rightarrow> bool" where
  "objs_rep K C s A \<longleftrightarrow> (\<exists>v. mem_inv s C v \<and> inuse_pos s (vS v) \<and> memsem s = 1 \<and> A = objs s v \<and> vK v = K \<and>
     m_gpool s \<in> vP v \<and> (\<forall>x\<in>C. virt_to_page x \<in> K \<or> x \<in> fst ` A))"

lemma room_iff:
  assumes inv: "mem_inv s C v" and x: "x \<in> C"
  shows "o_ptr (objcaches s x) + o_sz (objcaches s x) \<le> o_ptr_end (objcaches s x) \<longleftrightarrow> o_cur (objcaches s x) \<noteq> None"
proof (cases "o_cur (objcaches s x)")
  case None
  then have p: "o_ptr (objcaches s x) = o_ptr_end (objcaches s x)" "unat (o_ptr (objcaches s x)) + 4096 < 2 ^ 32"
    "4 \<le> osz s x" "osz s x \<le> 4096"
    using mem_invD(3)[OF inv x] by (auto simp: cache_ok_def)
  have "unat (o_ptr (objcaches s x) + o_sz (objcaches s x)) = unat (o_ptr (objcaches s x)) + osz s x"
    using p by (intro unat_add_nowrap) simp
  then show ?thesis using None p by (simp add: word_le_nat_alt)
next
  case (Some c)
  then have c: "c \<in> vS v" "owner s c = x" "o_ptr (objcaches s x) = slot c (osz s x) (vN v c)"
    "o_ptr_end (objcaches s x) = slot c (osz s x) (onum s x)" "vN v c < onum s x" "onum s x * osz s x \<le> 4096"
    using mem_invD(3)[OF inv x] by (auto simp: cache_ok_def)
  have "Suc (vN v c) * osz s x \<le> onum s x * osz s x" using c(5) by (intro mult_le_mono1) simp
  moreover have "c < 262143" using inv_sizes(1)[OF inv c(1), of "vN v c"] c(2,5) by simp
  ultimately have "unat (slot c (osz s x) (Suc (vN v c))) \<le> unat (slot c (osz s x) (onum s x))"
    using c(6) by (simp only: unat_slot)
  then show ?thesis using Some c by (simp add: slot_next word_le_nat_alt)
qed

definition alloc_ok :: "'a memchunk_scheme \<Rightarrow> addr set \<Rightarrow> view \<Rightarrow> addr \<Rightarrow> 'a memchunk_scheme \<Rightarrow> addr \<Rightarrow> bool" where
  "alloc_ok s C v x s' a \<longleftrightarrow> (\<exists>v'. mem_inv s' C v' \<and> vK v' = vK v \<and> vP v' = vP v \<and> inuse_pos s' (vS v') \<and> objs s' v' = insert (a, osz s x) (objs s v)) \<and>
     a \<noteq> NULL \<and> a \<notin> fst ` objs s v \<and> memsem s' = memsem s \<and> mc s' = mc s \<and>
     (\<forall>y. o_sz (objcaches s' y) = o_sz (objcaches s y)) \<and> (\<forall>b. \<not> unat (b - a) < osz s x \<longrightarrow> kmem s' b = kmem s b)"

lemma objs_fst_iff:
  assumes inv: "mem_inv s C v" and i: "i \<in> vS v" "k < onum s (owner s i)"
  shows "obj s i k \<in> fst ` objs s v \<longleftrightarrow> k < vN v i \<and> obj s i k \<notin> set (vF v i)"
proof -
  have "l < onum s (owner s j)" if "j \<in> vS v" "l < vN v j" for j l
    using mem_invD(4)[OF inv that(1)] that(2) by (simp add: slab_ok_def)
  then have eq: "obj s i k = obj s j l \<longleftrightarrow> i = j \<and> k = l" if "(j, l) \<in> used s v" for j l
    using inv_obj_inj[OF inv i, of j l] that by (auto simp: used_def)
  have "obj s i k \<in> fst ` objs s v \<longleftrightarrow> (\<exists>(j, l)\<in>used s v. obj s i k = obj s j l)"
    by (simp add: objs_def image_image split_def image_iff)
  also have "\<dots> \<longleftrightarrow> (i, k) \<in> used s v" using eq by auto
  finally show ?thesis using i(1) by (simp add: used_def)
qed

lemma obj_nonnull: "mem_inv s C v \<Longrightarrow> i \<in> vS v \<Longrightarrow> k < onum s (owner s i) \<Longrightarrow> obj s i k \<noteq> NULL"
  using inv_sizes[of s C v i k] by (intro slot_nonnull) auto

lemma partial_ok:
  assumes inv: "mem_inv s C v" and x: "x \<in> C" and pos: "inuse_pos s (vS v)"
    and P: "vL v (Partials x) = SlabNode c # rest" and F: "vF v c \<noteq> []"
  shows "alloc_ok s C v x (fst (alloc_from_partial x c s)) (snd (alloc_from_partial x c s))"
proof -
  obtain a fl where F: "vF v c = a # fl" using F by (cases "vF v c") auto
  note R = partial_inv[OF inv x P F]
  have c: "c \<in> vS v" "owner s c = x" using listedD(1)[OF mem_invD(6)[OF inv] x, of "SlabNode c"] P by auto
  have ok: "slab_ok s C v c" using mem_invD(4)[OF inv c(1)] .
  then obtain k where k: "k < vN v c" "a = obj s c k" using F by (auto simp: slab_ok_def)
  have ko: "k < onum s (owner s c)" using k(1) ok by (simp add: slab_ok_def)
  have fl: "c_free_list (slabs s c) = a" "a \<notin> set fl" using ok F by (auto simp: slab_ok_def)
  have inuse: "unat (c_inuse (slabs s c) + 1) = unat (c_inuse (slabs s c)) + 1"
    using ok onum_le[OF inv x] c(2) by (intro unat_add_nowrap[THEN trans]) (auto simp: slab_ok_def)
  let ?s = "fst (alloc_from_partial x c s)"
  have s': "kmem ?s = memset (kmem s) a OBJCACHE_POISON_PATTERN (o_sz (objcaches s x))"
    "slabs ?s = (slabs s)(c := (slabs s c)\<lparr>c_free_list := read32 (kmem s) a, c_inuse := c_inuse (slabs s c) + 1\<rparr>)"
    "objcaches ?s = objcaches s" "memsem ?s = memsem s" "mc ?s = mc s"
    by (simp_all add: alloc_from_partial_def Let_def O_POISON_def fl(1))
  have own: "owner ?s j = owner s j" for j by (simp add: s')
  define v' where "v' = v\<lparr>vF := (vF v)(c := fl), vL := if fl = [] \<and> o_cur (objcaches s x) \<noteq> Some c
      then (vL v)(Partials x := rest, Full x := SlabNode c # vL v (Full x)) else vL v\<rparr>"
  have nf: "a \<notin> set (vF v j)" if "j \<in> vS v" "j \<noteq> c" for j using obj_not_free[OF inv c(1) ko that] k(2) by simp
  have "used ?s v' = insert (c, k) (used s v)"
  proof -
    have inj: "obj s c l = a \<longleftrightarrow> l = k" if "l < vN v c" for l
      using inv_obj_inj[OF inv c(1) _ c(1) ko, of l] that ok k(2) by (auto simp: slab_ok_def)
    have "(j, l) \<in> used ?s v' \<longleftrightarrow> (j, l) \<in> insert (c, k) (used s v)" for j l
      unfolding used_def own s'(3) using c(1) k F fl(2) inj[of l] by (cases "j = c") (auto simp: v'_def)
    then show ?thesis by auto
  qed
  then have "objs ?s v' = insert (a, osz s x) (objs s v)" unfolding objs_def own s'(3) using k(2) c(2) by simp
  moreover have "inuse_pos ?s (vS v')" using pos inuse by (auto simp: inuse_pos_def s' v'_def word_unat_eq_iff)
  moreover have "a \<notin> fst ` objs s v" using objs_fst_iff[OF inv c(1) ko] F k(2) by simp
  moreover have "a \<noteq> NULL" using obj_nonnull[OF inv c(1) ko] k(2) by simp
  moreover have "mem_inv ?s C v'" using R(2) unfolding v'_def .
  moreover have "vK v' = vK v" "vP v' = vP v" by (simp_all add: v'_def)
  ultimately show ?thesis using R(1) unfolding alloc_ok_def s' by (auto simp: memset_off)
qed


lemma fast_ok:
  assumes inv: "mem_inv s C v" and x: "x \<in> C" and cur: "o_cur (objcaches s x) = Some c" and F: "vF v c = []"
    and pos: "inuse_pos s (vS v - {c})"
  shows "\<exists>s' a. alloc_fast x s = Some (s', a) \<and> alloc_ok s C v x s' a"
proof -
  let ?a = "obj s c (vN v c)" and ?full = "Suc (vN v c) = onum s x"
  define v' where "v' = v\<lparr>vN := (vN v)(c := Suc (vN v c)), vL := if ?full then (vL v)(Partials x :=
      remove1 (SlabNode c) (vL v (Partials x)), Full x := SlabNode c # vL v (Full x)) else vL v, vD := if ?full then vD v - {c} else vD v\<rparr>"
  obtain s' where r: "alloc_fast x s = Some (s', ?a)" and inv': "mem_inv s' C v'"
    and o': "objcaches s' = (objcaches s)(x := (objcaches s x)\<lparr>o_ptr := o_ptr (objcaches s x) + o_sz (objcaches s x), o_cur := if ?full then None else Some c\<rparr>)"
    and sl: "slabs s' = (slabs s)(c := (slabs s c)\<lparr>c_inuse := c_inuse (slabs s c) + 1\<rparr>)"
    and m: "kmem s' = memset (kmem s) ?a OBJCACHE_POISON_PATTERN (o_sz (objcaches s x))" "memsem s' = memsem s" "mc s' = mc s"
    using fast_inv[OF inv x cur F] unfolding v'_def by blast
  have c: "c \<in> vS v" "owner s c = x" "vN v c < onum s x"
    using mem_invD(3)[OF inv x] cur by (auto simp: cache_ok_def)
  have ko: "vN v c < onum s (owner s c)" using c by simp
  have own: "owner s' j = owner s j" "o_sz (objcaches s' y) = o_sz (objcaches s y)" for j y by (simp_all add: sl o')
  have "used s' v' = insert (c, vN v c) (used s v)"
    unfolding used_def own using c(1) F by (auto simp: v'_def split: if_splits)
  then have "objs s' v' = insert (?a, osz s x) (objs s v)" unfolding objs_def own using c(2) by simp
  moreover have "unat (c_inuse (slabs s c) + 1) = Suc (vN v c)"
    using mem_invD(4)[OF inv c(1)] F c(3) onum_le(1)[OF inv x] by (intro unat_add_nowrap[THEN trans]) (auto simp: slab_ok_def)
  then have "inuse_pos s' (vS v')" using pos by (auto simp: inuse_pos_def sl v'_def word_unat_eq_iff)
  moreover have "?a \<notin> fst ` objs s v" using objs_fst_iff[OF inv c(1) ko] by simp
  moreover have "vK v' = vK v" "vP v' = vP v" by (simp_all add: v'_def)
  ultimately show ?thesis
    using r inv' obj_nonnull[OF inv c(1) ko] m own unfolding alloc_ok_def by (auto simp: memset_off)
qed

lemma slow_ok:
  assumes inv: "mem_inv s C v" and x: "x \<in> C" and cur: "o_cur (objcaches s x) = None" and pos: "inuse_pos s (vS v)"
  shows "if vQ v = [] then alloc_slow x s = None else \<exists>s' a. alloc_slow x s = Some (s', a) \<and> alloc_ok s C v x s' a"
proof (cases "vQ v")
  case Nil
  then have "alloc_page s = Some (s, NULL)"
    using alloc_pages_Nil mem_invD(1)[OF inv] by (simp add: alloc_page_def)
  with Nil show ?thesis by (simp add: alloc_slow_def memchunk_get_def)
next
  case (Cons i Q)
  define v' where "v' = v\<lparr>vS := insert i (vS v), vF := (vF v)(i := []), vN := (vN v)(i := 0), vL := (vL v)(SlabNode i := []),
      vD := insert i (vD v), vQ := Q\<rparr>"
  obtain s1 where r: "alloc_slow x s = alloc_fast x s1" and inv1: "mem_inv s1 C v'" and iS: "i \<notin> vS v"
    and o1: "objcaches s1 = (objcaches s)(x := (objcaches s x)\<lparr>
      o_cur := Some i, o_ptr := page_address i, o_ptr_end := page_address i + o_sz (objcaches s x) * o_num (objcaches s x)\<rparr>)"
    and s1: "slabs s1 = (slabs s)(i := (slabs s i)\<lparr>c_ptr := page_address i, c_cache := x, c_free_list := NULL, c_inuse := 0\<rparr>)"
    and m: "kmem s1 = kmem s" "memsem s1 = memsem s" "mc s1 = mc s"
    using slow_start[OF inv x cur Cons] unfolding v'_def by blast
  have own: "j \<in> vS v \<Longrightarrow> owner s1 j = owner s j" "o_sz (objcaches s1 y) = o_sz (objcaches s y)" for j y
    using iS by (auto simp: s1 o1)
  have "inuse_pos s1 (vS v' - {i})" using pos by (auto simp: inuse_pos_def s1 v'_def)
  then obtain s' a where f: "alloc_fast x s1 = Some (s', a)" "alloc_ok s1 C v' x s' a"
    using fast_ok[OF inv1 x, of i] by (auto simp: o1 v'_def)
  have u: "used s1 v' = used s v" using iS own by (auto simp: used_def v'_def split: if_splits)
  have "objs s1 v' = objs s v" unfolding objs_def u by (rule image_cong) (auto simp: own used_def)
  moreover have "vK v' = vK v" "vP v' = vP v" by (simp_all add: v'_def)
  ultimately have "alloc_ok s C v x s' a" using f(2) unfolding alloc_ok_def m own(2) by simp
  with r f(1) Cons show ?thesis by auto
qed

lemma first_partial_eq:
  assumes "mem_inv s C v" "x \<in> C"
  shows "first_partial x s = (case vL v (Partials x) of [] \<Rightarrow> None | n # _ \<Rightarrow> slab_of n)"
  using lh.empty_iff[OF mem_invD(5)[OF assms(1)] heads_in(1)[OF assms(2)]]
    lh.first_eq[OF mem_invD(5)[OF assms(1)] heads_in(1)[OF assms(2)]]
  by (auto simp: first_partial_def split: list.splits)

lemma mem_inv_memsem [simp]: "mem_inv (s\<lparr>memsem := n\<rparr>) C v = mem_inv s C v"
proof -
  have "cache_ok (s\<lparr>memsem := n\<rparr>) v x = cache_ok s v x" for x by (rule cache_ok_cong) simp_all
  moreover have "slab_ok (s\<lparr>memsem := n\<rparr>) C v i = slab_ok s C v i" for i by (simp add: slab_ok_def)
  ultimately show ?thesis by (simp add: mem_inv_def buddy_rep_def)
qed

lemma objs_memsem [simp]: "objs (s\<lparr>memsem := n\<rparr>) v = objs s v" "inuse_pos (s\<lparr>memsem := n\<rparr>) X = inuse_pos s X"
  by (simp_all add: objs_def used_def inuse_pos_def)

text \<open>The current slab has no free object when the first partial slab has none.\<close>

lemma cur_no_free:
  assumes inv: "mem_inv s C v" and x: "x \<in> C" and cur: "o_cur (objcaches s x) = Some c"
    and none: "\<And>i rest. vL v (Partials x) = SlabNode i # rest \<Longrightarrow> vF v i = []"
  shows "vF v c = []"
proof -
  note l = mem_invD(6)[OF inv]
  have c: "c \<in> vS v" "owner s c = x" using mem_invD(3)[OF inv x] cur by (auto simp: cache_ok_def)
  show ?thesis
  proof (cases "c \<in> vD v")
    case True
    then show ?thesis using listedD(5)[OF l] by blast
  next
    case False
    then have "SlabNode c \<in> set (vL v (Partials x))" using listedD(4)[OF l c(1)] cur c(2) by simp
    then obtain n rest where P: "vL v (Partials x) = n # rest" by (cases "vL v (Partials x)") auto
    then obtain i where i: "n = SlabNode i" "vF v i \<noteq> [] \<or> o_cur (objcaches s x) = Some i"
      using listedD(1)[OF l x, of n] by auto
    with none P cur show ?thesis by auto
  qed
qed

lemma unat_obj:
  assumes "mem_inv s C v" "i \<in> vS v" "k < onum s (owner s i)"
  shows "virt_to_page (obj s i k) = i"
proof (rule virt_to_page_slot)
  show "i < 262143" using inv_sizes(1)[OF assms] by simp
  show "k * osz s (owner s i) < 4096" using inv_sizes(2,3)[OF assms] by simp
qed

lemma do_alloc_ok:
  assumes rep: "objs_rep K C s A" and x: "x \<in> C"
  shows "case do_alloc x s of None \<Rightarrow> nr_freepages s = 0
    | Some (s', a) \<Rightarrow> a \<noteq> NULL \<and> a \<notin> fst ` A \<and> a \<notin> C \<and> objs_rep K C s' (insert (a, osz s x) A) \<and> mc s' = mc s \<and>
        (\<forall>y. o_sz (objcaches s' y) = o_sz (objcaches s y)) \<and> (\<forall>b. \<not> unat (b - a) < osz s x \<longrightarrow> kmem s' b = kmem s b)"
proof -
  obtain v where inv0: "mem_inv s C v" and pos0: "inuse_pos s (vS v)" and sem: "memsem s = 1" and A: "A = objs s v"
    and K: "vK v = K" "m_gpool s \<in> vP v" and st: "\<forall>x\<in>C. virt_to_page x \<in> K \<or> x \<in> fst ` A"
    using rep by (auto simp: objs_rep_def)
  let ?s = "s\<lparr>memsem := 0\<rparr>"
  have inv: "mem_inv ?s C v" and pos: "inuse_pos ?s (vS v)" using inv0 pos0 by simp_all
  have xn: "x \<noteq> NULL" using mem_invD(3)[OF inv0 x] by (simp add: cache_ok_def)
  let ?rest = "if o_cur (objcaches s x) = None then alloc_slow x ?s else alloc_fast x ?s"
  have rest: "?rest = None \<and> nr_freepages s = 0 \<or> (\<exists>s' a. ?rest = Some (s', a) \<and> alloc_ok ?s C v x s' a)"
    if none: "\<And>i r. vL v (Partials x) = SlabNode i # r \<Longrightarrow> vF v i = []"
  proof (cases "o_cur (objcaches s x)")
    case None
    have "nr_freepages s = 0" if "vQ v = []"
      using buddy_repD(3)[OF mem_invD(1)[OF inv0]] that by (simp add: unat_eq_zero)
    then show ?thesis using slow_ok[OF inv x _ pos] None by (auto split: if_splits)
  next
    case (Some c)
    have "inuse_pos ?s (vS v - {c})" using pos by (simp add: inuse_pos_def)
    then show ?thesis using fast_ok[OF inv x _ cur_no_free[OF inv x _ none]] Some by auto
  qed
  let ?body = "case first_partial x ?s of
             Some c \<Rightarrow>
               if c_free_list (slabs ?s c) \<noteq> NULL then Some (alloc_from_partial x c ?s) else ?rest
           | None \<Rightarrow> ?rest"
  have body: "?body = None \<and> nr_freepages s = 0 \<or> (\<exists>s' a. ?body = Some (s', a) \<and> alloc_ok ?s C v x s' a)"
  proof (cases "vL v (Partials x)")
    case Nil
    then show ?thesis using rest first_partial_eq[OF inv x] by simp
  next
    case (Cons n r)
    then obtain c where c: "n = SlabNode c" "c \<in> vS v" using listedD(1)[OF mem_invD(6)[OF inv] x, of n] by auto
    have "c_free_list (slabs s c) = NULL \<longleftrightarrow> vF v c = []"
      using mem_invD(4)[OF inv0 c(2)] fl_at_Nil by (auto simp: slab_ok_def)
    then show ?thesis
      using rest first_partial_eq[OF inv x] Cons c(1) partial_ok[OF inv x pos, of c r]
      by (cases "alloc_from_partial x c ?s") auto
  qed
  have run: "do_alloc x s = ?body \<bind> (\<lambda>(s, ret). Some (s\<lparr>memsem := sem_up (memsem s)\<rparr>, ret))"
    using room_iff[OF inv0 x] sem xn by (simp add: do_alloc_def split: option.splits)
  from body show ?thesis
  proof (elim disjE conjE exE)
    assume "?body = None" "nr_freepages s = 0"
    then show ?thesis unfolding run by (simp only: bind.simps option.case)
  next
    fix s' a assume r: "?body = Some (s', a)" and ok: "alloc_ok ?s C v x s' a"
    then obtain v' where v': "mem_inv s' C v'" "inuse_pos s' (vS v')" "objs s' v' = insert (a, osz s x) (objs s v)"
      "vK v' = K" "vP v' = vP v"
      using K(1) by (auto simp: alloc_ok_def)
    have sem': "memsem s' = 0" and mc': "mc s' = mc s" and fresh: "a \<notin> fst ` A" using ok A by (auto simp: alloc_ok_def)
    have "objs_rep K C (s'\<lparr>memsem := 1\<rparr>) (insert (a, osz s x) A)"
      unfolding objs_rep_def A using v' K(2) mc' st by (intro exI[of _ v']) (auto simp: m_gpool_def A)
    moreover have "virt_to_page a \<notin> K"
    proof -
      have "(a, osz s x) \<in> objs s' v'" using v'(3) by simp
      then obtain i k where i: "(i, k) \<in> used s' v'" "a = obj s' i k" by (auto simp: objs_def)
      then have "i \<in> vS v'" "k < onum s' (owner s' i)" using mem_invD(4)[OF v'(1), of i] by (auto simp: used_def slab_ok_def)
      then show ?thesis using unat_obj[OF v'(1), of i k] mem_invD(7)[OF v'(1)] v'(4) i(2) by auto
    qed
    then have "a \<notin> C" using st fresh by auto
    ultimately show ?thesis using ok sem' unfolding run r A by (simp add: alloc_ok_def)
  qed
qed

end
