(* ===== verification/ObjCache.thy ===== *)
theory ObjCache
  imports Slabs
begin

text \<open>
  Freeing objects and creating caches, \<^verbatim>\<open>kernel/memchunk.c\<close>. \<open>objcache_free_ok\<close>,
  \<open>objcache_init_ok\<close> and \<open>memchunk_init_ok\<close> are the contracts of the operations over the invariant of
  the theory Slabs. The locale \<open>object_allocator\<close> states the contract the kernel's clients rely on,
  its interpretation \<open>oc\<close> shows that the object caches meet it, and the properties at the end are
  about the object caches themselves.
\<close>

subsection \<open>Freeing\<close>

lemma write32_off: "4 \<le> n \<Longrightarrow> \<not> unat (b - a) < n \<Longrightarrow> write32 m a w b = m b"
  by (rule write32_other) simp

lemma push_inv:
  assumes inv: "mem_inv s C v" and i: "i \<in> vS v" "k < vN v i" "obj s i k \<notin> set (vF v i)"
    and pos: "c_inuse (slabs s i) \<noteq> 0"
  defines "x \<equiv> owner s i" and "a \<equiv> obj s i k" and "n \<equiv> SlabNode i"
  defines "v' \<equiv> v\<lparr>vF := (vF v)(i := a # vF v i), vD := vD v - {i}, vL := if vF v i = [] then
      (vL v)(Full x := remove1 n (vL v (Full x)), Partials x := n # remove1 n (vL v (Partials x))) else vL v\<rparr>"
  defines "s' \<equiv> s\<lparr>kmem := write32 (memset (kmem s) a OBJCACHE_POISON_PATTERN (o_sz (objcaches s x))) a (c_free_list (slabs s i)),
      mlinks := if vF v i = [] then list_move (mlinks s) n (Partials x) else mlinks s,
      slabs := (slabs s)(i := (slabs s i)\<lparr>c_free_list := a, c_inuse := c_inuse (slabs s i) - 1\<rparr>)\<rparr>"
  shows "mem_inv s' C v'"
proof -
  note l = mem_invD(6)[OF inv] and lr = mem_invD(5)[OF inv]
  have ok: "slab_ok s C v i" using mem_invD(4)[OF inv i(1)] .
  have x: "x \<in> C" using ok by (simp add: slab_ok_def x_def)
  have ox: "owner s i = x" by (simp add: x_def)
  have ko: "k < onum s (owner s i)" using i(2) ok by (simp add: slab_ok_def)
  have an: "a \<noteq> NULL" using obj_nonnull[OF inv i(1) ko] by (simp add: a_def)
  have sz: "4 \<le> osz s (owner s i)" using inv_sizes(2)[OF inv i(1) ko] .
  let ?m = "kmem s'"
  have m: "?m b = kmem s b" if "\<not> unat (b - obj s i k) < osz s (owner s i)" for b
    using that sz by (simp add: s'_def a_def x_def write32_off[OF sz] memset_off)
  have top: "read32 ?m a = c_free_list (slabs s i)" by (simp add: s'_def)
  have own: "owner s' j = owner s j" for j by (simp add: s'_def)
  have obc: "objcaches s' = objcaches s" by (simp add: s'_def)
  have inuse: "unat (c_inuse (slabs s i) - 1) = unat (c_inuse (slabs s i)) - 1" using pos by (rule unat_minus_one)
  have p1: "1 \<le> unat (c_inuse (slabs s i))" using pos by (simp add: Suc_le_eq unat_gt_0)
  have slabs: "slab_ok s' C v' j" if j: "j \<in> vS v" for j
  proof -
    have okj: "slab_ok s C v j" using mem_invD(4)[OF inv j] .
    have "obj s i k \<notin> set (vF v j)" using obj_not_free[OF inv i(1) ko j] i(3) by (cases "j = i") auto
    then have fr: "fl_at ?m p (vF v j) = fl_at (kmem s) p (vF v j)" for p
      using inv_free_objs[OF inv j] by (intro fl_frame[OF inv i(1) ko j _ _ m]) auto
    show ?thesis
    proof (cases "j = i")
      case True
      have "slabs s' i = (slabs s i)\<lparr>c_free_list := a, c_inuse := c_inuse (slabs s i) - 1\<rparr>" "vF v' i = a # vF v i" "vN v' = vN v"
        by (simp_all add: s'_def v'_def)
      moreover have "nr_physpages s' = nr_physpages s" "pfa s' = pfa s" by (simp_all add: s'_def)
      ultimately have "slab_ok s' C v' i"
        using ok i(2,3) fr True top an inuse p1 unfolding slab_ok_def own obc by (auto simp: a_def)
      with True show ?thesis by simp
    next
      case False
      then have "slabs s' j = slabs s j" "vF v' j = vF v j" "vN v' = vN v" "nr_physpages s' = nr_physpages s" "pfa s' = pfa s"
        by (simp_all add: s'_def v'_def)
      then show ?thesis using okj fr unfolding slab_ok_def own obc by simp
    qed
  qed
  have lists: "lists_rep (mlinks s') (slab_heads C v') (vL v')"
  proof (cases "vF v i = []")
    case False
    then have "i \<notin> vD v" using listedD(5)[OF l, of i] by auto
    with False show ?thesis using lr by (simp add: s'_def v'_def slab_heads_def)
  next
    case nil: True
    have nF: "n \<notin> set (vL v (Full x))" if "o_cur (objcaches s x) = Some i"
      using listedD(2)[OF l x, of n] that by (auto simp: n_def)
    consider "i \<in> vD v" | "i \<notin> vD v" "o_cur (objcaches s x) = Some i" | "i \<notin> vD v" "o_cur (objcaches s x) \<noteq> Some i" by blast
    then show ?thesis
    proof cases
      case 1
      have "n \<notin> set (vL v (Partials x))" "n \<notin> set (vL v (Full x))"
        using lh.rep_head_notin[OF lr heads_in(1)[OF x] heads_in(3)[OF 1]] lh.rep_head_notin[OF lr heads_in(2)[OF x] heads_in(3)[OF 1]]
        by (simp_all add: n_def)
      moreover have "slab_heads C v' = slab_heads C v - {n}" by (auto simp: slab_heads_def v'_def n_def)
      ultimately show ?thesis
        using lh.rep_move_detached[OF lr heads_in(3)[OF 1] _ heads_in(1)[OF x]] listedD(5)[OF l 1] nil
        by (simp add: s'_def v'_def n_def remove1_idem fun_upd_idem)
    next
      case 2
      have "n \<in> set (vL v (Partials x))" using listedD(4)[OF l i(1) 2(1)] 2(2) by (simp add: x_def n_def)
      then show ?thesis
        using lh.rep_move[OF lr heads_in(1)[OF x] _ heads_in(1)[OF x]] nil 2 nF
        by (simp add: s'_def v'_def slab_heads_def remove1_idem fun_upd_idem)
    next
      case 3
      have "n \<in> set (vL v (Full x))" using listedD(3)[OF l i(1) 3(1)] 3(2) nil by (simp add: x_def n_def)
      moreover have "n \<notin> set (vL v (Partials x))" using listedD(1)[OF l x, of n] 3(2) nil by (auto simp: n_def)
      ultimately show ?thesis
        using lh.move_other(1)[OF lr heads_in(2)[OF x] _ heads_in(1)[OF x]] nil 3
        by (simp add: s'_def v'_def slab_heads_def remove1_idem)
    qed
  qed
  have listed: "listed C v' (\<lambda>x. o_cur (objcaches s' x)) (owner s')"
  proof -
    have dF: "distinct (vL v (Full x))" "distinct (vL v (Partials x))"
      using lh.rep_distinct[OF lr heads_in(2)[OF x]] lh.rep_distinct[OF lr heads_in(1)[OF x]] .
    have "i \<notin> vD v \<and> n \<in> set (vL v (Partials x)) \<and> n \<notin> set (vL v (Full x))" if "vF v i \<noteq> []"
      using that listedD(5)[OF l, of i] listedD(4)[OF l i(1)] listedD(2)[OF l x, of n] by (auto simp: n_def x_def)
    then show ?thesis unfolding own obc
      by (intro listed_relist[OF l i(1) ox x, where f = "a # vF v i"]) (use dF in \<open>auto simp: v'_def n_def\<close>)
  qed
  show ?thesis
    unfolding mem_inv_def
  proof (intro conjI ballI)
    show "buddy_rep s' (vQ v')" using buddy_rep_cong[OF mem_invD(1)[OF inv], of s'] by (simp add: s'_def v'_def)
    show "unat (nr_physpages s') < 2 ^ 18 - 1" using mem_invD(2)[OF inv] by (simp add: s'_def)
    show "cache_ok s' v' y" if "y \<in> C" for y
      using mem_invD(3)[OF inv that] cache_ok_cong[of s' y s v' v] by (simp add: own obc v'_def)
  qed (use slabs lists listed mem_invD(7)[OF inv] in \<open>simp_all add: v'_def\<close>)
qed

lemma release_inv:
  assumes inv: "mem_inv s C v" and i: "i \<in> vS v" "i \<notin> vD v" "vF v i \<noteq> []"
  defines "x \<equiv> owner s i" and "n \<equiv> SlabNode i"
  defines "v' \<equiv> v\<lparr>vS := vS v - {i}, vL := (vL v)(Partials x := remove1 n (vL v (Partials x))), vQ := vQ v @ [i]\<rparr>"
  defines "k' \<equiv> if o_cur (objcaches s x) = Some i then (objcaches s x)\<lparr>o_ptr := NULL, o_ptr_end := NULL, o_cur := None\<rparr> else objcaches s x"
  defines "s1 \<equiv> s\<lparr>mlinks := list_del (mlinks s) n, objcaches := (objcaches s)(x := k')\<rparr>"
  shows "\<exists>s'. free_page s1 (page_address i) = Some s' \<and> mem_inv s' C v' \<and> slabs s' = slabs s \<and> objcaches s' = (objcaches s)(x := k') \<and>
    kmem s' = memset (kmem s) (page_address i) PAGE_POISON_PATTERN PAGE_SIZE \<and> memsem s' = memsem s \<and> mc s' = mc s"
proof -
  note l = mem_invD(6)[OF inv] and lr = mem_invD(5)[OF inv]
  have ok: "slab_ok s C v i" using mem_invD(4)[OF inv i(1)] .
  have x: "x \<in> C" using ok by (simp add: slab_ok_def x_def)
  have B: "buddy_rep s (vQ v)" using mem_invD(1)[OF inv] .
  have ip: "i < unat (nr_physpages s)" "i < 262142" "pg_count (pfa s i) = 1" using ok mem_invD(2)[OF inv] by (auto simp: slab_ok_def)
  have iQ: "i \<notin> set (vQ v)" using buddy_repD(6)[OF B ip(1)] ip(3) by simp
  let ?s = "free_post s1 i"
  have B1: "buddy_rep s1 (vQ v)" using buddy_rep_cong[OF B, of s1] by (simp add: s1_def)
  have run: "free_page s1 (page_address i) = Some ?s"
    using free_pages_last[of i s1] ip buddy_repD(2)[OF B] by (simp add: free_page_def s1_def)
  have s': "slabs ?s = slabs s" "objcaches ?s = (objcaches s)(x := k')" "mlinks ?s = list_del (mlinks s) n" "memsem ?s = memsem s"
    "mc ?s = mc s" "kmem ?s = memset (kmem s) (page_address i) PAGE_POISON_PATTERN PAGE_SIZE" "nr_physpages ?s = nr_physpages s"
    "j \<noteq> i \<Longrightarrow> pfa ?s j = pfa s j" for j
    by (simp_all add: free_post_def s1_def)
  have sz: "o_sz (objcaches ?s y) = o_sz (objcaches s y)" "o_num (objcaches ?s y) = o_num (objcaches s y)" for y
    by (auto simp: s' k'_def)
  have cu: "o_cur (objcaches ?s y) = Some j \<longleftrightarrow> o_cur (objcaches s y) = Some j" if "j \<noteq> i" for y j
    using that by (auto simp: s' k'_def)
  have slabs: "slab_ok ?s C v' j" if j: "j \<in> vS v'" for j
  proof -
    have j: "j \<in> vS v" "j \<noteq> i" using j by (auto simp: v'_def)
    have okj: "slab_ok s C v j" using mem_invD(4)[OF inv j(1)] .
    have "fl_at (kmem ?s) p (vF v j) = fl_at (kmem s) p (vF v j)" for p
    proof (rule fl_at_cong)
      fix q assume "q \<in> set (vF v j)"
      then obtain q' where q: "q' < onum s (owner s j)" "q = obj s j q'" using inv_free_objs[OF inv j(1)] by auto
      note J = inv_sizes[OF inv j(1) q(1)]
      show "read32 (kmem ?s) q = read32 (kmem s) q"
      proof (rule read32_off[where a = "page_address i" and n = 4096])
        show "kmem ?s b = kmem s b" if "\<not> unat (b - page_address i) < 4096" for b
          using that by (simp add: s' memset_apply page_consts)
        show "\<not> unat (q + of_nat r - page_address i) < 4096" if "r < 4" for r
          unfolding q(2) by (rule page_apart) (use ip J j(2) that in auto)
      qed
    qed
    then show ?thesis using okj cu[OF j(2)] s'(8)[OF j(2)] unfolding slab_ok_def sz s'(1,7) by (simp add: v'_def)
  qed
  have caches: "cache_ok ?s v' y" if y: "y \<in> C" for y
  proof -
    have cy: "cache_ok s v y" using mem_invD(3)[OF inv y] .
    show ?thesis
    proof (cases "o_cur (objcaches s y) = Some i")
      case True
      then have "y = x" using cy by (simp add: cache_ok_def x_def)
      then show ?thesis using cy True by (simp add: cache_ok_def s' k'_def)
    next
      case False
      then have "objcaches ?s y = objcaches s y" by (auto simp: s' k'_def)
      then show ?thesis using cy False by (auto simp: cache_ok_def v'_def s'(1) split: option.splits)
    qed
  qed
  have on: "n \<in> set (vL v (Partials x))" using listedD(4)[OF l i(1,2)] i(3) by (simp add: x_def n_def)
  have lists: "lists_rep (mlinks ?s) (slab_heads C v') (vL v')"
    using lh.take_any[OF lr heads_in(1)[OF x] on] by (simp add: s' v'_def slab_heads_def)
  have d: "distinct (vL v (Partials x))" using lh.rep_distinct[OF lr heads_in(1)[OF x]] .
  have listed: "listed C v' (\<lambda>x. o_cur (objcaches ?s x)) (owner ?s)"
  proof -
    have P: "\<exists>j\<in>vS v'. m = SlabNode j \<and> owner s j = y \<and> (vF v j \<noteq> [] \<or> o_cur (objcaches ?s y) = Some j)"
      if y: "y \<in> C" and m: "m \<in> set (vL v' (Partials y))" for y m
    proof -
      have "m \<in> set (vL v (Partials y))" and mn: "y = x \<longrightarrow> m \<noteq> n" using m d by (auto simp: v'_def split: if_splits)
      then obtain j where j: "j \<in> vS v" "m = SlabNode j" "owner s j = y" "vF v j \<noteq> [] \<or> o_cur (objcaches s y) = Some j"
        using listedD(1)[OF l y] by blast
      then have "j \<noteq> i" using mn by (auto simp: x_def n_def)
      with j cu show ?thesis by (auto simp: v'_def)
    qed
    have Fu: "\<exists>j\<in>vS v'. m = SlabNode j \<and> owner s j = y \<and> vF v j = [] \<and> o_cur (objcaches ?s y) \<noteq> Some j"
      if y: "y \<in> C" and m: "m \<in> set (vL v' (Full y))" for y m
    proof -
      have "m \<in> set (vL v (Full y))" using m by (simp add: v'_def)
      then obtain j where j: "j \<in> vS v" "m = SlabNode j" "owner s j = y" "vF v j = []" "o_cur (objcaches s y) \<noteq> Some j"
        using listedD(2)[OF l y] by blast
      then have "j \<noteq> i" using i(3) by auto
      with j cu show ?thesis by (auto simp: v'_def)
    qed
    have Me: "if vF v j = [] \<and> o_cur (objcaches ?s (owner s j)) \<noteq> Some j then SlabNode j \<in> set (vL v' (Full (owner s j)))
        else SlabNode j \<in> set (vL v' (Partials (owner s j)))" if "j \<in> vS v' - vD v'" for j
    proof -
      have j: "j \<in> vS v" "j \<notin> vD v" "j \<noteq> i" using that by (auto simp: v'_def)
      have "SlabNode j \<in> set (vL v' (Partials y)) \<longleftrightarrow> SlabNode j \<in> set (vL v (Partials y))" "vL v' (Full y) = vL v (Full y)" for y
        using j(3) d by (auto simp: v'_def n_def)
      then show ?thesis using listedD(3,4)[OF l j(1,2)] cu[OF j(3)] by auto
    qed
    have De: "j \<in> vS v' \<and> vF v j = [] \<and> o_cur (objcaches ?s (owner s j)) = Some j \<and> vL v' (SlabNode j) = []" if "j \<in> vD v'" for j
    proof -
      have j: "j \<in> vD v" "j \<noteq> i" using that i(2) by (auto simp: v'_def)
      then show ?thesis using listedD(5)[OF l j(1)] cu[OF j(2)] by (auto simp: v'_def)
    qed
    have PC: "set (vL v' (PCaches p)) \<subseteq> OList ` C" if "p \<in> vP v'" for p
      using that listedD(6)[OF l, of p] by (simp add: v'_def)
    have vF': "vF v' = vF v" by (simp add: v'_def)
    show ?thesis unfolding listed_def s'(1) vF' using P Fu Me De PC by blast
  qed
  have "mem_inv ?s C v'"
    unfolding mem_inv_def
  proof (intro conjI ballI)
    show "buddy_rep ?s (vQ v')" using free_post_rep[OF B1] ip(1) iQ by (simp add: v'_def s1_def)
    show "unat (nr_physpages ?s) < 2 ^ 18 - 1" using mem_invD(2)[OF inv] s' by simp
    show "vK v' \<inter> (vS v' \<union> set (vQ v')) = {}" using mem_invD(7)[OF inv] i(1) by (auto simp: v'_def)
  qed (use caches slabs lists listed in simp_all)
  with run s' show ?thesis by blast
qed

text \<open>The slab of an object in use is never lost.\<close>

lemma slab_lost_no:
  assumes inv: "mem_inv s C v" and i: "i \<in> vS v"
  shows "slab_lost i s = Some False"
proof -
  note l = mem_invD(6)[OF inv] and lr = mem_invD(5)[OF inv]
  have x: "owner s i \<in> C" using mem_invD(4)[OF inv i] by (simp add: slab_ok_def)
  have P: "slab_is_on i (Partials (owner s i)) s = Some (SlabNode i \<in> set (vL v (Partials (owner s i))))"
    by (rule slab_is_on_iff[OF lr heads_in(1)[OF x]]) (use listedD(1)[OF l x] in auto)
  have F: "slab_is_on i (Full (owner s i)) s = Some (SlabNode i \<in> set (vL v (Full (owner s i))))"
    by (rule slab_is_on_iff[OF lr heads_in(2)[OF x]]) (use listedD(2)[OF l x] in auto)
  have "SlabNode i \<in> set (vL v (Partials (owner s i))) \<or> SlabNode i \<in> set (vL v (Full (owner s i)))"
    if "o_cur (objcaches s (owner s i)) \<noteq> Some i"
    using that listedD(3,4,5)[OF l, of i] i by auto
  then show ?thesis using P F by (auto simp: slab_lost_def Let_def)
qed

text \<open>A slab without used objects has no other object in use.\<close>

lemma all_free:
  assumes ok: "slab_ok s C v i" and len: "length (vF v i) = vN v i" and k: "k < vN v i"
  shows "obj s i k \<in> set (vF v i)"
proof -
  have "card (set (vF v i)) = vN v i" using ok len by (simp add: slab_ok_def distinct_card)
  moreover have "card (obj s i ` {..<vN v i}) \<le> vN v i" by (metis card_image_le card_lessThan finite_lessThan)
  ultimately have "set (vF v i) = obj s i ` {..<vN v i}"
    using ok by (intro card_seteq) (auto simp: slab_ok_def)
  then show ?thesis using k by auto
qed

lemma inj_used:
  assumes inv: "mem_inv s C v"
  shows "inj_on (\<lambda>(i, k). (obj s i k, osz s (owner s i))) (used s v)"
proof (rule inj_onI, clarify)
  fix i k j l assume u: "(i, k) \<in> used s v" "(j, l) \<in> used s v" and eq: "obj s i k = obj s j l"
  have "k < onum s (owner s i)" "l < onum s (owner s j)"
    using u mem_invD(4)[OF inv, of i] mem_invD(4)[OF inv, of j] by (auto simp: used_def slab_ok_def)
  with inv_obj_inj[OF inv, of i k j l] u eq show "i = j \<and> k = l" by (auto simp: used_def)
qed

lemma objs_remove:
  assumes inv: "mem_inv s C v" and u: "(i, k) \<in> used s v" and u': "used s' v' = used s v - {(i, k)}"
    and own: "\<And>j l. (j, l) \<in> used s' v' \<Longrightarrow> owner s' j = owner s j" "\<And>y. o_sz (objcaches s' y) = o_sz (objcaches s y)"
  shows "objs s' v' = objs s v - {(obj s i k, osz s (owner s i))}"
proof -
  have "objs s' v' = (\<lambda>(i, k). (obj s i k, osz s (owner s i))) ` used s' v'"
    unfolding objs_def by (rule image_cong) (auto simp: own(2) dest: own(1))
  then show ?thesis
    unfolding u' objs_def using inj_on_image_set_diff[OF inj_used[OF inv], of "used s v" "{(i, k)}"] u by auto
qed

text \<open>The range test of \<open>do_cache_free\<close> hits an object in use exactly when the object starts at
  \<open>o_ptr_end\<close>.\<close>

lemma guard_iff:
  assumes inv: "mem_inv s C v" and u: "(i, k) \<in> used s v" and x: "x = owner s i"
  shows "o_ptr (objcaches s x) \<le> obj s i k \<and> obj s i k \<le> o_ptr_end (objcaches s x) \<longleftrightarrow> obj s i k = o_ptr_end (objcaches s x)"
proof -
  have i: "i \<in> vS v" "k < vN v i" using u by (auto simp: used_def)
  have ok: "slab_ok s C v i" using mem_invD(4)[OF inv i(1)] .
  have xC: "x \<in> C" and ko: "k < onum s (owner s i)" using ok i(2) by (auto simp: slab_ok_def x)
  have cx: "cache_ok s v x" using mem_invD(3)[OF inv xC] .
  note I = inv_sizes[OF inv i(1) ko]
  have ua: "unat (obj s i k) = 0xc0000000 + 4096 * i + k * osz s x" using I unat_slot[of i k "osz s x"] by (simp add: x)
  show ?thesis
  proof (cases "o_cur (objcaches s x)")
    case None
    then show ?thesis using cx by (auto simp: cache_ok_def)
  next
    case (Some c)
    then have c: "c \<in> vS v" "owner s c = x" "o_ptr (objcaches s x) = slot c (osz s x) (vN v c)"
      "o_ptr_end (objcaches s x) = slot c (osz s x) (onum s x)" "vN v c < onum s x" "onum s x * osz s x \<le> 4096"
      using cx by (auto simp: cache_ok_def)
    have "vN v c < onum s (owner s c)" using c(2,5) by simp
    note J = inv_sizes[OF inv c(1) this]
    have up: "unat (slot c (osz s x) (vN v c)) = 0xc0000000 + 4096 * c + vN v c * osz s x"
      using J c(2) by (intro unat_slot) auto
    have ue: "unat (slot c (osz s x) (onum s x)) = 0xc0000000 + 4096 * c + onum s x * osz s x"
      using J(1) c(6) by (intro unat_slot) auto
    show ?thesis
    proof (cases "i = c")
      case True
      have "Suc k * osz s x \<le> vN v c * osz s x" "vN v c * osz s x \<le> onum s x * osz s x"
        using i(2) c(5) True by (intro mult_le_mono1; simp)+
      moreover have "4 \<le> osz s x" using I(2) x by simp
      ultimately have "unat (obj s i k) < unat (o_ptr (objcaches s x))" "unat (obj s i k) < unat (o_ptr_end (objcaches s x))"
        unfolding c(3,4) mult_Suc using ua up ue True by - linarith+
      then show ?thesis by (auto simp: word_le_nat_alt)
    next
      case False
      have "k * osz s x + osz s x \<le> 4096" using I(3) x by simp
      then have "i < c \<Longrightarrow> unat (obj s i k) < unat (slot c (osz s x) (vN v c))" using ua up I(2) x by simp
      moreover have "c < i \<Longrightarrow> unat (slot c (osz s x) (onum s x)) \<le> unat (obj s i k)" using ua ue c(6) by simp
      moreover have "vN v c * osz s x \<le> onum s x * osz s x" using c(5) by (intro mult_le_mono1) simp
      then have "unat (slot c (osz s x) (vN v c)) \<le> unat (slot c (osz s x) (onum s x))" unfolding up ue by simp
      moreover have "i < c \<or> c < i" using False by auto
      ultimately show ?thesis unfolding c(3,4) word_le_nat_alt word_unat_eq_iff by linarith
    qed
  qed
qed

lemma free_frame:
  assumes inv: "mem_inv s C v" and u: "(i, k) \<in> used s v" and b: "(b, m) \<in> objs s v" "b \<noteq> obj s i k" and r: "r < m"
  shows "\<not> unat (b + of_nat r - obj s i k) < osz s (owner s i)"
proof -
  obtain j l where j: "(j, l) \<in> used s v" "b = obj s j l" "m = osz s (owner s j)" using b(1) by (auto simp: objs_def)
  have "k < onum s (owner s i)" "l < onum s (owner s j)"
    using u j(1) mem_invD(4)[OF inv, of i] mem_invD(4)[OF inv, of j] by (auto simp: used_def slab_ok_def)
  with inv_apart[OF inv, of i k j l r] u j b(2) r show ?thesis by (auto simp: used_def)
qed

lemma do_cache_free_ok:
  assumes inv0: "mem_inv s C v" and pos0: "inuse_pos s (vS v)" and sem: "memsem s = 1" and u: "(i, k) \<in> used s v"
    and K: "vK v = K" "m_gpool s \<in> vP v" and st: "\<forall>x\<in>C. virt_to_page x \<in> K \<or> x \<in> fst ` objs s v"
  defines "x \<equiv> owner s i" and "a \<equiv> obj s i k"
  assumes g: "a \<noteq> o_ptr_end (objcaches s x)" and aC: "a \<notin> C"
  shows "\<exists>s'. do_cache_free x i a s = Some s' \<and> objs_rep K C s' (objs s v - {(a, osz s x)}) \<and> mc s' = mc s \<and>
    (\<forall>y. o_sz (objcaches s' y) = o_sz (objcaches s y)) \<and>
    (\<forall>(b, m)\<in>objs s v. b \<noteq> a \<longrightarrow> (\<forall>r<m. kmem s' (b + of_nat r) = kmem s (b + of_nat r)))"
proof -
  let ?s = "s\<lparr>memsem := 0\<rparr>"
  have inv: "mem_inv ?s C v" using inv0 by simp
  have i: "i \<in> vS v" "k < vN v i" "a \<notin> set (vF v i)" using u by (auto simp: used_def a_def)
  have ok: "slab_ok s C v i" using mem_invD(4)[OF inv0 i(1)] .
  have ko: "k < onum s (owner s i)" and xC: "x \<in> C" using ok i(2) by (auto simp: slab_ok_def x_def)
  have sz: "4 \<le> osz s x" using inv_sizes(2)[OF inv0 i(1) ko] by (simp add: x_def)
  have pos: "c_inuse (slabs s i) \<noteq> 0" using pos0 i(1) by (simp add: inuse_pos_def)
  have le: "\<not> o_num (objcaches s x) < c_inuse (slabs s i)" using ok by (auto simp: slab_ok_def x_def word_less_nat_alt)
  have guard: "\<not> (o_ptr (objcaches s x) \<le> a \<and> a \<le> o_ptr_end (objcaches s x))"
    using guard_iff[OF inv0 u x_def[THEN meta_eq_to_obj_eq]] g by (simp add: a_def)
  have chk: "free_list_check (kmem s) (c_free_list (slabs s i)) a = Some ()"
    using ok i(3) by (intro free_list_check_ok[of _ _ "vF v i"]) (auto simp: slab_ok_def)
  have nil: "c_free_list (slabs s i) = NULL \<longleftrightarrow> vF v i = []" using ok fl_at_Nil by (auto simp: slab_ok_def)
  have full: "c_inuse (slabs s i) = o_num (objcaches s x)" if "vF v i = []" "o_cur (objcaches s x) \<noteq> Some i"
    using ok that by (simp add: slab_ok_def x_def word_unat_eq_iff)
  define v1 where "v1 = v\<lparr>vF := (vF v)(i := a # vF v i), vD := vD v - {i}, vL := if vF v i = [] then
      (vL v)(Full x := remove1 (SlabNode i) (vL v (Full x)), Partials x := SlabNode i # remove1 (SlabNode i) (vL v (Partials x))) else vL v\<rparr>"
  define s1 where "s1 = ?s\<lparr>kmem := write32 (memset (kmem s) a OBJCACHE_POISON_PATTERN (o_sz (objcaches s x))) a (c_free_list (slabs s i)),
      mlinks := if vF v i = [] then list_move (mlinks s) (SlabNode i) (Partials x) else mlinks s,
      slabs := (slabs s)(i := (slabs s i)\<lparr>c_free_list := a, c_inuse := c_inuse (slabs s i) - 1\<rparr>)\<rparr>"
  have inv1: "mem_inv s1 C v1"
  proof -
    have h: "k < vN v i" "obj ?s i k \<notin> set (vF v i)" "c_inuse (slabs ?s i) \<noteq> 0" using i pos by (simp_all add: a_def)
    show ?thesis using push_inv[OF inv i(1) h] unfolding s1_def v1_def a_def x_def by (simp split del: if_split cong: if_cong)
  qed
  have s1: "objcaches s1 = objcaches s" "owner s1 j = owner s j" "memsem s1 = 0" "mc s1 = mc s" for j by (simp_all add: s1_def)
  have m1: "kmem s1 b = kmem s b" if "\<not> unat (b - a) < osz s x" for b
    using that by (simp add: s1_def write32_off[OF sz] memset_off)
  have run: "do_cache_free x i a s = (if c_inuse (slabs s1 i) = 0
      then free_page (s1\<lparr>mlinks := list_del (mlinks s1) (SlabNode i), objcaches := (objcaches s1)(x :=
        if o_cur (objcaches s x) = Some i then (objcaches s x)\<lparr>o_ptr := NULL, o_ptr_end := NULL, o_cur := None\<rparr> else objcaches s x)\<rparr>) (page_address i)
      else Some s1) \<bind> (\<lambda>s. Some (s\<lparr>memsem := sem_up (memsem s)\<rparr>))"
    using pos le guard sem chk nil full
    by (auto simp: do_cache_free_def Let_def O_POISON_def memchunk_put_def s1_def fun_upd_idem)
  have u1: "used s1 v1 = used s v - {(i, k)}"
  proof -
    have inj: "obj s i l = a \<longleftrightarrow> l = k" if "l < vN v i" for l
      using inv_obj_inj[OF inv0 i(1) _ i(1) ko, of l] that ok by (auto simp: slab_ok_def a_def)
    have "(j, l) \<in> used s1 v1 \<longleftrightarrow> (j, l) \<in> used s v - {(i, k)}" for j l
      unfolding used_def s1 using inj[of l] by (cases "j = i") (auto simp: v1_def)
    then show ?thesis by auto
  qed
  have fr1: "kmem s1 (b + of_nat r) = kmem s (b + of_nat r)" if "(b, m) \<in> objs s v" "b \<noteq> a" "r < m" for b m r
    using free_frame[OF inv0 u that(1) _ that(3)] that(2) by (intro m1) (simp add: a_def x_def)
  have inuse1: "unat (c_inuse (slabs s1 i)) + Suc (length (vF v i)) = vN v i"
    using mem_invD(4)[OF inv1, of i] i(1) by (simp add: slab_ok_def v1_def)
  have iv1: "i \<in> vS v1" "i \<notin> vD v1" "vF v1 i \<noteq> []" using i(1) by (simp_all add: v1_def)
  have pos1: "inuse_pos s1 (vS v - {i})" using pos0 by (simp add: inuse_pos_def s1_def)
  have st': "\<forall>y\<in>C. virt_to_page y \<in> K \<or> y \<in> fst ` (objs s v - {(a, osz s x)})"
    using st aC by (fastforce simp: image_iff)
  show ?thesis
  proof (cases "c_inuse (slabs s1 i) = 0")
    case False
    have "inuse_pos s1 (vS v1)" using pos1 False by (auto simp: inuse_pos_def v1_def)
    moreover have "objs s1 v1 = objs s v - {(a, osz s x)}"
      unfolding a_def x_def by (rule objs_remove[OF inv0 u u1]) (simp_all add: s1)
    moreover have "vK v1 = K" "m_gpool s1 \<in> vP v1" using K by (simp_all add: v1_def s1_def m_gpool_def)
    ultimately have "objs_rep K C (s1\<lparr>memsem := 1\<rparr>) (objs s v - {(a, osz s x)})"
      unfolding objs_rep_def using inv1 st' by (intro exI[of _ v1]) (simp add: m_gpool_def)
    then show ?thesis using run False fr1 by (auto simp: s1)
  next
    case True
    define v2 where "v2 = v1\<lparr>vS := vS v1 - {i}, vL := (vL v1)(Partials x := remove1 (SlabNode i) (vL v1 (Partials x))), vQ := vQ v1 @ [i]\<rparr>"
    let ?k = "if o_cur (objcaches s x) = Some i then (objcaches s x)\<lparr>o_ptr := NULL, o_ptr_end := NULL, o_cur := None\<rparr> else objcaches s x"
    obtain s2 where r2: "free_page (s1\<lparr>mlinks := list_del (mlinks s1) (SlabNode i), objcaches := (objcaches s1)(x := ?k)\<rparr>) (page_address i) = Some s2"
      and inv2: "mem_inv s2 C v2" and s2: "slabs s2 = slabs s1" "objcaches s2 = (objcaches s)(x := ?k)" "memsem s2 = 0" "mc s2 = mc s"
      and m2: "kmem s2 = memset (kmem s1) (page_address i) PAGE_POISON_PATTERN PAGE_SIZE"
      using release_inv[OF inv1 iv1] unfolding v2_def s1 x_def[symmetric] by blast
    have sz2: "o_sz (objcaches s2 y) = o_sz (objcaches s y)" for y by (simp add: s2)
    have only: "l = k" if "(i, l) \<in> used s v" for l
    proof -
      have "length (vF v1 i) = vN v1 i" using inuse1 True by (simp add: v1_def)
      then have "(i, l) \<notin> used s1 v1" using all_free[OF mem_invD(4)[OF inv1 iv1(1)], of l] by (auto simp: used_def)
      then show ?thesis using that u1 by auto
    qed
    have own2: "owner s2 j = owner s j" for j by (simp add: s2 s1)
    have u2: "used s2 v2 = used s v - {(i, k)}"
      unfolding u1[symmetric] using only u1 by (auto simp: used_def v2_def sz2 own2 s1)
    have "objs s2 v2 = objs s v - {(a, osz s x)}"
      unfolding a_def x_def by (rule objs_remove[OF inv0 u u2]) (simp_all add: own2 sz2)
    moreover have "inuse_pos s2 (vS v2)" using pos1 by (simp add: inuse_pos_def s2 v2_def v1_def)
    moreover have "vK v2 = K" "m_gpool s2 \<in> vP v2" using K s2(4) by (simp_all add: v2_def v1_def s1_def m_gpool_def)
    ultimately have rep: "objs_rep K C (s2\<lparr>memsem := 1\<rparr>) (objs s v - {(a, osz s x)})"
      unfolding objs_rep_def using inv2 st' by (intro exI[of _ v2]) (simp add: m_gpool_def)
    have "kmem s2 (b + of_nat r) = kmem s (b + of_nat r)" if b: "(b, m) \<in> objs s v" "b \<noteq> a" "r < m" for b m r
    proof -
      obtain j l where j: "(j, l) \<in> used s v" "b = obj s j l" "m = osz s (owner s j)" using b(1) by (auto simp: objs_def)
      then have jS: "j \<in> vS v" "l < onum s (owner s j)" using mem_invD(4)[OF inv0, of j] by (auto simp: used_def slab_ok_def)
      have "j \<noteq> i" using only[of l] j b(2) by (auto simp: a_def)
      then have "\<not> unat (b + of_nat r - page_address i) < 4096"
        unfolding j(2) using inv_sizes[OF inv0 i(1) ko] inv_sizes[OF inv0 jS] b(3) j(3) by (intro page_apart) auto
      then show ?thesis using fr1[OF b] by (simp add: m2 memset_apply page_consts)
    qed
    with rep r2 run True sz2 s2 show ?thesis by auto
  qed
qed

text \<open>\<open>o_ptr_end\<close> of the cache an object belongs to.\<close>

definition obj_end :: "'a memchunk_scheme \<Rightarrow> addr \<Rightarrow> addr" where
  "obj_end s a = o_ptr_end (objcaches s (owner s (virt_to_page a)))"

lemma used_virt:
  assumes "mem_inv s C v" "(i, k) \<in> used s v"
  shows "virt_to_page (obj s i k) = i" "i \<in> vS v" "k < onum s (owner s i)"
  using unat_obj[OF assms(1), of i k] mem_invD(4)[OF assms(1), of i] assms(2) by (auto simp: used_def slab_ok_def)

lemma objs_repE:
  assumes "objs_rep K C s A" "(a, n) \<in> A"
  obtains v i k where "mem_inv s C v" "inuse_pos s (vS v)" "memsem s = 1" "A = objs s v" "vK v = K" "m_gpool s \<in> vP v"
    "\<forall>x\<in>C. virt_to_page x \<in> K \<or> x \<in> fst ` objs s v" "(i, k) \<in> used s v" "a = obj s i k" "n = osz s (owner s i)" "virt_to_page a = i"
proof -
  obtain v where v: "mem_inv s C v" "inuse_pos s (vS v)" "memsem s = 1" "A = objs s v" "vK v = K" "m_gpool s \<in> vP v"
    "\<forall>x\<in>C. virt_to_page x \<in> K \<or> x \<in> fst ` A" using assms(1) by (auto simp: objs_rep_def)
  moreover obtain i k where ik: "(i, k) \<in> used s v" "a = obj s i k" "n = osz s (owner s i)"
    using assms(2) by (auto simp: v(4) objs_def)
  moreover have "virt_to_page a = i" using used_virt(1)[OF v(1) ik(1)] ik(2) by simp
  ultimately show thesis using that by auto
qed

lemma objcache_free_ok:
  assumes rep: "objs_rep K C s A" and a: "(a, n) \<in> A" "a \<notin> C"
  shows "if a = obj_end s a then objcache_free a s = None
    else \<exists>s'. objcache_free a s = Some s' \<and> objs_rep K C s' (A - {(a, n)}) \<and> mc s' = mc s \<and>
      (\<forall>y. o_sz (objcaches s' y) = o_sz (objcaches s y)) \<and>
      (\<forall>(b, m)\<in>A. b \<noteq> a \<longrightarrow> (\<forall>r<m. kmem s' (b + of_nat r) = kmem s (b + of_nat r)))"
proof -
  obtain v i k where v: "mem_inv s C v" "inuse_pos s (vS v)" "memsem s = 1" "A = objs s v" "vK v = K" "m_gpool s \<in> vP v"
    "\<forall>x\<in>C. virt_to_page x \<in> K \<or> x \<in> fst ` objs s v" and u: "(i, k) \<in> used s v" and ai: "a = obj s i k" "n = osz s (owner s i)"
    "virt_to_page a = i"
    using objs_repE[OF rep a(1)] .
  note uv = used_virt[OF v(1) u]
  have "a \<noteq> NULL" using obj_nonnull[OF v(1) uv(2,3)] ai(1) by simp
  moreover have "pg_type (pfa s i) = PG_slab" "pg_count (pfa s i) = 1" using mem_invD(4)[OF v(1) uv(2)] by (simp_all add: slab_ok_def)
  ultimately have run: "objcache_free a s = do_cache_free (owner s i) i a s"
    using slab_lost_no[OF v(1) uv(2)] ai(3) by (simp add: objcache_free_def)
  show ?thesis
  proof (cases "a = obj_end s a")
    case True
    then have "o_ptr (objcaches s (owner s i)) \<le> a \<and> a \<le> o_ptr_end (objcaches s (owner s i))"
      using guard_iff[OF v(1) u refl] ai(1,3) by (simp add: obj_end_def)
    then have "do_cache_free (owner s i) i a s = None" by (simp add: do_cache_free_def)
    with True run show ?thesis by simp
  next
    case False
    then have "a \<noteq> o_ptr_end (objcaches s (owner s i))" by (simp add: obj_end_def ai(3))
    with do_cache_free_ok[OF v(1-3) u v(5-7)] a(2) False show ?thesis unfolding run v(4) ai(2) by (simp add: ai(1))
  qed
qed

lemma objs_apart:
  assumes "objs_rep K C s A" "(a, n) \<in> A" "(b, m) \<in> A" "a \<noteq> b" "r < m"
  shows "\<not> unat (b + of_nat r - a) < n"
proof -
  obtain v i k where v: "mem_inv s C v" "A = objs s v" "(i, k) \<in> used s v" "a = obj s i k" "n = osz s (owner s i)"
    using objs_repE[OF assms(1,2)] .
  show ?thesis using free_frame[OF v(1,3)] assms(3-5) v by simp
qed

lemma objs_size:
  assumes "objs_rep K C s A" "(a, n) \<in> A"
  shows "a \<noteq> NULL" "4 \<le> n" "n \<le> 4096" "unat a + n < 2 ^ 32" "0xc0000000 \<le> unat a"
proof -
  obtain v i k where v: "mem_inv s C v" "(i, k) \<in> used s v" "a = obj s i k" "n = osz s (owner s i)"
    using objs_repE[OF assms] .
  note uv = used_virt[OF v(1,2)]
  note z = inv_sizes[OF v(1) uv(2,3)]
  show "a \<noteq> NULL" using obj_nonnull[OF v(1) uv(2,3)] v(3) by simp
  show "4 \<le> n" "n \<le> 4096" using z v(4) by auto
  have "unat a = 0xc0000000 + 4096 * i + k * n" using unat_slot[of i k n] z v(3,4) by simp
  then show "unat a + n < 2 ^ 32" "0xc0000000 \<le> unat a" using z v(4) by auto
qed

lemma mem_inv_kmem:
  assumes inv: "mem_inv s C v" and m: "\<And>j. j \<in> vS v \<Longrightarrow> fl_at m (c_free_list (slabs s j)) (vF v j)"
  shows "mem_inv (s\<lparr>kmem := m\<rparr>) C v" "objs (s\<lparr>kmem := m\<rparr>) v = objs s v"
proof -
  have slab: "slab_ok (s\<lparr>kmem := m\<rparr>) C v j" if "j \<in> vS v" for j
    using mem_invD(4)[OF inv that] m[OF that] by (simp add: slab_ok_def)
  have cache: "cache_ok (s\<lparr>kmem := m\<rparr>) v x = cache_ok s v x" for x by (rule cache_ok_cong) simp_all
  show "mem_inv (s\<lparr>kmem := m\<rparr>) C v"
    unfolding mem_inv_def
  proof (intro conjI ballI)
    show "buddy_rep (s\<lparr>kmem := m\<rparr>) (vQ v)" by (rule buddy_rep_cong[OF mem_invD(1)[OF inv]]) simp_all
  qed (use slab cache mem_invD[OF inv] in simp_all)
  show "objs (s\<lparr>kmem := m\<rparr>) v = objs s v" by (simp add: objs_def used_def)
qed

text \<open>Writing inside objects in use keeps the representation.\<close>

lemma objs_store:
  assumes rep: "objs_rep K C s A" and a: "(a, n) \<in> A" and m: "\<And>b. \<not> unat (b - a) < n \<Longrightarrow> m b = kmem s b"
  shows "objs_rep K C (s\<lparr>kmem := m\<rparr>) A"
proof -
  obtain v i k where v: "mem_inv s C v" "inuse_pos s (vS v)" "memsem s = 1" "A = objs s v" "vK v = K" "m_gpool s \<in> vP v"
    "\<forall>x\<in>C. virt_to_page x \<in> K \<or> x \<in> fst ` objs s v" and u: "(i, k) \<in> used s v" and ai: "a = obj s i k" "n = osz s (owner s i)"
    using objs_repE[OF rep a] .
  note uv = used_virt[OF v(1) u]
  have "fl_at m (c_free_list (slabs s j)) (vF v j)" if j: "j \<in> vS v" for j
  proof -
    have "obj s i k \<notin> set (vF v j)"
      using obj_not_free[OF v(1) uv(2,3) j] u by (cases "j = i") (auto simp: used_def)
    then have "fl_at m p (vF v j) = fl_at (kmem s) p (vF v j)" for p
      using inv_free_objs[OF v(1) j] m ai by (intro fl_frame[OF v(1) uv(2,3) j]) auto
    then show ?thesis using mem_invD(4)[OF v(1) j] by (simp add: slab_ok_def)
  qed
  note K = mem_inv_kmem[OF v(1) this]
  show ?thesis unfolding objs_rep_def using v K by (intro exI[of _ v]) (simp add: inuse_pos_def m_gpool_def)
qed

lemma obj_page:
  assumes inv: "mem_inv s C v" and i: "i \<in> vS v" "k < onum s (owner s i)" and b: "unat (b - obj s i k) < osz s (owner s i)"
  shows "virt_to_page b = i"
proof -
  note z = inv_sizes[OF inv i]
  have u: "unat (obj s i k) = 0xc0000000 + 4096 * i + k * osz s (owner s i)" using z by (intro unat_slot) auto
  then have "unat (obj s i k) \<le> unat b" "unat b < unat (obj s i k) + osz s (owner s i)"
    using b z unat_diff_less[of "obj s i k" "osz s (owner s i)" b] by auto
  then have "unat b = 0xc0000000 + 4096 * i + (k * osz s (owner s i) + (unat b - unat (obj s i k)))"
    "unat b - unat (obj s i k) < osz s (owner s i)" using u by linarith+
  then show ?thesis using z by (intro virt_to_page_eq[of i b "k * osz s (owner s i) + (unat b - unat (obj s i k))"]) auto
qed

text \<open>The kernel image has no objects, so that stores there do not concern the caches.\<close>

lemma objs_not_image:
  assumes rep: "objs_rep K C s A" and a: "(a, n) \<in> A" and b: "virt_to_page b \<in> K"
  shows "\<not> unat (b - a) < n"
proof -
  obtain v i k where v: "mem_inv s C v" "vK v = K" "(i, k) \<in> used s v" "a = obj s i k" "n = osz s (owner s i)"
    using objs_repE[OF rep a] .
  note uv = used_virt[OF v(1,3)]
  show ?thesis using obj_page[OF v(1) uv(2,3), of b] b mem_invD(7)[OF v(1)] uv(2) v by blast
qed

lemma objs_image_store:
  assumes rep: "objs_rep K C s A" and m: "\<And>a. virt_to_page a \<notin> K \<Longrightarrow> m a = kmem s a"
  shows "objs_rep K C (s\<lparr>kmem := m\<rparr>) A"
proof -
  obtain v where v: "mem_inv s C v" "inuse_pos s (vS v)" "memsem s = 1" "A = objs s v" "vK v = K" "m_gpool s \<in> vP v"
    "\<forall>x\<in>C. virt_to_page x \<in> K \<or> x \<in> fst ` objs s v" using rep by (auto simp: objs_rep_def)
  have "fl_at m (c_free_list (slabs s j)) (vF v j)" if j: "j \<in> vS v" for j
  proof -
    have "read32 m q = read32 (kmem s) q" if q: "q \<in> set (vF v j)" for q
    proof (rule read32_cong)
      fix r :: addr assume "r < 4"
      obtain k where k: "k < onum s (owner s j)" "q = obj s j k" using inv_free_objs[OF v(1) j] q by auto
      have "virt_to_page (q + r) = j" using obj_page[OF v(1) j k(1), of "q + r"] k(2) inv_sizes(2)[OF v(1) j k(1)] \<open>r < 4\<close>
        by (simp add: word_less_nat_alt)
      then show "m (q + r) = kmem s (q + r)" using mem_invD(7)[OF v(1)] v(5) j by (intro m) auto
    qed
    from fl_at_cong[OF this, of "vF v j"] show ?thesis using mem_invD(4)[OF v(1) j] by (simp add: slab_ok_def)
  qed
  note K = mem_inv_kmem[OF v(1) this]
  show ?thesis unfolding objs_rep_def using v K by (intro exI[of _ v]) (simp add: inuse_pos_def m_gpool_def)
qed

lemma truncate_sel:
  "pfa (memchunk.truncate s) = pfa s" "nr_physpages (memchunk.truncate s) = nr_physpages s" "nr_freepages (memchunk.truncate s) = nr_freepages s"
  "free_links (memchunk.truncate s) = free_links s" "pagesem (memchunk.truncate s) = pagesem s" "kmem (memchunk.truncate s) = kmem s"
  "slabs (memchunk.truncate s) = slabs s" "objcaches (memchunk.truncate s) = objcaches s" "mempools (memchunk.truncate s) = mempools s"
  "mlinks (memchunk.truncate s) = mlinks s" "memsem (memchunk.truncate s) = memsem s" "mc (memchunk.truncate s) = mc s"
  by (simp_all add: memchunk.truncate_def)

lemma objs_rep_truncate: "objs_rep K C s A = objs_rep K C (memchunk.truncate s) A"
  unfolding objs_rep_def mem_inv_def slab_ok_def cache_ok_def objs_def used_def inuse_pos_def m_gpool_def buddy_rep_def truncate_sel ..

lemma objs_rep_client:
  "memchunk.truncate s' = memchunk.truncate s \<Longrightarrow> objs_rep K C s' A = objs_rep K C s A"
  using objs_rep_truncate[of K C s A] objs_rep_truncate[of K C s' A] by simp

subsection \<open>Setting up caches\<close>

lemma do_cache_init_inv:
  assumes inv: "mem_inv s C v" and x: "x \<notin> C" "x \<noteq> NULL" and z: "4 \<le> unat z" "unat z \<le> 4096" and p: "p \<in> vP v"
  defines "v' \<equiv> v\<lparr>vL := (vL v)(Partials x := [], Full x := [], PCaches p := vL v (PCaches p) @ [OList x])\<rparr>"
  shows "\<exists>s'. do_cache_init p x label z s = Some s' \<and> mem_inv s' (insert x C) v' \<and> slabs s' = slabs s \<and> kmem s' = kmem s \<and>
    memsem s' = memsem s \<and> mc s' = mc s \<and> (\<forall>y. y \<noteq> x \<longrightarrow> objcaches s' y = objcaches s y) \<and> o_sz (objcaches s' x) = z"
proof -
  note l = mem_invD(6)[OF inv] and lr = mem_invD(5)[OF inv]
  have z0: "z \<noteq> 0" using z(1) by auto
  let ?k = "(objcaches s x)\<lparr>o_sz := z, o_num := PAGE_SIZE div z, o_ptr := NULL, o_ptr_end := NULL, o_cur := None, o_pool := p, o_label := label\<rparr>"
  let ?L1 = "INIT_LIST_HEAD (mlinks s) (Partials x)" let ?L2 = "INIT_LIST_HEAD ?L1 (Full x)"
  let ?L = "list_add_tail ?L2 (OList x) (PCaches p)"
  let ?s = "s\<lparr>objcaches := (objcaches s)(x := ?k), mlinks := ?L\<rparr>"
  have run: "do_cache_init p x label z s = Some ?s" using z0 by (simp add: do_cache_init_def Let_def)
  have fresh: "Partials x \<notin> set (vL v h)" "Full x \<notin> set (vL v h)" "OList x \<notin> set (vL v h)" if h: "h \<in> slab_heads C v" for h
  proof -
    have "set (vL v h) \<subseteq> range SlabNode \<union> OList ` C" using list_members[OF l h] by blast
    then show "Partials x \<notin> set (vL v h)" "Full x \<notin> set (vL v h)" "OList x \<notin> set (vL v h)" using x(1) by auto
  qed
  have nh: "Partials x \<notin> slab_heads C v" "Full x \<notin> slab_heads C v" "OList x \<notin> slab_heads C v"
    using x(1) by (auto simp: slab_heads_def)
  have h': "slab_heads (insert x C) v' = insert (Full x) (insert (Partials x) (slab_heads C v))"
    by (auto simp: slab_heads_def v'_def)
  have "lists_rep ?L1 (insert (Partials x) (slab_heads C v)) ((vL v)(Partials x := []))"
    by (rule lh.rep_init[OF lr nh(1)]) (rule fresh(1))
  then have "lists_rep ?L2 (insert (Full x) (insert (Partials x) (slab_heads C v))) ((vL v)(Partials x := [], Full x := []))"
    by (rule lh.rep_init) (use nh fresh(2) in auto)
  then have "lists_rep ?L (insert (Full x) (insert (Partials x) (slab_heads C v)))
      ((vL v)(Partials x := [], Full x := [], PCaches p := ((vL v)(Partials x := [], Full x := [])) (PCaches p) @ [OList x]))"
    by (rule lh.rep_add_tail) (use p nh fresh(3) in auto)
  then have lists: "lists_rep (mlinks ?s) (slab_heads (insert x C) v') (vL v')" unfolding h' by (simp add: v'_def)
  have own: "owner s i \<noteq> x" if "i \<in> vS v" for i using mem_invD(4)[OF inv that] x(1) by (auto simp: slab_ok_def)
  have slabs: "slab_ok ?s (insert x C) v' i" if i: "i \<in> vS v" for i
    using mem_invD(4)[OF inv i] own[OF i] by (simp add: slab_ok_def v'_def)
  have caches: "cache_ok ?s v' y" if y: "y \<in> insert x C" for y
  proof (cases "y = x")
    case True
    then show ?thesis using x(2) z by (simp add: cache_ok_def page_consts unat_div_distrib)
  next
    case False
    then have "y \<in> C" using y by simp
    then show ?thesis using mem_invD(3)[OF inv, of y] cache_ok_cong[of ?s y s v' v] False by (simp add: v'_def)
  qed
  have listed: "listed (insert x C) v' (\<lambda>x. o_cur (objcaches ?s x)) (owner ?s)"
  proof -
    have cu: "o_cur (objcaches ?s (owner s i)) = o_cur (objcaches s (owner s i))" if "i \<in> vS v" for i using own[OF that] by simp
    have keep: "vL v' (Partials y) = vL v (Partials y)" "vL v' (Full y) = vL v (Full y)" if "y \<noteq> x" for y using that by (simp_all add: v'_def)
    have new: "vL v' (Partials x) = []" "vL v' (Full x) = []" by (simp_all add: v'_def)
    have A: "\<exists>j\<in>vS v'. n = SlabNode j \<and> owner ?s j = y \<and> (vF v' j \<noteq> [] \<or> o_cur (objcaches ?s y) = Some j)"
      if "y \<in> insert x C" "n \<in> set (vL v' (Partials y))" for y n
      using listedD(1)[OF l, of y n] that keep(1)[of y] new by (cases "y = x") (auto simp: v'_def)
    have B: "\<exists>j\<in>vS v'. n = SlabNode j \<and> owner ?s j = y \<and> vF v' j = [] \<and> o_cur (objcaches ?s y) \<noteq> Some j"
      if "y \<in> insert x C" "n \<in> set (vL v' (Full y))" for y n
      using listedD(2)[OF l, of y n] that keep(2)[of y] new by (cases "y = x") (auto simp: v'_def)
    have D: "if vF v' j = [] \<and> o_cur (objcaches ?s (owner ?s j)) \<noteq> Some j then SlabNode j \<in> set (vL v' (Full (owner ?s j)))
        else SlabNode j \<in> set (vL v' (Partials (owner ?s j)))" if "j \<in> vS v' - vD v'" for j
    proof -
      have j: "j \<in> vS v" "j \<notin> vD v" using that by (simp_all add: v'_def)
      show ?thesis using listedD(3,4)[OF l j] keep[OF own[OF j(1)]] cu[OF j(1)] by (simp add: v'_def)
    qed
    have E: "j \<in> vS v' \<and> vF v' j = [] \<and> o_cur (objcaches ?s (owner ?s j)) = Some j \<and> vL v' (SlabNode j) = []"
      if "j \<in> vD v'" for j
      using that listedD(5)[OF l, of j] cu[of j] by (simp add: v'_def)
    have G: "set (vL v' (PCaches q)) \<subseteq> OList ` insert x C" if "q \<in> vP v'" for q
      using that listedD(6)[OF l, of q] by (auto simp: v'_def)
    show ?thesis unfolding listed_def by (intro conjI ballI A B D E G)
  qed
  have "mem_inv ?s (insert x C) v'"
    unfolding mem_inv_def
  proof (intro conjI ballI)
    show "buddy_rep ?s (vQ v')" using buddy_rep_cong[OF mem_invD(1)[OF inv], of ?s] by (simp add: v'_def)
    show "unat (nr_physpages ?s) < 2 ^ 18 - 1" using mem_invD(2)[OF inv] by simp
  qed (use caches slabs lists listed mem_invD(7)[OF inv] in \<open>simp_all add: v'_def\<close>)
  with run show ?thesis by (intro exI[of _ ?s]) simp
qed

lemma objcache_init_ok:
  assumes rep: "objs_rep K C s A" and self: "m_self_cache s \<in> C" "osz s (m_self_cache s) = unat sizeof_objcache"
    and z: "unat z \<le> 4096" "z \<noteq> 0" and pool: "pool = NULL \<or> pool = m_gpool s"
  shows "case objcache_init pool label z s of None \<Rightarrow> nr_freepages s = 0
    | Some (s', x) \<Rightarrow> x \<noteq> NULL \<and> x \<notin> C \<and> x \<notin> fst ` A \<and> objs_rep K (insert x C) s' (insert (x, unat sizeof_objcache) A) \<and> mc s' = mc s \<and>
        osz s' x = max 4 (unat z) \<and> (\<forall>y\<in>C. o_sz (objcaches s' y) = o_sz (objcaches s y)) \<and>
        (\<forall>b. \<not> unat (b - x) < unat sizeof_objcache \<longrightarrow> kmem s' b = kmem s b)"
proof -
  let ?z = "if z < 4 then 4 else z"
  have zz: "4 \<le> unat ?z" "unat ?z \<le> 4096" "unat ?z = max 4 (unat z)" using z by (auto simp: word_less_nat_alt)
  have nz: "\<not> PAGE_SIZE < z" using z(1) by (simp add: word_less_nat_alt page_consts)
  have run: "objcache_init pool label z s = do {
       (s, x) \<leftarrow> do_alloc (m_self_cache s) s;
       if x = NULL then Some (s, NULL)
       else do {
         s \<leftarrow> do_cache_init (if pool = NULL then m_gpool s else pool) x label ?z s;
         Some (s, x)
       }
     }" using nz z(2) by (simp add: objcache_init_def objcache_alloc_def Let_def cong: if_cong)
  show ?thesis
  proof (cases "do_alloc (m_self_cache s) s")
    case None
    then show ?thesis using do_alloc_ok[OF rep self(1)] run by simp
  next
    case (Some r)
    obtain s1 x where r: "r = (s1, x)" by (cases r)
    have x: "x \<noteq> NULL" "x \<notin> fst ` A" "x \<notin> C" and rep1: "objs_rep K C s1 (insert (x, unat sizeof_objcache) A)"
      and mc1: "mc s1 = mc s" and sz1: "\<forall>y. o_sz (objcaches s1 y) = o_sz (objcaches s y)"
      and fr: "\<forall>b. \<not> unat (b - x) < unat sizeof_objcache \<longrightarrow> kmem s1 b = kmem s b"
      using do_alloc_ok[OF rep self(1)] self(2) by (simp_all add: Some r)
    obtain v where v: "mem_inv s1 C v" "inuse_pos s1 (vS v)" "memsem s1 = 1" "insert (x, unat sizeof_objcache) A = objs s1 v" "vK v = K" "m_gpool s1 \<in> vP v"
      "\<forall>y\<in>C. virt_to_page y \<in> K \<or> y \<in> fst ` insert (x, unat sizeof_objcache) A" using rep1 unfolding objs_rep_def by blast
    have xin: "x \<in> fst ` objs s1 v" unfolding v(4)[symmetric] by simp
    have pool': "(if pool = NULL then m_gpool s1 else pool) = m_gpool s1" using pool mc1 by (auto simp: m_gpool_def)
    define v' where "v' = v\<lparr>vL := (vL v)(Partials x := [], Full x := [], PCaches (m_gpool s1) := vL v (PCaches (m_gpool s1)) @ [OList x])\<rparr>"
    obtain s2 where s2: "do_cache_init (m_gpool s1) x label ?z s1 = Some s2" "mem_inv s2 (insert x C) v'" "slabs s2 = slabs s1" "kmem s2 = kmem s1"
      "memsem s2 = memsem s1" "mc s2 = mc s1" "\<forall>y. y \<noteq> x \<longrightarrow> objcaches s2 y = objcaches s1 y" "o_sz (objcaches s2 x) = ?z"
      using do_cache_init_inv[OF v(1) x(3,1) zz(1,2) v(6), of label] unfolding v'_def by blast
    have own: "owner s1 i \<noteq> x" if "i \<in> vS v" for i using mem_invD(4)[OF v(1) that] x(3) by (auto simp: slab_ok_def)
    have u: "used s2 v' = used s1 v" using own s2(3,7) by (auto simp: used_def v'_def)
    have "objs s2 v' = objs s1 v" unfolding objs_def u by (rule image_cong) (use own s2(3,7) in \<open>auto simp: used_def\<close>)
    then have "objs_rep K (insert x C) s2 (insert (x, unat sizeof_objcache) A)"
      unfolding objs_rep_def using s2 v xin by (intro exI[of _ v']) (auto simp: inuse_pos_def v'_def m_gpool_def)
    moreover have "o_sz (objcaches s2 y) = o_sz (objcaches s y)" if "y \<in> C" for y
    proof -
      have "y \<noteq> x" using that x(3) by auto
      then show ?thesis using s2(7) sz1 by simp
    qed
    moreover have "objcache_init pool label z s = Some (s2, x)" unfolding run using x(1) s2(1) pool' by (simp add: Some r)
    moreover have "osz s2 x = max 4 (unat z)" using s2(8) zz(3) by simp
    ultimately show ?thesis using x fr mc1 s2 by simp
  qed
qed

lemma memchunk_init_ok:
  assumes B: "buddy_rep s Q" "unat (nr_physpages s) < 2 ^ 18 - 1" and sem: "memsem s = 1" and K: "K \<inter> set Q = {}"
    and st: "m_self_cache s \<noteq> NULL" "m_pool_cache s \<noteq> NULL" "virt_to_page (m_self_cache s) \<in> K" "virt_to_page (m_pool_cache s) \<in> K"
  shows "\<exists>s'. memchunk_init g_str o_str p_str s = Some s' \<and> objs_rep K {m_self_cache s, m_pool_cache s} s' {} \<and>
    mc s' = mc s \<and> osz s' (m_self_cache s) = unat sizeof_objcache \<and> osz s' (m_pool_cache s) = unat sizeof_mempool \<and> kmem s' = kmem s"
proof -
  let ?L = "INIT_LIST_HEAD (INIT_LIST_HEAD (mlinks s) MPools) (PCaches (m_gpool s))"
  define s0 where "s0 = s\<lparr>mlinks := ?L, mempools := (mempools s)(m_gpool s := (mempools s (m_gpool s))\<lparr>p_label := g_str\<rparr>)\<rparr>"
  define v where "v = \<lparr>vS = {}, vF = \<lambda>_. [], vN = \<lambda>_. 0, vL = \<lambda>_. [], vD = {}, vP = {m_gpool s}, vK = K, vQ = Q\<rparr>"
  have mc0: "m_gpool s0 = m_gpool s" "m_self_cache s0 = m_self_cache s" "m_pool_cache s0 = m_pool_cache s"
    by (simp_all add: s0_def m_gpool_def m_self_cache_def m_pool_cache_def)
  have ne: "m_pool_cache s \<noteq> m_self_cache s" by (simp add: m_pool_cache_def sizeof_objcache_def)
  have "lists_rep (INIT_LIST_HEAD (mlinks s) MPools) {} (\<lambda>_. [])" by (simp add: lists_rep_def)
  from lh.rep_init[OF this, of "PCaches (m_gpool s)"] have "lists_rep ?L {PCaches (m_gpool s)} (\<lambda>_. [])" by (simp add: fun_upd_idem)
  then have inv: "mem_inv s0 {} v"
    unfolding mem_inv_def using B K buddy_rep_cong[OF B(1), of s0] by (simp add: v_def slab_heads_def listed_def s0_def)
  have g: "m_gpool s \<in> vP v" by (simp add: v_def)
  obtain s1 where s1: "do_cache_init (m_gpool s) (m_self_cache s) o_str sizeof_objcache s0 = Some s1"
    "mem_inv s1 {m_self_cache s} (v\<lparr>vL := (vL v)(Partials (m_self_cache s) := [], Full (m_self_cache s) := [], PCaches (m_gpool s) := vL v (PCaches (m_gpool s)) @ [OList (m_self_cache s)])\<rparr>)"
    "slabs s1 = slabs s0" "kmem s1 = kmem s0" "memsem s1 = memsem s0" "mc s1 = mc s0" "o_sz (objcaches s1 (m_self_cache s)) = sizeof_objcache"
    using do_cache_init_inv[OF inv, of "m_self_cache s" sizeof_objcache "m_gpool s" o_str] st(1) g by (auto simp: sizeof_objcache_def)
  let ?v1 = "v\<lparr>vL := (vL v)(Partials (m_self_cache s) := [], Full (m_self_cache s) := [], PCaches (m_gpool s) := vL v (PCaches (m_gpool s)) @ [OList (m_self_cache s)])\<rparr>"
  obtain s2 v2 where s2: "do_cache_init (m_gpool s) (m_pool_cache s) p_str sizeof_mempool s1 = Some s2"
    "mem_inv s2 {m_pool_cache s, m_self_cache s} v2" "vS v2 = {}" "vP v2 = {m_gpool s}" "vK v2 = K"
    "slabs s2 = slabs s1" "kmem s2 = kmem s1" "memsem s2 = memsem s1" "mc s2 = mc s1"
    "\<forall>y. y \<noteq> m_pool_cache s \<longrightarrow> objcaches s2 y = objcaches s1 y" "o_sz (objcaches s2 (m_pool_cache s)) = sizeof_mempool"
    using do_cache_init_inv[OF s1(2), of "m_pool_cache s" sizeof_mempool "m_gpool s" p_str] st(2) ne by (auto simp: sizeof_mempool_def v_def)
  have mcs: "mc s2 = mc s" using s1(6) s2(9) by (simp add: s0_def)
  have "objs s2 v2 = {}" by (simp add: objs_def used_def s2(3))
  moreover have "m_gpool s2 \<in> vP v2" using mcs s2(4) by (simp add: m_gpool_def)
  moreover have "memsem s2 = 1" using s2(8) s1(5) sem by (simp add: s0_def)
  ultimately have "objs_rep K {m_self_cache s, m_pool_cache s} s2 {}"
    unfolding objs_rep_def using s2(2,3,5) st(3,4) by (intro exI[of _ v2]) (simp add: inuse_pos_def insert_commute)
  moreover have "memchunk_init g_str o_str p_str s = Some s2"
    using s1(1,6) s2(1) by (simp add: memchunk_init_def s0_def m_gpool_def m_self_cache_def m_pool_cache_def)
  moreover have "kmem s2 = kmem s" using s2(7) s1(4) by (simp add: s0_def)
  ultimately show ?thesis using mcs s2(10,11) s1(7) ne by auto
qed

lemma objcache_alloc0_ok:
  assumes rep: "objs_rep K C s A" and x: "x \<in> C"
  shows "case objcache_alloc0 x s of None \<Rightarrow> nr_freepages s = 0
    | Some (s', a) \<Rightarrow> a \<noteq> NULL \<and> a \<notin> fst ` A \<and> a \<notin> C \<and> objs_rep K C s' (insert (a, osz s x) A) \<and> mc s' = mc s \<and>
        (\<forall>y. o_sz (objcaches s' y) = o_sz (objcaches s y)) \<and> (\<forall>r<osz s x. kmem s' (a + of_nat r) = 0) \<and>
        (\<forall>b. \<not> unat (b - a) < osz s x \<longrightarrow> kmem s' b = kmem s b)"
proof (cases "do_alloc x s")
  case None
  then show ?thesis using do_alloc_ok[OF rep x] by (simp add: objcache_alloc0_def)
next
  case (Some r)
  obtain s1 a where r: "r = (s1, a)" by (cases r)
  have a: "a \<noteq> NULL" "a \<notin> fst ` A" "a \<notin> C" "objs_rep K C s1 (insert (a, osz s x) A)" "mc s1 = mc s"
    "\<forall>y. o_sz (objcaches s1 y) = o_sz (objcaches s y)" "\<forall>b. \<not> unat (b - a) < osz s x \<longrightarrow> kmem s1 b = kmem s b"
    using do_alloc_ok[OF rep x] by (simp_all add: Some r)
  let ?s = "s1\<lparr>kmem := memset (kmem s1) a 0 (o_sz (objcaches s1 x))\<rparr>"
  have "osz s x \<le> 4096" using objs_size(3)[OF a(4), of a "osz s x"] by simp
  then have "kmem ?s (a + of_nat r) = 0" if "r < osz s x" for r
    using that a(6) by (simp add: memset_apply unat_of_nat take_bit_nat_eq_self)
  moreover have "objs_rep K C ?s (insert (a, osz s x) A)"
    by (rule objs_store[OF a(4), of a "osz s x"]) (use a(6) in \<open>simp_all add: memset_apply\<close>)
  moreover have "kmem ?s b = kmem s b" if "\<not> unat (b - a) < osz s x" for b using that a(6,7) by (simp add: memset_apply)
  moreover have "objcache_alloc0 x s = Some (?s, a)" using a(1) by (simp add: objcache_alloc0_def Some r)
  ultimately show ?thesis using a by simp
qed

subsection \<open>The contract of the object caches\<close>

text \<open>
  A client allocates objects, frees objects it holds and stores into them. \<open>run_objs\<close> runs such a
  sequence and follows the set of objects in use; it refuses a free or a store outside that set.
\<close>

datatype obj_op = OAlloc addr | OFree addr | OStore addr nat u8

fun run_objs :: "('s \<Rightarrow> addr \<Rightarrow> nat) \<Rightarrow> (addr \<Rightarrow> 's \<Rightarrow> ('s \<times> addr) option) \<Rightarrow> (addr \<Rightarrow> 's \<Rightarrow> 's option) \<Rightarrow>
    (addr \<Rightarrow> u8 \<Rightarrow> 's \<Rightarrow> 's) \<Rightarrow> addr set \<Rightarrow> obj_op list \<Rightarrow> 's \<times> (addr \<times> nat) set \<Rightarrow> ('s \<times> (addr \<times> nat) set) option" where
  "run_objs sz alloc free store C [] (s, A) = Some (s, A)"
| "run_objs sz alloc free store C (OAlloc x # ops) (s, A) =
     (if x \<in> C then do {
        (s', a) \<leftarrow> alloc x s;
        run_objs sz alloc free store C ops (s', insert (a, sz s x) A)
      } else None)"
| "run_objs sz alloc free store C (OFree a # ops) (s, A) =
     (if a \<in> fst ` A \<and> a \<notin> C then do {
        s \<leftarrow> free a s;
        run_objs sz alloc free store C ops (s, {p \<in> A. fst p \<noteq> a})
      } else None)"
| "run_objs sz alloc free store C (OStore a r w # ops) (s, A) =
     (if \<exists>(b, n)\<in>A. b = a \<and> r < n then run_objs sz alloc free store C ops (store (a + of_nat r) w s, A) else None)"

fun touches :: "addr \<Rightarrow> obj_op \<Rightarrow> bool" where
  "touches a (OAlloc x) \<longleftrightarrow> False"
| "touches a (OFree b) \<longleftrightarrow> a = b"
| "touches a (OStore b r w) \<longleftrightarrow> a = b"

locale object_allocator =
  fixes rep :: "'s \<Rightarrow> (addr \<times> nat) set \<Rightarrow> bool"
    and caches :: "addr set"
    and sz :: "'s \<Rightarrow> addr \<Rightarrow> nat"
    and alloc :: "addr \<Rightarrow> 's \<Rightarrow> ('s \<times> addr) option"
    and free :: "addr \<Rightarrow> 's \<Rightarrow> 's option"
    and store :: "addr \<Rightarrow> u8 \<Rightarrow> 's \<Rightarrow> 's"
    and mem :: "'s \<Rightarrow> mem"
  assumes alloc_law: "rep s A \<Longrightarrow> x \<in> caches \<Longrightarrow> alloc x s = Some (s', a) \<Longrightarrow>
      a \<noteq> NULL \<and> a \<notin> fst ` A \<and> rep s' (insert (a, sz s x) A) \<and> (\<forall>b. \<not> unat (b - a) < sz s x \<longrightarrow> mem s' b = mem s b)"
    and free_law: "rep s A \<Longrightarrow> (a, n) \<in> A \<Longrightarrow> a \<notin> caches \<Longrightarrow> free a s = Some s' \<Longrightarrow>
      rep s' (A - {(a, n)}) \<and> (\<forall>(b, m)\<in>A. b \<noteq> a \<longrightarrow> (\<forall>r<m. mem s' (b + of_nat r) = mem s (b + of_nat r)))"
    and store_law: "rep s A \<Longrightarrow> (a, n) \<in> A \<Longrightarrow> r < n \<Longrightarrow> rep (store (a + of_nat r) w s) A"
    and mem_store: "mem (store b w s) = (mem s)(b := w)"
    and apart: "rep s A \<Longrightarrow> (a, n) \<in> A \<Longrightarrow> (b, m) \<in> A \<Longrightarrow> a \<noteq> b \<Longrightarrow> r < m \<Longrightarrow> \<not> unat (b + of_nat r - a) < n"
    and bounded: "rep s A \<Longrightarrow> (a, n) \<in> A \<Longrightarrow> n \<le> 4096"
    and one_size: "rep s A \<Longrightarrow> (a, n) \<in> A \<Longrightarrow> (a, m) \<in> A \<Longrightarrow> n = m"
begin

lemma offset_inside: "rep s A \<Longrightarrow> (a, n) \<in> A \<Longrightarrow> r < n \<Longrightarrow> unat (a + of_nat r - a) < n"
  by (drule (1) bounded) (simp add: unat_of_nat take_bit_nat_eq_self)

lemma alloc_keeps:
  assumes "rep s A" "x \<in> caches" "alloc x s = Some (s', b)" "(a, n) \<in> A" "r < n"
  shows "mem s' (a + of_nat r) = mem s (a + of_nat r)"
proof -
  note L = alloc_law[OF assms(1-3)]
  have "a \<noteq> b" using L assms(4) by force
  then have "\<not> unat (a + of_nat r - b) < sz s x"
    using apart[of s' "insert (b, sz s x) A" b "sz s x" a n r] L assms(4,5) by auto
  then show ?thesis using L by blast
qed

lemma untouched:
  assumes "rep s A" "run_objs sz alloc free store caches ops (s, A) = Some (s', A')" "(a, n) \<in> A"
    "\<forall>op\<in>set ops. \<not> touches a op"
  shows "rep s' A' \<and> (a, n) \<in> A' \<and> (\<forall>r<n. mem s' (a + of_nat r) = mem s (a + of_nat r))"
  using assms
proof (induction ops arbitrary: s A)
  case Nil
  then show ?case by simp
next
  case (Cons oper ops)
  show ?case
  proof (cases oper)
    case (OAlloc x)
    obtain s1 b where b: "x \<in> caches" "alloc x s = Some (s1, b)" "run_objs sz alloc free store caches ops (s1, insert (b, sz s x) A) = Some (s', A')"
      using Cons.prems(2) OAlloc by (auto simp: bind_eq_Some_conv split: if_splits)
    have "rep s1 (insert (b, sz s x) A)" using alloc_law[OF Cons.prems(1) b(1,2)] by blast
    from Cons.IH[OF this b(3)] Cons.prems(3,4) alloc_keeps[OF Cons.prems(1) b(1,2) Cons.prems(3)] show ?thesis by simp
  next
    case (OFree b)
    have run: "b \<in> fst ` A" "b \<notin> caches" "Option.bind (free b s) (\<lambda>s. run_objs sz alloc free store caches ops (s, {p \<in> A. fst p \<noteq> b})) = Some (s', A')"
      using Cons.prems(2) unfolding OFree by (simp_all split: if_splits)
    obtain s1 where s1: "free b s = Some s1" "run_objs sz alloc free store caches ops (s1, {p \<in> A. fst p \<noteq> b}) = Some (s', A')"
      using run(3) unfolding bind_eq_Some_conv by blast
    obtain m where "(b, m) \<in> A" using run(1) by fastforce
    note b = this run(2) s1
    note L = free_law[OF Cons.prems(1) b(1-3)]
    have "{p \<in> A. fst p \<noteq> b} = A - {(b, m)}" 
    proof -
      have "fst p \<noteq> b \<longleftrightarrow> p \<noteq> (b, m)" if "p \<in> A" for p
        using one_size[OF Cons.prems(1) b(1), of "snd p"] that by (cases p) fastforce
      then show ?thesis by blast
    qed
    moreover have "a \<noteq> b" using Cons.prems(4) OFree by auto
    moreover from this have "mem s1 (a + of_nat r) = mem s (a + of_nat r)" if "r < n" for r
      using L Cons.prems(3) that by blast
    ultimately show ?thesis using Cons.IH[of s1 "{p \<in> A. fst p \<noteq> b}"] b(4) L Cons.prems(3,4) by auto
  next
    case (OStore b r w)
    obtain m where b: "(b, m) \<in> A" "r < m" "run_objs sz alloc free store caches ops (store (b + of_nat r) w s, A) = Some (s', A')"
      using Cons.prems(2) OStore by (auto split: if_splits)
    have ne: "a \<noteq> b" using Cons.prems(4) OStore by auto
    have "a + of_nat q \<noteq> b + of_nat r" if "q < n" for q
      using apart[OF Cons.prems(1) b(1) Cons.prems(3)] offset_inside[OF Cons.prems(1) b(1,2)] ne that by metis
    then show ?thesis
      using Cons.IH[OF store_law[OF Cons.prems(1) b(1,2)] b(3) Cons.prems(3)] Cons.prems(4) by (simp add: mem_store)
  qed
qed

end

definition obj_store :: "addr \<Rightarrow> u8 \<Rightarrow> 'a memchunk_scheme \<Rightarrow> 'a memchunk_scheme" where
  "obj_store a w s = s\<lparr>kmem := (kmem s)(a := w)\<rparr>"

lemma objs_one_size: "objs_rep K C s A \<Longrightarrow> (a, n) \<in> A \<Longrightarrow> (a, m) \<in> A \<Longrightarrow> n = m"
proof -
  assume rep: "objs_rep K C s A" and a: "(a, n) \<in> A" "(a, m) \<in> A"
  obtain v i k where v: "mem_inv s C v" "A = objs s v" "n = osz s (owner s i)" "virt_to_page a = i"
    using objs_repE[OF rep a(1)] .
  obtain j l where "(j, l) \<in> used s v" "a = obj s j l" "m = osz s (owner s j)" using a(2) by (auto simp: v(2) objs_def)
  with used_virt(1)[OF v(1)] v(3,4) show "n = m" by auto
qed

interpretation oc: object_allocator "objs_rep K C" C osz objcache_alloc objcache_free obj_store kmem for K C
proof
  fix s s' :: "'a memchunk_scheme" and A a b x n m r w
  show "a \<noteq> NULL \<and> a \<notin> fst ` A \<and> objs_rep K C s' (insert (a, osz s x) A) \<and> (\<forall>b. \<not> unat (b - a) < osz s x \<longrightarrow> kmem s' b = kmem s b)"
    if "objs_rep K C s A" "x \<in> C" "objcache_alloc x s = Some (s', a)"
    using do_alloc_ok[OF that(1,2)] that(3) by (simp add: objcache_alloc_def)
  show "objs_rep K C s' (A - {(a, n)}) \<and> (\<forall>(b, m)\<in>A. b \<noteq> a \<longrightarrow> (\<forall>r<m. kmem s' (b + of_nat r) = kmem s (b + of_nat r)))"
    if "objs_rep K C s A" "(a, n) \<in> A" "a \<notin> C" "objcache_free a s = Some s'"
    using objcache_free_ok[OF that(1-3)] that(4) by (auto split: if_splits)
  show "objs_rep K C (obj_store (a + of_nat r) w s) A" if "objs_rep K C s A" "(a, n) \<in> A" "r < n"
  proof -
    have "n \<le> 4096" using objs_size(3)[OF that(1,2)] .
    then have "unat (of_nat r :: addr) < n" using that(3) by (simp add: unat_of_nat take_bit_nat_eq_self)
    then show ?thesis unfolding obj_store_def by (intro objs_store[OF that(1,2)]) auto
  qed
  show "kmem (obj_store b w s) = (kmem s)(b := w)" by (simp add: obj_store_def)
  show "\<not> unat (b + of_nat r - a) < n" if "objs_rep K C s A" "(a, n) \<in> A" "(b, m) \<in> A" "a \<noteq> b" "r < m"
    using objs_apart[OF that] .
  show "n \<le> 4096" if "objs_rep K C s A" "(a, n) \<in> A" using objs_size(3)[OF that] .
  show "n = m" if "objs_rep K C s A" "(a, n) \<in> A" "(a, m) \<in> A" using objs_one_size[OF that] .
qed

lemma do_alloc_cases:
  assumes run: "do_alloc x s = Some (s', a)"
  obtains "x = NULL" "s' = s"
  | n s1 c where "s' = s1\<lparr>memsem := sem_up (memsem s1)\<rparr>" "alloc_from_partial x c (s\<lparr>memsem := n\<rparr>) = (s1, a)"
  | n s1 where "s' = s1\<lparr>memsem := sem_up (memsem s1)\<rparr>" "alloc_fast x (s\<lparr>memsem := n\<rparr>) = Some (s1, a)"
  | n s1 where "s' = s1\<lparr>memsem := sem_up (memsem s1)\<rparr>" "alloc_slow x (s\<lparr>memsem := n\<rparr>) = Some (s1, a)"
proof (cases "x = NULL \<or> sem_down (memsem s) = None")
  case True
  then show thesis using run that(1) by (auto simp: do_alloc_def split: if_splits)
next
  case False
  then obtain n where n: "sem_down (memsem s) = Some n" "x \<noteq> NULL" by blast
  let ?s = "s\<lparr>memsem := n\<rparr>"
  let ?r = "case first_partial x ?s of
     Some c \<Rightarrow> if c_free_list (slabs ?s c) \<noteq> NULL then Some (alloc_from_partial x c ?s)
       else if o_ptr (objcaches ?s x) + o_sz (objcaches ?s x) \<le> o_ptr_end (objcaches ?s x) then alloc_fast x ?s else alloc_slow x ?s
   | None \<Rightarrow> if o_ptr (objcaches ?s x) + o_sz (objcaches ?s x) \<le> o_ptr_end (objcaches ?s x) then alloc_fast x ?s else alloc_slow x ?s"
  obtain s1 where s1: "s' = s1\<lparr>memsem := sem_up (memsem s1)\<rparr>" "?r = Some (s1, a)"
    using run n unfolding do_alloc_def Let_def by (auto simp: bind_eq_Some_conv simp del: memchunk.select_convs)
  have "(\<exists>c. alloc_from_partial x c ?s = (s1, a)) \<or> alloc_fast x ?s = Some (s1, a) \<or> alloc_slow x ?s = Some (s1, a)"
    using s1(2) by (auto split: option.splits if_splits)
  then show thesis using that(2-4) s1(1) by blast
qed

text \<open>What the three paths of an allocation leave alone.\<close>

lemma buddy_frame:
  fixes s s' :: "'a memchunk_scheme"
  shows "alloc_page s = Some (s', a) \<Longrightarrow> memchunk.more s' = memchunk.more s"
    and "free_page s a = Some s' \<Longrightarrow> memchunk.more s' = memchunk.more s"
    and "alloc_page s = Some (s', a) \<Longrightarrow> a \<noteq> NULL \<Longrightarrow> nr_freepages s' = nr_freepages s - 1"
  by (auto simp: alloc_page_def alloc_pages_def get_page_def Let_def free_page_def free_pages_def P_POISON_def put_page_def
      bind_eq_Some_conv split: if_splits)

lemma alloc_fast_frame:
  assumes "alloc_fast x s = Some (s', a)"
  shows "memchunk.more s' = memchunk.more s" "nr_freepages s' = nr_freepages s"
  using assms by (auto simp: alloc_fast_def Let_def O_POISON_def split: option.splits if_splits)

lemma alloc_from_partial_frame:
  assumes "alloc_from_partial x c s = (s', a)"
  shows "memchunk.more s' = memchunk.more s" "nr_freepages s' = nr_freepages s"
  using assms by (auto simp: alloc_from_partial_def Let_def O_POISON_def)

lemma alloc_slowE:
  assumes run: "alloc_slow x s = Some (s', a)"
  obtains s1 p s2 where "alloc_page s = Some (s1, p)" "p \<noteq> NULL" "alloc_fast x s2 = Some (s', a)"
    "memchunk.more s2 = memchunk.more s1" "nr_freepages s2 = nr_freepages s1" "o_ptr (objcaches s2 x) = p"
    "o_ptr_end (objcaches s2 x) = p + o_sz (objcaches s1 x) * o_num (objcaches s1 x)" "owner s2 (virt_to_page p) = x"
proof -
  obtain s1 p where p: "alloc_page s = Some (s1, p)" "p \<noteq> NULL"
    using run by (auto simp: alloc_slow_def memchunk_get_def bind_eq_Some_conv)
  let ?c = "virt_to_page p"
  define s2 where "s2 = upd_slab ?c (\<lambda>c. c\<lparr>c_ptr := p\<rparr>) (upd_page ?c (\<lambda>q. q\<lparr>pg_type := PG_slab\<rparr>) s1)"
  define s3 where "s3 = upd_slab ?c (\<lambda>h. h\<lparr>c_cache := x, c_free_list := NULL, c_inuse := 0\<rparr>)
     (upd_cache x (\<lambda>k. k\<lparr>o_cur := Some ?c, o_ptr := c_ptr (slabs s2 ?c), o_ptr_end := c_ptr (slabs s2 ?c) + o_sz k * o_num k\<rparr>) s2)"
  have "alloc_fast x (s3\<lparr>mlinks := INIT_LIST_HEAD (mlinks s3) (SlabNode ?c)\<rparr>) = Some (s', a)"
    using run p by (simp add: alloc_slow_def memchunk_get_def Let_def s2_def s3_def split: if_splits)
  from that[OF p this] show thesis by (simp add: s3_def s2_def)
qed

lemma alloc_slow_frame:
  assumes run: "alloc_slow x s = Some (s', a)"
  shows "memchunk.more s' = memchunk.more s \<and> nr_freepages s' = nr_freepages s - 1"
proof (rule alloc_slowE[OF run])
  fix s1 p s2
  assume A: "alloc_page s = Some (s1, p)" "p \<noteq> NULL" "alloc_fast x s2 = Some (s', a)"
    "memchunk.more s2 = memchunk.more s1" "nr_freepages s2 = nr_freepages s1"
  then show ?thesis using alloc_fast_frame[OF A(3)] buddy_frame(1)[OF A(1)] buddy_frame(3)[OF A(1,2)] by simp
qed

lemma do_alloc_frame:
  assumes run: "do_alloc x s = Some (s', a)"
  shows "memchunk.more s' = memchunk.more s" "nr_freepages s' = nr_freepages s \<or> nr_freepages s' = nr_freepages s - 1"
proof -
  have "memchunk.more s' = memchunk.more s \<and> (nr_freepages s' = nr_freepages s \<or> nr_freepages s' = nr_freepages s - 1)"
  proof (rule do_alloc_cases[OF run])
    show ?thesis if "s' = s" using that by simp
    show ?thesis if "s' = s1\<lparr>memsem := sem_up (memsem s1)\<rparr>" "alloc_from_partial x c (s\<lparr>memsem := n\<rparr>) = (s1, a)" for n s1 c
      using alloc_from_partial_frame[OF that(2)] that(1) by simp
    show ?thesis if "s' = s1\<lparr>memsem := sem_up (memsem s1)\<rparr>" "alloc_fast x (s\<lparr>memsem := n\<rparr>) = Some (s1, a)" for n s1
      using alloc_fast_frame[OF that(2)] that(1) by simp
    show ?thesis if "s' = s1\<lparr>memsem := sem_up (memsem s1)\<rparr>" "alloc_slow x (s\<lparr>memsem := n\<rparr>) = Some (s1, a)" for n s1
      using alloc_slow_frame[OF that(2)] that(1) by simp
  qed
  then show "memchunk.more s' = memchunk.more s" "nr_freepages s' = nr_freepages s \<or> nr_freepages s' = nr_freepages s - 1" by blast+
qed

text \<open>The other operations leave the state of the clients alone, too.\<close>


lemma memchunk_put_frame: "memchunk_put p c s = Some s' \<Longrightarrow> memchunk.more s' = memchunk.more s"
  by (auto simp: memchunk_put_def dest: buddy_frame(2))

lemma do_cache_free_frame: "do_cache_free x c a s = Some s' \<Longrightarrow> memchunk.more s' = memchunk.more s"
  by (auto simp: do_cache_free_def Let_def O_POISON_def bind_eq_Some_conv dest!: memchunk_put_frame split: if_splits)

lemma objcache_frame:
  assumes "objcache_alloc x s = Some (s', a) \<or> objcache_alloc0 x s = Some (s', a) \<or> objcache_init p l z s = Some (s', a)
    \<or> objcache_free a s = Some s' \<or> objcache_free2 x a s = Some s'"
  shows "memchunk.more s' = memchunk.more s"
  using assms
proof (elim disjE)
  assume run: "objcache_init p l z s = Some (s', a)"
  show ?thesis
  proof (cases "z = 0")
    case True
    then show ?thesis using run by (simp add: objcache_init_def split: if_splits)
  next
    case False
    obtain s1 b where s1: "do_alloc (m_self_cache s) s = Some (s1, b)"
      using run False by (auto simp: objcache_init_def objcache_alloc_def Let_def bind_eq_Some_conv split: if_splits)
    show ?thesis using run False do_alloc_frame(1)[OF s1]
      by (auto simp: objcache_init_def objcache_alloc_def s1 Let_def do_cache_init_def bind_eq_Some_conv split: if_splits)
  qed
qed (auto simp: objcache_alloc_def objcache_alloc0_def objcache_free_def objcache_free2_def Let_def bind_eq_Some_conv
    dest: do_alloc_frame(1) do_cache_free_frame split: if_splits)

lemma objcache_init_pages:
  assumes "objcache_init p l z s = Some (s', a)"
  shows "nr_freepages s' = nr_freepages s \<or> nr_freepages s' = nr_freepages s - 1"
proof (cases "z = 0")
  case True
  then show ?thesis using assms by (simp add: objcache_init_def split: if_splits)
next
  case False
  obtain s1 b where s1: "do_alloc (m_self_cache s) s = Some (s1, b)"
    using assms False by (auto simp: objcache_init_def objcache_alloc_def Let_def bind_eq_Some_conv split: if_splits)
  show ?thesis using assms False do_alloc_frame(2)[OF s1]
    by (auto simp: objcache_init_def objcache_alloc_def s1 Let_def do_cache_init_def bind_eq_Some_conv split: if_splits)
qed

lemma alloc_fast_end:
  assumes "alloc_fast x s = Some (s', a)"
  shows "a = o_ptr (objcaches s x)" "owner s' i = owner s i" "o_ptr_end (objcaches s' y) = o_ptr_end (objcaches s y)"
  using assms by (auto simp: alloc_fast_def O_POISON_def Let_def split: option.splits if_splits)

lemma alloc_slow_end:
  assumes run: "alloc_slow x s = Some (s', a)"
  shows "obj_end s' a = a + o_sz (objcaches s x) * o_num (objcaches s x)"
proof (rule alloc_slowE[OF run])
  fix s1 p s2
  assume A: "alloc_page s = Some (s1, p)" "alloc_fast x s2 = Some (s', a)" "o_ptr (objcaches s2 x) = p"
    "o_ptr_end (objcaches s2 x) = p + o_sz (objcaches s1 x) * o_num (objcaches s1 x)" "owner s2 (virt_to_page p) = x"
  have "objcaches s1 = objcaches s" using A(1)
    by (auto simp: alloc_page_def alloc_pages_def get_page_def Let_def bind_eq_Some_conv split: if_splits)
  then show ?thesis using alloc_fast_end[OF A(2)] A(3-5) by (simp add: obj_end_def)
qed

lemma cache_init_fresh:
  assumes "do_cache_init p x l z s = Some s'"
  shows "first_partial x s' = None" "o_ptr (objcaches s' x) = NULL" "o_ptr_end (objcaches s' x) = NULL"
    "o_sz (objcaches s' x) = z" "o_num (objcaches s' x) = PAGE_SIZE div z"
proof -
  show "first_partial x s' = None" "o_ptr (objcaches s' x) = NULL" "o_ptr_end (objcaches s' x) = NULL"
    "o_sz (objcaches s' x) = z" "o_num (objcaches s' x) = PAGE_SIZE div z"
    using assms by (auto simp: do_cache_init_def first_partial_def list_empty_def INIT_LIST_HEAD_def list_add_tail_def
      list_add_internal_def set_next_def set_prev_def Let_def split: if_splits)
qed

lemma memchunk_init_fresh:
  assumes run: "memchunk_init g l p s = Some s'"
  shows "first_partial (m_pool_cache s) s' = None" "o_ptr (objcaches s' (m_pool_cache s)) = NULL" "o_ptr_end (objcaches s' (m_pool_cache s)) = NULL"
    "o_sz (objcaches s' (m_pool_cache s)) = 32" "o_num (objcaches s' (m_pool_cache s)) = 128"
proof -
  obtain s1 s2 where s2: "do_cache_init (m_gpool s1) (m_self_cache s1) l sizeof_objcache s1 = Some s2"
    "do_cache_init (m_gpool s2) (m_pool_cache s2) p sizeof_mempool s2 = Some s'" and s1: "mc s1 = mc s"
    using run unfolding memchunk_init_def Let_def bind_eq_Some_conv by (elim exE conjE) (rule that, assumption, assumption, simp)
  have "mc s2 = mc s" using s2(1) s1 by (auto simp: do_cache_init_def Let_def split: if_splits)
  then have "m_pool_cache s2 = m_pool_cache s" by (simp add: m_pool_cache_def m_self_cache_def)
  with cache_init_fresh[OF s2(2)] show "first_partial (m_pool_cache s) s' = None" "o_ptr (objcaches s' (m_pool_cache s)) = NULL" "o_ptr_end (objcaches s' (m_pool_cache s)) = NULL"
    "o_sz (objcaches s' (m_pool_cache s)) = 32" "o_num (objcaches s' (m_pool_cache s)) = 128"
    by (simp_all add: sizeof_mempool_def page_consts)
qed

lemma do_alloc_fresh:
  assumes "first_partial x s = None" "o_ptr (objcaches s x) = NULL" "o_ptr_end (objcaches s x) = NULL" "o_sz (objcaches s x) = 32"
    "o_num (objcaches s x) = 128" and run: "do_alloc x s = Some (s', a)" and x: "x \<noteq> NULL"
  shows "a \<noteq> obj_end s' a"
proof -
  obtain n where n: "sem_down (memsem s) = Some n" using run x by (auto simp: do_alloc_def bind_eq_Some_conv)
  have "first_partial x (s\<lparr>memsem := n\<rparr>) = None" using assms(1) by (simp add: first_partial_def split: if_splits)
  then obtain s1 where s1: "alloc_slow x (s\<lparr>memsem := n\<rparr>) = Some (s1, a)" "s' = s1\<lparr>memsem := sem_up (memsem s1)\<rparr>"
    using run x n assms(2-4) by (auto simp: do_alloc_def bind_eq_Some_conv)
  have "obj_end s' a = obj_end s1 a" by (simp add: s1(2) obj_end_def)
  then show ?thesis using alloc_slow_end[OF s1(1)] assms(4,5) by simp
qed

subsection \<open>A machine after boot\<close>

text \<open>Page 0 holds the kernel image, the other pages of the machine have been freed to the page
  allocator, in order, and \<open>memchunk_init\<close> has run.\<close>

definition boot_raw :: "nat \<Rightarrow> memchunk" where
  "boot_raw n = buddy_init
     \<lparr>pfa = \<lambda>_. \<lparr>pg_count = 1, pg_type = PG_reserved, pg_flags = 0\<rparr>, nr_physpages = of_nat n,
      nr_freepages = 0, free_links = \<lambda>n. \<lparr>lh_next = n, lh_prev = n\<rparr>, pagesem = 1, kmem = \<lambda>_. 0,
      slabs = \<lambda>_. \<lparr>c_ptr = NULL, c_cache = NULL, c_free_list = NULL, c_inuse = 0\<rparr>,
      objcaches = \<lambda>_. \<lparr>o_sz = 0, o_num = 0, o_ptr = NULL, o_ptr_end = NULL, o_cur = None, o_pool = NULL, o_label = NULL\<rparr>,
      mempools = \<lambda>_. \<lparr>p_reserved = NULL, p_num_reserve = 0, p_reserve = 0, p_label = NULL\<rparr>, mlinks = \<lambda>n. \<lparr>lh_next = n, lh_prev = n\<rparr>, memsem = 1, mc = 0xc0000100\<rparr>"

definition boot_mem :: "nat \<Rightarrow> memchunk" where
  "boot_mem n = foldl free_post (boot_raw n) [1..<n]"

definition booted :: "nat \<Rightarrow> memchunk" where
  "booted n = the (memchunk_init 0xc0000200 0xc0000208 0xc0000218 (boot_mem n))"

lemma free_post_sel [simp]:
  "nr_physpages (free_post s i) = nr_physpages s" "memsem (free_post s i) = memsem s" "mc (free_post s i) = mc s"
  for s :: "'a memchunk_scheme"
  by (simp_all add: free_post_def)

lemma boot_raw_sel [simp]:
  "pagesem (boot_raw n) = 1" "nr_freepages (boot_raw n) = 0" "nr_physpages (boot_raw n) = of_nat n"
  "pg_count (pfa (boot_raw n) i) = 1" "memsem (boot_raw n) = 1" "mc (boot_raw n) = 0xc0000100"
  by (simp_all add: boot_raw_def buddy_init_def)

lemma boot_mem_rep:
  assumes "n < 2 ^ 18"
  shows "buddy_rep (boot_mem n) [1..<n]" "memsem (boot_mem n) = 1" "mc (boot_mem n) = 0xc0000100" "nr_physpages (boot_mem n) = of_nat n"
proof -
  let ?b = "boot_raw n"
  have n: "unat (of_nat n :: u32) = n" using assms by (simp add: unat_of_nat take_bit_nat_eq_self)
  have "lists_rep (free_links ?b) (FreeList ` {..<MAX_ORDER}) (free_lists [])" unfolding boot_raw_def by (rule buddy_init_rep)
  then have b: "buddy_rep ?b []" using assms by (simp add: buddy_rep_def n)
  have "buddy_rep (foldl free_post ?b [1..<k]) [1..<k] \<and> memsem (foldl free_post ?b [1..<k]) = 1 \<and>
     mc (foldl free_post ?b [1..<k]) = 0xc0000100 \<and> nr_physpages (foldl free_post ?b [1..<k]) = of_nat n" if "k \<le> n" for k
    using that
  proof (induction k)
    case 0
    then show ?case using b by simp
  next
    case (Suc k)
    show ?case
    proof (cases "k = 0")
      case True
      then show ?thesis using b by simp
    next
      case False
      then show ?thesis using Suc free_post_rep[of "foldl free_post ?b [1..<k]" "[1..<k]" k]
        by (simp add: n)
    qed
  qed
  then show "buddy_rep (boot_mem n) [1..<n]" "memsem (boot_mem n) = 1" "mc (boot_mem n) = 0xc0000100" "nr_physpages (boot_mem n) = of_nat n"
    unfolding boot_mem_def by blast+
qed

lemma memchunk_init_frees: "memchunk_init g o' p s = Some s' \<Longrightarrow> nr_freepages s' = nr_freepages s"
  by (auto simp: memchunk_init_def do_cache_init_def Let_def bind_eq_Some_conv split: if_splits)

lemma booted_rep:
  assumes "1 < n" "n < 2 ^ 18 - 1"
  shows "objs_rep {0} {0xc0000120, 0xc0000154} (booted n) {}" "osz (booted n) 0xc0000120 = 52" "osz (booted n) 0xc0000154 = 32"
    "unat (nr_freepages (booted n)) = n - 1" "m_self_cache (booted n) = 0xc0000120" "mc (booted n) = 0xc0000100"
    "do_alloc 0xc0000154 (booted n) = Some (t, a) \<Longrightarrow> a \<noteq> obj_end t a"
proof -
  note b = boot_mem_rep[of n]
  have c: "m_self_cache (boot_mem n) = 0xc0000120" "m_pool_cache (boot_mem n) = 0xc0000154"
    using b assms by (simp_all add: m_self_cache_def m_pool_cache_def sizeof_mempool_def sizeof_objcache_def)
  have z: "virt_to_page 0xc0000120 = 0" "virt_to_page 0xc0000154 = 0" by code_simp+
  have "unat (nr_physpages (boot_mem n)) = n" using b(4) assms by (simp add: unat_of_nat take_bit_nat_eq_self)
  then obtain s' where s': "memchunk_init 0xc0000200 0xc0000208 0xc0000218 (boot_mem n) = Some s'"
     "objs_rep {0} {0xc0000120, 0xc0000154} s' {}" "mc s' = mc (boot_mem n)" "osz s' 0xc0000120 = 52" "osz s' 0xc0000154 = 32"
    using memchunk_init_ok[of "boot_mem n" "[1..<n]" "{0}" "0xc0000200" "0xc0000208" "0xc0000218"] b assms
    by (auto simp: c z sizeof_objcache_def sizeof_mempool_def)
  have "booted n = s'" by (simp add: booted_def s'(1))
  moreover have "unat (nr_freepages s') = n - 1"
    using buddy_repD(3)[OF b(1)] memchunk_init_frees[OF s'(1)] assms by simp
  ultimately show "objs_rep {0} {0xc0000120, 0xc0000154} (booted n) {}" "osz (booted n) 0xc0000120 = 52" "osz (booted n) 0xc0000154 = 32"
    "unat (nr_freepages (booted n)) = n - 1" "m_self_cache (booted n) = 0xc0000120" "mc (booted n) = 0xc0000100"
    using s' b assms by (simp_all add: m_self_cache_def sizeof_mempool_def)
  show "do_alloc 0xc0000154 (booted n) = Some (t, a) \<Longrightarrow> a \<noteq> obj_end t a"
    using do_alloc_fresh[of "0xc0000154" s' t a] memchunk_init_fresh[OF s'(1)] by (simp add: c \<open>booted n = s'\<close>)
qed


lemma booted_alloc:
  assumes "1 < n" "n < 2 ^ 18 - 1"
  obtains s a where "objcache_alloc 0xc0000154 (booted n) = Some (s, a)" "a \<noteq> NULL"
    "objs_rep {0} {0xc0000120, 0xc0000154} s {(a, 32)}" "unat (nr_freepages s) \<ge> n - 2" "osz s 0xc0000154 = 32"
    "a \<notin> {0xc0000120, 0xc0000154}" "a \<noteq> obj_end s a"
proof -
  note b = booted_rep[OF assms]
  have "nr_freepages (booted n) \<noteq> 0" using b(4) assms by auto
  then obtain s a where s: "do_alloc 0xc0000154 (booted n) = Some (s, a)"
    using do_alloc_ok[OF b(1), of "0xc0000154"] by (auto split: option.splits)
  have "unat (nr_freepages (booted n) - 1) = unat (nr_freepages (booted n)) - 1"
    using \<open>nr_freepages (booted n) \<noteq> 0\<close> by (simp add: unat_minus_one)
  then have "unat (nr_freepages s) \<ge> n - 2" using do_alloc_frame(2)[OF s] b(4) by auto
  then show thesis using that[of s a] do_alloc_ok[OF b(1), of "0xc0000154"] s b(3) b(7)[OF s] by (simp add: objcache_alloc_def)
qed

subsection \<open>Properties\<close>



text \<open>C10. An allocation from an object cache either finds the machine out of free pages, and then does
  not return, or returns the address of an object of the cache's size that is not in use, is not a cache
  itself and does not overlap any object in use; every byte outside the new object is unchanged, and so
  is the object size of every cache.\<close>

theorem objcache_alloc_fresh:
  assumes "objs_rep K C s A" "x \<in> C"
  shows "case objcache_alloc x s of None \<Rightarrow> nr_freepages s = 0
    | Some (s', a) \<Rightarrow> a \<noteq> NULL \<and> a \<notin> fst ` A \<and> a \<notin> C \<and> objs_rep K C s' (insert (a, osz s x) A) \<and>
        (\<forall>(b, m)\<in>A. \<forall>r<m. \<not> unat (b + of_nat r - a) < osz s x) \<and> (\<forall>y. osz s' y = osz s y) \<and>
        (\<forall>b. \<not> unat (b - a) < osz s x \<longrightarrow> kmem s' b = kmem s b)"
proof (cases "objcache_alloc x s")
  case None
  then show ?thesis using do_alloc_ok[OF assms] by (simp add: objcache_alloc_def)
next
  case (Some r)
  obtain s' a where r: "r = (s', a)" by (cases r)
  have s': "a \<notin> fst ` A" "objs_rep K C s' (insert (a, osz s x) A)" using do_alloc_ok[OF assms] Some r by (simp_all add: objcache_alloc_def)
  then have "\<forall>(b, m)\<in>A. \<forall>r<m. \<not> unat (b + of_nat r - a) < osz s x"
    using objs_apart[OF s'(2), of a "osz s x"] by force
  then show ?thesis using do_alloc_ok[OF assms] Some by (simp add: r objcache_alloc_def)
qed

theorem objcache_alloc_fresh_witness:
  "\<exists>s a. objcache_alloc 0xc0000154 (booted 4) = Some (s, a) \<and> a \<noteq> NULL \<and>
     (\<forall>b. \<not> unat (b - a) < 32 \<longrightarrow> kmem s b = kmem (booted 4) b)"
proof -
  note b = booted_rep[of 4, simplified]
  have "nr_freepages (booted 4) \<noteq> 0" using b(4) by auto
  then show ?thesis using objcache_alloc_fresh[OF b(1), of "0xc0000154"] b(3) by (auto split: option.splits)
qed

text \<open>C11. Freeing an object that is in use returns it to its cache: the object is no longer in use, the
  state is consistent, and the bytes of every other object in use are unchanged. There is one exception,
  an error in the range check of \<open>do_cache_free\<close>: an object that starts exactly where the current slab
  of its cache ends panics the machine, although it is a valid object of another slab.\<close>

theorem objcache_free_in_use:
  assumes "objs_rep K C s A" "(a, n) \<in> A" "a \<notin> C"
  shows "if a = obj_end s a then objcache_free a s = None
    else \<exists>s'. objcache_free a s = Some s' \<and> objs_rep K C s' (A - {(a, n)}) \<and>
      (\<forall>(b, m)\<in>A. b \<noteq> a \<longrightarrow> (\<forall>r<m. kmem s' (b + of_nat r) = kmem s (b + of_nat r)))"
  using objcache_free_ok[OF assms] by (auto split: if_splits)

theorem objcache_free_in_use_witness:
  "\<exists>s a s'. objcache_alloc 0xc0000154 (booted 4) = Some (s, a) \<and> objcache_free a s = Some s' \<and>
     objs_rep {0} {0xc0000120, 0xc0000154} s' {}"
proof -
  obtain s a where a: "objcache_alloc 0xc0000154 (booted 4) = Some (s, a)" "objs_rep {0} {0xc0000120, 0xc0000154} s {(a, 32)}"
    "a \<notin> {0xc0000120, 0xc0000154}" "a \<noteq> obj_end s a" by (rule booted_alloc[of 4]) auto
  show ?thesis using objcache_free_in_use[OF a(2) _ a(3), of 32] a(1,4) by auto
qed

end
