(* ===== verification/Kmalloc.thy ===== *)
theory Kmalloc
  imports ObjCache Vsprintf
begin

text \<open>
  The general purpose allocator, \<^verbatim>\<open>kernel/kmalloc.c\<close>: eleven object caches of the sizes
  \<open>4, 8, ..., 4096\<close>. \<open>general_names\<close> is the address of the array of labels, whose rows have
  \<open>NR_CACHE\<close> bytes. The words of a variable argument list are on the stack of the caller: \<open>sp\<close> is the
  address of the first one, \<open>fmt\<close> that of the literal \<^verbatim>\<open>size-%lu\<close>.
\<close>

record kmalloc_state = memchunk +
  general_cache :: "nat \<Rightarrow> addr"
  general_names :: addr

definition NR_CACHE :: nat where "NR_CACHE = PAGE_SHIFT - 1"

definition general_name :: "'a kmalloc_state_scheme \<Rightarrow> nat \<Rightarrow> addr" where
  "general_name s i = general_names s + of_nat (NR_CACHE * i)"

primrec kmalloc_init_loop ::
    "addr \<Rightarrow> addr \<Rightarrow> addr \<Rightarrow> nat \<Rightarrow> nat \<Rightarrow> u32 \<Rightarrow> 'a kmalloc_state_scheme \<Rightarrow> 'a kmalloc_state_scheme option" where
  "kmalloc_init_loop null_str fmt sp 0 i sz s = Some s"
| "kmalloc_init_loop null_str fmt sp (Suc n) i sz s = do {
     let m = write32 (kmem s) sp sz;
     (m, _) \<leftarrow> snprintf null_str m (general_name s i) (of_nat NR_CACHE) fmt sp;
     let s = s\<lparr>kmem := m\<rparr>;
     (s, x) \<leftarrow> objcache_init NULL (general_name s i) sz s;
     let s = s\<lparr>general_cache := (general_cache s)(i := x)\<rparr>;
     BUG_ON (x = NULL);
     kmalloc_init_loop null_str fmt sp n (Suc i) (push_bit 1 sz) s
   }"

definition kmalloc_init :: "addr \<Rightarrow> addr \<Rightarrow> addr \<Rightarrow> 'a kmalloc_state_scheme \<Rightarrow> 'a kmalloc_state_scheme option" where
  "kmalloc_init null_str fmt sp s = kmalloc_init_loop null_str fmt sp NR_CACHE 0 (push_bit 2 1) s"

primrec kmalloc_loop ::
    "(addr \<Rightarrow> 'a kmalloc_state_scheme \<Rightarrow> ('a kmalloc_state_scheme \<times> addr) option) \<Rightarrow> u32 \<Rightarrow> nat \<Rightarrow> nat \<Rightarrow> u32 \<Rightarrow>
     'a kmalloc_state_scheme \<Rightarrow> ('a kmalloc_state_scheme \<times> addr) option" where
  "kmalloc_loop alloc alloc_sz 0 i sz s = Some (s, NULL)"
| "kmalloc_loop alloc alloc_sz (Suc n) i sz s =
     (if alloc_sz \<le> sz then alloc (general_cache s i) s
      else kmalloc_loop alloc alloc_sz n (Suc i) (push_bit 1 sz) s)"

definition kmalloc :: "u32 \<Rightarrow> 'a kmalloc_state_scheme \<Rightarrow> ('a kmalloc_state_scheme \<times> addr) option" where
  "kmalloc alloc_sz s = kmalloc_loop objcache_alloc alloc_sz NR_CACHE 0 (push_bit 2 1) s"

definition kmalloc0 :: "u32 \<Rightarrow> 'a kmalloc_state_scheme \<Rightarrow> ('a kmalloc_state_scheme \<times> addr) option" where
  "kmalloc0 alloc_sz s = kmalloc_loop objcache_alloc0 alloc_sz NR_CACHE 0 (push_bit 2 1) s"

definition kfree :: "addr \<Rightarrow> 'a kmalloc_state_scheme \<Rightarrow> 'a kmalloc_state_scheme option" where
  "kfree ptr s = objcache_free ptr s"

subsection \<open>The labels\<close>

text \<open>\<open>snprintf\<close> of the literal writes the label and nothing outside the buffer.\<close>

lemma emits_outside:
  assumes "unat buf + length cs < 2 ^ 32" "a \<notin> {buf..e}"
  shows "fst (emits e cs (m, buf)) a = m a"
  using emits_mem(2)[OF assms(1), of e m a] assms(2) by (auto simp: word_le_nat_alt)

lemma vsn_literal:
  assumes "fst st fmt = c" "c \<noteq> 0" "c \<noteq> ch CHR ''%''"
  shows "vsn_loop null_str buf e st fmt args = vsn_loop null_str buf e (emit e c st) (fmt + 1) args"
  using assms by (subst vsn_loop.simps) simp

lemma conversion_lu:
  assumes "m (fmt + 1) = ch CHR ''l''" "m (fmt + 1 + 1) = ch CHR ''u''"
  shows "conversion null_str buf e (m, p) fmt args =
    Some (emits e (number_chars (ucast (read32 m args)) 10 (- 1) (- 1) 0) (m, p), fmt + 1 + 1, args + 4)"
proof -
  have "fmt_flags m fmt 0 = Some (fmt + 1, 0)" using assms(1) by (subst fmt_flags.simps) simp
  moreover have "fmt_width m (fmt + 1) 0 args = Some (fmt + 1, - 1, 0, args)" using assms(1) by (simp add: fmt_width_def isdigit_iff unat_ch)
  moreover have "fmt_precision m (fmt + 1) args = Some (fmt + 1, - 1, args)" using assms(1) by (simp add: fmt_precision_def)
  moreover have "fmt_qualifier m (fmt + 1) = (fmt + 1 + 1, uint (ch CHR ''l''))" using assms by (simp add: fmt_qualifier_def)
  moreover have "uint (ch CHR ''l'') \<noteq> uint (ch CHR ''L'')" by code_simp
  ultimately show ?thesis using assms(2)
    by (simp add: conversion_def conv_int_def int_arg_def va_arg_def number_eq)
qed


lemma vsn_lu:
  assumes "m fmt = ch CHR ''%''" "m (fmt + 1) = ch CHR ''l''" "m (fmt + 1 + 1) = ch CHR ''u''"
  shows "vsn_loop null_str buf e (m, p) fmt args =
    vsn_loop null_str buf e (emits e (number_chars (ucast (read32 m args)) 10 (- 1) (- 1) 0) (m, p)) (fmt + 1 + 1 + 1) (args + 4)"
proof -
  have "ch CHR ''%'' \<noteq> 0" by simp
  then show ?thesis using assms(1) by (subst vsn_loop.simps) (simp add: conversion_lu[OF assms(2,3)])
qed

lemma snprintf_label:
  fixes buf :: addr
  assumes fmt: "fmt_ok m {buf..buf + 10} fmt (map ch ''size-%lu'')"
    and args: "\<And>i. i < 4 \<Longrightarrow> args + i \<notin> {buf..buf + 10}" and buf: "buf \<noteq> 0" "unat buf + 32 < 2 ^ 32"
    and ds: "ds = number_chars (ucast (read32 m args)) 10 (- 1) (- 1) 0" "length ds \<le> 4" "0 \<notin> set ds"
  shows "\<exists>m'. snprintf null_str m buf 11 fmt args = Some (m', of_nat (5 + length ds)) \<and>
    (\<forall>a. a \<notin> {buf..buf + 10} \<longrightarrow> m' a = m a) \<and> cstr m' buf (map ch ''size-'' @ ds)"
proof -
  let ?e = "buf + 10" and ?p = "map ch ''size-''"
  have e: "buf + 11 - 1 = ?e" by simp
  have far: "unat buf + length cs < 2 ^ 32" if "length cs \<le> 9" for cs :: "u8 list" using buf(2) that by simp
  have same: "fst (emits ?e cs (m, buf)) a = m a" if "length cs \<le> 9" "a \<notin> {buf..?e}" for cs a
    using emits_outside[OF far[OF that(1)] that(2)] .
  have f: "m fmt = ch CHR ''s''" "m (fmt + 1) = ch CHR ''i''" "m (fmt + 2) = ch CHR ''z''" "m (fmt + 3) = ch CHR ''e''"
    "m (fmt + 4) = ch CHR ''-''" "m (fmt + 5) = ch CHR ''%''" "m (fmt + 6) = ch CHR ''l''" "m (fmt + 7) = ch CHR ''u''" "m (fmt + 8) = 0"
    and out: "fmt \<notin> {buf..?e}" "fmt + 1 \<notin> {buf..?e}" "fmt + 2 \<notin> {buf..?e}" "fmt + 3 \<notin> {buf..?e}" "fmt + 4 \<notin> {buf..?e}"
    "fmt + 5 \<notin> {buf..?e}" "fmt + 6 \<notin> {buf..?e}" "fmt + 7 \<notin> {buf..?e}" "fmt + 8 \<notin> {buf..?e}"
    using fmt by (simp_all add: add.assoc)
  have lit: "vsn_loop null_str buf ?e (emits ?e cs (m, buf)) q args = vsn_loop null_str buf ?e (emits ?e (cs @ [c]) (m, buf)) (q + 1) args"
    if "length cs \<le> 9" "q \<notin> {buf..?e}" "m q = c" "c \<noteq> 0" "c \<noteq> ch CHR ''%''" for cs q c
    using vsn_literal[of "emits ?e cs (m, buf)" q c] same[OF that(1,2)] that(3-5) by (simp add: emits_append)
  have "vsn_loop null_str buf ?e (m, buf) fmt args = vsn_loop null_str buf ?e (emits ?e ?p (m, buf)) (fmt + 5) args"
    using lit[of "[]" fmt] lit[of "[ch CHR ''s'']" "fmt + 1"] lit[of "[ch CHR ''s'', ch CHR ''i'']" "fmt + 2"]
      lit[of "[ch CHR ''s'', ch CHR ''i'', ch CHR ''z'']" "fmt + 3"] lit[of "[ch CHR ''s'', ch CHR ''i'', ch CHR ''z'', ch CHR ''e'']" "fmt + 4"]
      f(1-5) out(1-5) by (simp add: add.assoc)
  also have "\<dots> = vsn_loop null_str buf ?e (emits ?e (?p @ ds) (m, buf)) (fmt + 8) (args + 4)"
  proof -
    obtain m0 q where m0: "emits ?e ?p (m, buf) = (m0, q)" by (cases "emits ?e ?p (m, buf)")
    have m0a: "m0 a = m a" if "a \<notin> {buf..?e}" for a using same[of ?p a] that by (simp only: m0) simp
    have "read32 m0 args = read32 m args" using args by (intro read32_cong m0a) simp_all
    then show ?thesis using vsn_lu[of m0 "fmt + 5" null_str buf ?e q args] m0a f(6-8) out(6-8)
      by (simp only: emits_append m0 ds(1)) (simp add: add.assoc)
  qed
  also have "\<dots> = Some (emits ?e (?p @ ds) (m, buf))"
    using same[of "?p @ ds" "fmt + 8"] ds(2) f(9) out(9) by (subst vsn_loop.simps) simp
  finally have run: "vsn_loop null_str buf ?e (m, buf) fmt args = Some (emits ?e (?p @ ds) (m, buf))" .
  obtain m1 str where m1: "(m1, str) = emits ?e (?p @ ds) (m, buf)" by (metis prod.collapse)
  have len: "length (?p @ ds) = 5 + length ds" by simp
  have str: "str = buf + of_nat (5 + length ds)"
    using emits_mem(1)[OF far, of "?p @ ds" ?e m] ds(2) unfolding m1[symmetric] len by simp
  define m' where "m' = (if str \<le> ?e then m1(str := 0) else m1(?e := 0))"
  have sz: "(0 :: u32) < 11" "unat buf + unat (11 :: u32) \<le> 2 ^ 32" using buf(2) by simp_all
  have short: "unat buf + length (?p @ ds) < 2 ^ 32" using far[of "?p @ ds"] ds(2) len by simp
  note T = terminated[OF sz(1) buf(1) sz(2) short, of m1 str m m']
  have T: "a < buf \<or> ?e < a \<Longrightarrow> m' a = m a" "i < length (?p @ ds) \<Longrightarrow> i < 10 \<Longrightarrow> m' (buf + of_nat i) = (?p @ ds) ! i"
     "m' (buf + of_nat (min (length (?p @ ds)) 10)) = 0" for a i
    using T[unfolded e, OF m1 m'_def] by simp_all
  have "snprintf null_str m buf 11 fmt args = Some (m', str - buf)"
    using buffer_end(2)[OF sz(1) buf(1) sz(2)] run[folded m1] sz(1) unfolding snprintf_def vsnprintf_def Let_def e
    by (simp add: m'_def add.commute)
  moreover have "cstr m' buf (?p @ ds)"
  proof (rule cstrI)
    show "m' (buf + of_nat i) = (?p @ ds) ! i" if "i < length (?p @ ds)" for i using T(2)[OF that] that ds(2) len by simp
    show "m' (buf + of_nat (length (?p @ ds))) = 0" using T(3) ds(2) len by (simp add: min_absorb1)
    show "0 \<notin> set (?p @ ds)" using ds(3) by simp
  qed
  moreover have "\<forall>a. a \<notin> {buf..?e} \<longrightarrow> m' a = m a" using T(1) by (auto simp: not_le)
  ultimately show ?thesis using str by (intro exI[of _ m']) simp
qed

lemma kmalloc_more:
  "memchunk.more s' = memchunk.more s \<Longrightarrow> general_cache s' = general_cache s \<and> general_names s' = general_names s"
  for s s' :: "'a kmalloc_state_scheme"
  by (cases s, cases s') simp

subsection \<open>The size classes\<close>

definition kmalloc_rep :: "nat set \<Rightarrow> addr set \<Rightarrow> 'a kmalloc_state_scheme \<Rightarrow> (addr \<times> nat) set \<Rightarrow> bool" where
  "kmalloc_rep K C s A \<longleftrightarrow> objs_rep K C s A \<and> (\<forall>i<NR_CACHE. general_cache s i \<in> C \<and> osz s (general_cache s i) = 2 ^ (i + 2))"

text \<open>The least power of two from 4 that holds \<open>n\<close> bytes.\<close>

definition size_class :: "nat \<Rightarrow> nat" where
  "size_class n = 2 ^ (LEAST k. 2 \<le> k \<and> n \<le> 2 ^ k)"

lemma NR_CACHE_eq [simp]: "NR_CACHE = 11"
  by (simp add: NR_CACHE_def PAGE_SHIFT_def)

lemma size_class_eq: "n \<le> 2 ^ (i + 2) \<Longrightarrow> (\<forall>j<i. 2 ^ (j + 2) < n) \<Longrightarrow> size_class n = 2 ^ (i + 2)"
proof -
  assume n: "n \<le> 2 ^ (i + 2)" "\<forall>j<i. 2 ^ (j + 2) < n"
  have "(LEAST k. 2 \<le> k \<and> n \<le> 2 ^ k) = i + 2"
  proof (rule Least_equality)
    fix k assume k: "2 \<le> k \<and> n \<le> 2 ^ k"
    show "i + 2 \<le> k"
    proof (rule ccontr)
      assume "\<not> i + 2 \<le> k"
      then have "k - 2 < i" "k - 2 + 2 = k" using k by auto
      then have "2 ^ k < n" using n(2) by metis
      then show False using k by simp
    qed
  qed (use n in simp)
  then show ?thesis by (simp add: size_class_def)
qed

lemma size_class_bounds:
  assumes "n \<le> 4096"
  shows "n \<le> size_class n" "4 \<le> size_class n" "size_class n \<le> 4096" "4 < size_class n \<Longrightarrow> size_class n < 2 * n"
proof -
  let ?k = "LEAST k. 2 \<le> k \<and> n \<le> 2 ^ k"
  have ex: "2 \<le> (12::nat) \<and> n \<le> 2 ^ 12" using assms by simp
  have k: "2 \<le> ?k" "n \<le> 2 ^ ?k" using LeastI[of "\<lambda>k. 2 \<le> k \<and> n \<le> 2 ^ k", OF ex] by auto
  have le: "?k \<le> 12" using Least_le[of "\<lambda>k. 2 \<le> k \<and> n \<le> 2 ^ k", OF ex] .
  show "n \<le> size_class n" using k(2) by (simp add: size_class_def)
  have "(2::nat) ^ 2 \<le> 2 ^ ?k" using k(1) by (intro power_increasing) auto
  then show "4 \<le> size_class n" by (simp add: size_class_def)
  have "(2::nat) ^ ?k \<le> 2 ^ 12" using le by (intro power_increasing) auto
  then show "size_class n \<le> 4096" by (simp add: size_class_def)
  assume "4 < size_class n"
  then have "(2::nat) ^ 2 < 2 ^ ?k" by (simp add: size_class_def)
  then have "2 < ?k" by (rule power_less_imp_less_exp[rotated]) simp
  then have "\<not> (2 \<le> ?k - 1 \<and> n \<le> 2 ^ (?k - 1))" by (intro not_less_Least) auto
  then have "2 ^ (?k - 1) < n" using \<open>2 < ?k\<close> by linarith
  moreover have "(2::nat) ^ ?k = 2 * 2 ^ (?k - 1)" using \<open>2 < ?k\<close> by (cases ?k) auto
  ultimately show "size_class n < 2 * n" by (simp add: size_class_def)
qed

lemma push_power: "i + 2 < 31 \<Longrightarrow> unat sz = 2 ^ (i + 2) \<Longrightarrow> unat (push_bit 1 sz :: u32) = 2 ^ (Suc i + 2)"
proof -
  assume i: "i + 2 < 31" "unat sz = 2 ^ (i + 2)"
  have "(2::nat) ^ (i + 3) \<le> 2 ^ 31" using i by (intro power_increasing) auto
  then have "(8::nat) * 2 ^ i \<le> 2147483648" by (simp add: power_add)
  moreover have "push_bit 1 sz = sz * 2" by (simp add: push_bit_eq_mult)
  ultimately show ?thesis using i(2) by (simp add: unat_word_ariths)
qed


lemma kmalloc_loop_class:
  assumes "i + n = 11" "unat sz = 2 ^ (i + 2)" "\<forall>j<i. 2 ^ (j + 2) < unat a"
  shows "if unat a \<le> 4096 then \<exists>j<11. size_class (unat a) = 2 ^ (j + 2) \<and> kmalloc_loop alloc a n i sz s = alloc (general_cache s j) s
     else kmalloc_loop alloc a n i sz s = Some (s, NULL)"
  using assms
proof (induction n arbitrary: i sz)
  case 0
  then have "(2::nat) ^ (10 + 2) < unat a" by (elim allE[of _ 10]) simp
  then show ?case by simp
next
  case (Suc n)
  show ?case
  proof (cases "unat a \<le> 2 ^ (i + 2)")
    case True
    have "(2::nat) ^ (i + 2) \<le> 2 ^ 12" using Suc.prems(1) by (intro power_increasing) auto
    then have "unat a \<le> 4096" using True by simp
    moreover have "i < 11" using Suc.prems(1) by simp
    ultimately show ?thesis using size_class_eq[OF True Suc.prems(3)] True Suc.prems(2) by (auto simp: word_le_nat_alt)
  next
    case False
    have "\<forall>j<Suc i. 2 ^ (j + 2) < unat a" using False Suc.prems(3) by (auto simp: less_Suc_eq)
    note IH = Suc.IH[OF _ push_power this]
    have "kmalloc_loop alloc a (Suc n) i sz s = kmalloc_loop alloc a n (Suc i) (push_bit 1 sz) s"
      using False Suc.prems(2) by (simp add: word_le_nat_alt)
    then show ?thesis using Suc.prems by (simp only:) (rule IH; simp)
  qed
qed

lemma kmalloc_class:
  "if unat a \<le> 4096 then \<exists>j<11. size_class (unat a) = 2 ^ (j + 2) \<and> kmalloc a s = objcache_alloc (general_cache s j) s
   else kmalloc a s = Some (s, NULL)"
  "if unat a \<le> 4096 then \<exists>j<11. size_class (unat a) = 2 ^ (j + 2) \<and> kmalloc0 a s = objcache_alloc0 (general_cache s j) s
   else kmalloc0 a s = Some (s, NULL)"
  unfolding kmalloc_def kmalloc0_def NR_CACHE_eq by (rule kmalloc_loop_class; simp)+

lemma kmalloc_rep_cong:
  assumes "kmalloc_rep K C s A" "objs_rep K C s' A'" "memchunk.more s' = memchunk.more s" "\<forall>y. o_sz (objcaches s' y) = o_sz (objcaches s y)"
  shows "kmalloc_rep K C s' A'"
  using assms(1,2,4) kmalloc_more[OF assms(3)] by (simp add: kmalloc_rep_def)

lemma kmalloc_ok:
  assumes rep: "kmalloc_rep K C s A" and a: "unat a \<le> 4096"
  shows "case kmalloc a s of None \<Rightarrow> nr_freepages s = 0
    | Some (s', p) \<Rightarrow> p \<noteq> NULL \<and> p \<notin> fst ` A \<and> p \<notin> C \<and> kmalloc_rep K C s' (insert (p, size_class (unat a)) A) \<and>
        (\<forall>b. \<not> unat (b - p) < size_class (unat a) \<longrightarrow> kmem s' b = kmem s b)"
proof -
  obtain j where j: "j < 11" "size_class (unat a) = 2 ^ (j + 2)" "kmalloc a s = objcache_alloc (general_cache s j) s"
    using kmalloc_class(1)[of a s] a by auto
  have r: "objs_rep K C s A" "general_cache s j \<in> C" "osz s (general_cache s j) = size_class (unat a)"
    using rep j(1,2) by (auto simp: kmalloc_rep_def)
  show ?thesis
  proof (cases "objcache_alloc (general_cache s j) s")
    case None
    then show ?thesis using do_alloc_ok[OF r(1,2)] by (simp add: j(3) objcache_alloc_def)
  next
    case (Some r')
    obtain s' p where p: "r' = (s', p)" by (cases r')
    show ?thesis using do_alloc_ok[OF r(1,2)] Some objcache_frame[OF disjI1, OF Some[unfolded p]] r(3)
      by (auto simp: j(3) objcache_alloc_def p intro: kmalloc_rep_cong[OF rep])
  qed
qed


lemma kmalloc0_ok:
  assumes rep: "kmalloc_rep K C s A" and a: "unat a \<le> 4096"
  shows "case kmalloc0 a s of None \<Rightarrow> nr_freepages s = 0
    | Some (s', p) \<Rightarrow> p \<noteq> NULL \<and> p \<notin> fst ` A \<and> p \<notin> C \<and> kmalloc_rep K C s' (insert (p, size_class (unat a)) A) \<and>
        (\<forall>r < size_class (unat a). kmem s' (p + of_nat r) = 0) \<and>
        (\<forall>b. \<not> unat (b - p) < size_class (unat a) \<longrightarrow> kmem s' b = kmem s b)"
proof -
  obtain j where j: "j < 11" "size_class (unat a) = 2 ^ (j + 2)" "kmalloc0 a s = objcache_alloc0 (general_cache s j) s"
    using kmalloc_class(2)[of a s] a by auto
  have r: "objs_rep K C s A" "general_cache s j \<in> C" "osz s (general_cache s j) = size_class (unat a)"
    using rep j(1,2) by (auto simp: kmalloc_rep_def)
  show ?thesis
  proof (cases "objcache_alloc0 (general_cache s j) s")
    case None
    then show ?thesis using objcache_alloc0_ok[OF r(1,2)] by (simp add: j(3))
  next
    case (Some r')
    obtain s' p where p: "r' = (s', p)" by (cases r')
    show ?thesis using objcache_alloc0_ok[OF r(1,2)] objcache_frame[of "general_cache s j" s s' p] Some r(3)
      by (auto simp: j(3) p intro: kmalloc_rep_cong[OF rep])
  qed
qed

subsection \<open>Creating the caches\<close>

definition size_names :: "string list" where
  "size_names = [''4'', ''8'', ''16'', ''32'', ''64'', ''128'', ''256'', ''512'', ''1024'', ''2048'', ''4096'']"

definition size_label :: "nat \<Rightarrow> u8 list" where
  "size_label i = map ch (''size-'' @ size_names ! i)"

text \<open>The labels, the variable argument and the literal are in the kernel image \<open>K\<close>, apart.\<close>

definition kmalloc_image :: "nat set \<Rightarrow> addr \<Rightarrow> addr \<Rightarrow> addr \<Rightarrow> mem \<Rightarrow> bool" where
  "kmalloc_image K names fmt sp m \<longleftrightarrow> names \<noteq> 0 \<and> unat names + 160 < 2 ^ 32 \<and> virt_to_page ` {names..names + 120} \<subseteq> K \<and>
     (\<forall>i<4. virt_to_page (sp + i) \<in> K \<and> sp + i \<notin> {names..names + 120}) \<and>
     fmt_ok m ({a. virt_to_page a \<notin> K} \<union> {names..names + 120} \<union> {a. unat (a - sp) < 4}) fmt (map ch ''size-%lu'')"

lemma base_digits_num [simp]:
  "base_digits 10 0 = []" "base_digits 10 (numeral k) = numeral k mod 10 # base_digits 10 (numeral k div 10)"
  by (subst base_digits.simps; simp)+

lemma plain_digits: "number_chars num 10 (- 1) (- 1) 0 = number_digits (unat num) 10 0"
  by (simp add: number_chars_def number_mag_def number_signs_def number_base_def)

lemma class_digits:
  assumes "i < 11" "unat sz = 2 ^ (i + 2)"
  shows "number_chars (ucast (sz :: u32)) 10 (- 1) (- 1) 0 = map ch (size_names ! i)" "length (size_names ! i) \<le> 4"
proof -
  have "unat sz < 2 ^ 64" using unsigned_less[of sz, where 'a = nat] by simp
  then have "unat (ucast sz :: u64) = 2 ^ (i + 2)" unfolding assms(2)[symmetric] by (simp add: unsigned_ucast_eq take_bit_nat_eq_self)
  moreover have "i \<in> {0, 1, 2, 3, 4, 5, 6, 7, 8, 9, 10}" using assms(1) by (simp; presburger)
  ultimately have "number_digits (unat (ucast sz :: u64)) 10 0 = map ch (size_names ! i) \<and> length (size_names ! i) \<le> 4"
    by (auto simp: number_digits_def digit_chars_def small_digits_def size_names_def base_digits.simps[of 10 "Suc 0"])
  then show "number_chars (ucast sz) 10 (- 1) (- 1) 0 = map ch (size_names ! i)" "length (size_names ! i) \<le> 4"
    by (simp_all add: plain_digits)
qed
lemma row:
  fixes names :: addr
  assumes "unat names + 160 < 2 ^ 32" "i < 11"
  defines "row \<equiv> names + of_nat (11 * i)"
  shows "unat row = unat names + 11 * i" "{row..row + 10} \<subseteq> {names..names + 120}"
    "j < 11 \<Longrightarrow> j \<noteq> i \<Longrightarrow> r < 11 \<Longrightarrow> names + of_nat (11 * j) + of_nat r \<notin> {row..row + 10}"
    "r < 11 \<Longrightarrow> row + of_nat r \<in> {row..row + 10}"
proof -
  have u: "unat (names + of_nat (11 * i) + of_nat r) = unat names + 11 * i + r" if "i < 11" "r < 11" for i r
  proof -
    have s: "unat (of_nat k :: addr) = k" if "k < 200" for k using that by (simp add: unat_of_nat take_bit_nat_eq_self)
    have i: "unat (of_nat (11 * i) :: addr) = 11 * i" by (rule s) (use that in simp)
    have r: "unat (of_nat r :: addr) = r" by (rule s) (use that in simp)
    have "unat names + unat (of_nat (11 * i) :: addr) < 2 ^ 32" unfolding i using assms(1) that by simp
    note a = unat_add_nowrap[OF this, unfolded i]
    have "unat (names + of_nat (11 * i)) + unat (of_nat r :: addr) < 2 ^ 32" unfolding a r using assms(1) that by simp
    from unat_add_nowrap[OF this, unfolded a r] show ?thesis .
  qed
  show row: "unat row = unat names + 11 * i" using u[OF assms(2), of 0] by (simp add: row_def)
  have row10: "unat (row + 10) = unat names + 11 * i + 10" using u[OF assms(2), of 10] by (simp add: row_def)
  have n120: "unat (names + 120) = unat names + 120" using assms(1) unat_add_nowrap[of names 120] by simp
  show "{row..row + 10} \<subseteq> {names..names + 120}" using row row10 n120 assms(2) by (auto simp: word_le_nat_alt)
  show "row + of_nat r \<in> {row..row + 10}" if "r < 11" using u[OF assms(2) that] row row10 that by (auto simp: word_le_nat_alt row_def)
  show "names + of_nat (11 * j) + of_nat r \<notin> {row..row + 10}" if j: "j < 11" "j \<noteq> i" "r < 11"
  proof -
    have "11 * j + r < 11 * i \<or> 11 * i + 10 < 11 * j + r" using j by linarith
    then show ?thesis using u[OF j(1,3)] row row10 by (auto simp: word_le_nat_alt)
  qed
qed

lemma fmt_ok_mono: "fmt_ok m B p xs \<Longrightarrow> B' \<subseteq> B \<Longrightarrow> (\<And>a. a \<notin> B \<Longrightarrow> m' a = m a) \<Longrightarrow> fmt_ok m' B' p xs"
  by (induction xs arbitrary: p) auto

lemma row_label:
  assumes "kmalloc_image K names fmt sp m" "i < 11" "r \<le> length (size_label i)"
  shows "names + of_nat (11 * i) + of_nat r \<in> {names + of_nat (11 * i)..names + of_nat (11 * i) + 10}"
proof -
  have r: "r < 11" using assms(2,3) class_digits(2)[of i "2 ^ (i + 2)"]
    by (auto simp: size_label_def size_names_def nth_Cons' split: if_splits)
  have n: "unat names + 160 < 2 ^ 32" using assms(1) by (simp add: kmalloc_image_def)
  show ?thesis using row(4)[OF n assms(2) r] .
qed

lemma kmalloc_init_step:
  assumes rep: "objs_rep K C s A" and self: "m_self_cache s \<in> C" "osz s (m_self_cache s) = 52"
    and img: "kmalloc_image K (general_names s) fmt sp (kmem s)" and i: "i < 11" "unat sz = 2 ^ (i + 2)" and free: "nr_freepages s \<noteq> 0"
  defines "row \<equiv> general_name s i"
  shows "\<exists>m u s2 x. snprintf null_str (write32 (kmem s) sp sz) row (of_nat NR_CACHE) fmt sp = Some (m, u) \<and>
    objcache_init NULL row sz (s\<lparr>kmem := m\<rparr>) = Some (s2, x) \<and> x \<noteq> NULL \<and> objs_rep K (insert x C) s2 (insert (x, 52) A) \<and>
    mc s2 = mc s \<and> osz s2 x = 2 ^ (i + 2) \<and> x \<notin> C \<and> (\<forall>y\<in>C. osz s2 y = osz s y) \<and> memchunk.more s2 = memchunk.more s \<and>
    unat (nr_freepages s) \<le> unat (nr_freepages s2) + 1 \<and> cstr (kmem s2) row (size_label i) \<and>
    (\<forall>a. virt_to_page a \<in> K \<longrightarrow> a \<notin> {row..row + 10} \<longrightarrow> \<not> unat (a - sp) < 4 \<longrightarrow> kmem s2 a = kmem s a)"
proof -
  let ?names = "general_names s" let ?B = "{a. virt_to_page a \<notin> K} \<union> {?names..?names + 120} \<union> {a. unat (a - sp) < 4}"
  let ?m = "write32 (kmem s) sp sz"
  have I: "?names \<noteq> 0" "unat ?names + 160 < 2 ^ 32" "virt_to_page ` {?names..?names + 120} \<subseteq> K"
    "\<forall>i<4. virt_to_page (sp + i) \<in> K \<and> sp + i \<notin> {?names..?names + 120}" "fmt_ok (kmem s) ?B fmt (map ch ''size-%lu'')"
    using img by (auto simp: kmalloc_image_def)
  have rw: "row = ?names + of_nat (11 * i)" by (simp add: row_def general_name_def)
  note R = row[OF I(2) i(1), folded rw]
  have m: "?m a = kmem s a" if "\<not> unat (a - sp) < 4" for a using that by (simp add: write32_other)
  have fmt: "fmt_ok ?m {row..row + 10} fmt (map ch ''size-%lu'')" using R(2) m by (intro fmt_ok_mono[OF I(5)]) auto
  have args: "sp + j \<notin> {row..row + 10}" if "j < 4" for j using I(4) that R(2) by blast
  have buf: "row \<noteq> 0" "unat row + 32 < 2 ^ 32" using R(1) I(1,2) i(1) by (auto simp: unat_eq_0)
  note D = class_digits[OF i]
  have ds: "map ch (size_names ! i) = number_chars (ucast (read32 ?m sp)) 10 (- 1) (- 1) 0" using D(1) by simp
  have nz: "0 \<notin> set (map ch (size_names ! i))" using i(1) by (auto simp: size_names_def nth_Cons' split: if_splits)
  obtain m' where m': "snprintf null_str ?m row 11 fmt sp = Some (m', of_nat (5 + length (map ch (size_names ! i))))"
    "\<forall>a. a \<notin> {row..row + 10} \<longrightarrow> m' a = ?m a" "cstr m' row (map ch ''size-'' @ map ch (size_names ! i))"
    using snprintf_label[OF fmt args buf ds _ nz, of null_str] D(2) by auto
  let ?s = "s\<lparr>kmem := m'\<rparr>"
  have "m' a = kmem s a" if "virt_to_page a \<notin> K" for a
  proof -
    have "a \<notin> {row..row + 10}" using that R(2) I(3) by blast
    moreover have "\<not> unat (a - sp) < 4"
    proof
      assume "unat (a - sp) < 4"
      then have "a - sp < 4" by (simp add: word_less_nat_alt)
      then show False using I(4) that by (metis add_diff_cancel_left' add.commute diff_add_cancel)
    qed
    ultimately show ?thesis using m'(2) m by simp
  qed
  note rep1 = objs_image_store[OF rep this]
  have "m_self_cache ?s = m_self_cache s" by (simp add: m_self_cache_def)
  then have self1: "m_self_cache ?s \<in> C" "osz ?s (m_self_cache ?s) = unat sizeof_objcache" using self by (simp_all add: sizeof_objcache_def)
  have z: "unat sz \<le> 4096" "sz \<noteq> 0"
  proof -
    have "(2::nat) ^ (i + 2) \<le> 2 ^ 12" using i(1) by (intro power_increasing) auto
    then show "unat sz \<le> 4096" using i(2) by simp
    show "sz \<noteq> 0" using i(2) by auto
  qed
  note N = objcache_init_ok[OF rep1 self1 z, of NULL row, simplified]
  obtain s2 x where s2: "objcache_init NULL row sz ?s = Some (s2, x)" using N free by (auto split: option.splits)
  have N: "x \<noteq> NULL" "x \<notin> C" "objs_rep K (insert x C) s2 (insert (x, 52) A)" "mc s2 = mc s" "osz s2 x = max 4 (unat sz)"
    "\<forall>y\<in>C. o_sz (objcaches s2 y) = o_sz (objcaches s y)" "\<forall>b. \<not> unat (b - x) < 52 \<longrightarrow> kmem s2 b = m' b"
    using N by (simp_all add: s2 sizeof_objcache_def)
  have "memchunk.more s2 = memchunk.more s" using objcache_frame[of NULL ?s s2 x NULL row sz] s2 by simp
  moreover have "unat (nr_freepages s) \<le> unat (nr_freepages s2) + 1"
  proof -
    have "unat (nr_freepages s - 1) = unat (nr_freepages s) - 1" using free by (simp add: unat_minus_one)
    then show ?thesis using objcache_init_pages[OF s2] by auto
  qed
  moreover have K: "kmem s2 a = m' a" if "virt_to_page a \<in> K" for a
    using N(7) objs_not_image[OF N(3), of x 52 a] that by simp
  moreover have "cstr (kmem s2) row (size_label i)"
  proof (rule cstr_cong)
    show "cstr m' row (size_label i)" using m'(3) by (simp add: size_label_def)
    show "kmem s2 (row + of_nat r) = m' (row + of_nat r)" if "r \<le> length (size_label i)" for r
      using row_label[OF img i(1) that, folded rw] R(2) I(3) by (intro K) blast
  qed
  moreover have "osz s2 x = 2 ^ (i + 2)" using N(5) i(2) by simp
  ultimately show ?thesis using m'(1,2) s2 N m by (intro exI[of _ m'] exI[of _ "of_nat (5 + length (map ch (size_names ! i)))"] exI[of _ s2] exI[of _ x]) simp
qed

definition labelled :: "'a kmalloc_state_scheme \<Rightarrow> nat \<Rightarrow> bool" where
  "labelled s j \<longleftrightarrow> cstr (kmem s) (general_name s j) (size_label j)"

lemma kmalloc_init_loop_ok:
  assumes "i + n = 11" "unat sz = 2 ^ (i + 2)" "objs_rep K C s A" "m_self_cache s \<in> C" "osz s (m_self_cache s) = 52"
    "kmalloc_image K (general_names s) fmt sp (kmem s)" "n \<le> unat (nr_freepages s)"
    "\<forall>j<i. general_cache s j \<in> C \<and> osz s (general_cache s j) = 2 ^ (j + 2) \<and> labelled s j"
  shows "\<exists>s' C' A'. kmalloc_init_loop null_str fmt sp n i sz s = Some s' \<and> kmalloc_rep K C' s' A' \<and> C \<subseteq> C' \<and> A \<subseteq> A' \<and>
    mc s' = mc s \<and> (\<forall>y\<in>C. osz s' y = osz s y) \<and> (\<forall>j<11. labelled s' j) \<and> unat (nr_freepages s) \<le> unat (nr_freepages s') + n"
  using assms
proof (induction n arbitrary: i sz s C A)
  case 0
  then show ?case by (intro exI[of _ s] exI[of _ C] exI[of _ A]) (simp add: kmalloc_rep_def)
next
  case (Suc n)
  note p = Suc.prems
  have i: "i < 11" using p(1) by simp
  have "nr_freepages s \<noteq> 0" using p(7) by auto
  then obtain m u s2 x where S: "snprintf null_str (write32 (kmem s) sp sz) (general_name s i) (of_nat NR_CACHE) fmt sp = Some (m, u)"
    "objcache_init NULL (general_name s i) sz (s\<lparr>kmem := m\<rparr>) = Some (s2, x)" "x \<noteq> NULL" "objs_rep K (insert x C) s2 (insert (x, 52) A)"
    "mc s2 = mc s" "osz s2 x = 2 ^ (i + 2)" "x \<notin> C" "\<forall>y\<in>C. osz s2 y = osz s y" "memchunk.more s2 = memchunk.more s"
    "unat (nr_freepages s) \<le> unat (nr_freepages s2) + 1" "cstr (kmem s2) (general_name s i) (size_label i)"
    "\<forall>a. virt_to_page a \<in> K \<longrightarrow> a \<notin> {general_name s i..general_name s i + 10} \<longrightarrow> \<not> unat (a - sp) < 4 \<longrightarrow> kmem s2 a = kmem s a"
    using kmalloc_init_step[OF p(3-6) i p(2)] by blast
  note more = kmalloc_more[OF S(9)]
  let ?s = "s2\<lparr>general_cache := (general_cache s2)(i := x)\<rparr>"
  let ?n = "general_names s"
  have gn: "general_name ?s j = general_name s j" for j using more by (simp add: general_name_def)
  have I: "virt_to_page ` {?n..?n + 120} \<subseteq> K" "\<forall>i<4. virt_to_page (sp + i) \<in> K \<and> sp + i \<notin> {?n..?n + 120}" "unat ?n + 160 < 2 ^ 32"
    using p(6) by (auto simp: kmalloc_image_def)
  have sub: "{general_name s j..general_name s j + 10} \<subseteq> {?n..?n + 120}" if "j < 11" for j
    using row(2)[OF I(3) that] by (simp add: general_name_def)
  have run: "kmalloc_init_loop null_str fmt sp (Suc n) i sz s = kmalloc_init_loop null_str fmt sp n (Suc i) (push_bit 1 sz) ?s"
    using S(1-3) by (simp add: general_name_def)
  have "labelled ?s j" if j: "j < Suc i" for j
  proof (cases "j = i")
    case True
    then show ?thesis using S(11) gn by (simp add: labelled_def)
  next
    case False
    then have j': "j < i" "j < 11" using j i by auto
    have "kmem s2 (general_name s j + of_nat r) = kmem s (general_name s j + of_nat r)" if r: "r \<le> length (size_label j)" for r
    proof -
      have r11: "r < 11" using r j'(2) class_digits(2)[of j "2 ^ (j + 2)"] by (auto simp: size_label_def size_names_def nth_Cons' split: if_splits)
      let ?a = "general_name s j + of_nat r"
      have a: "?a \<in> {?n..?n + 120}" using row(4)[OF I(3) j'(2) r11] sub[OF j'(2)] unfolding general_name_def NR_CACHE_eq by blast
      moreover have "?a \<notin> {general_name s i..general_name s i + 10}" using row(3)[OF I(3) i j'(2) False r11] by (simp add: general_name_def)
      moreover have "\<not> unat (?a - sp) < 4"
      proof
        assume "unat (?a - sp) < 4"
        then have "?a - sp < 4" by (simp add: word_less_nat_alt)
        then have "sp + (?a - sp) \<notin> {?n..?n + 120}" using I(2) by blast
        then show False using a by simp
      qed
      ultimately show ?thesis using S(12) I(1) by blast
    qed
    then show ?thesis using p(8) j' gn unfolding labelled_def by (auto intro: cstr_cong)
  qed
  moreover have "general_cache ?s j \<in> insert x C \<and> osz ?s (general_cache ?s j) = 2 ^ (j + 2)" if "j < Suc i" for j
    using p(8) S(6,8) more that by (cases "j = i") auto
  moreover have "kmalloc_image K (general_names ?s) fmt sp (kmem ?s)"
  proof -
    let ?B = "{a. virt_to_page a \<notin> K} \<union> {?n..?n + 120} \<union> {a. unat (a - sp) < 4}"
    have "fmt_ok (kmem s) ?B fmt (map ch ''size-%lu'')" using p(6) by (simp add: kmalloc_image_def)
    then have "fmt_ok (kmem s2) ?B fmt (map ch ''size-%lu'')" by (rule fmt_ok_mono) (use S(12) sub[OF i] in blast)+
    then show ?thesis using p(6) more by (simp add: kmalloc_image_def)
  qed
  moreover have "objs_rep K (insert x C) ?s (insert (x, 52) A)"
    using objs_rep_client[of ?s s2] S(4) by (simp add: memchunk.truncate_def)
  moreover have "m_self_cache ?s \<in> insert x C" "osz ?s (m_self_cache ?s) = 52" using S(5,8) p(4,5) by (simp_all add: m_self_cache_def)
  moreover have "n \<le> unat (nr_freepages ?s)" using S(10) p(7) by simp
  ultimately obtain s' C' A' where R: "kmalloc_init_loop null_str fmt sp n (Suc i) (push_bit 1 sz) ?s = Some s'" "kmalloc_rep K C' s' A'"
    "insert x C \<subseteq> C'" "insert (x, 52) A \<subseteq> A'" "mc s' = mc ?s" "\<forall>y\<in>insert x C. osz s' y = osz ?s y" "\<forall>j<11. labelled s' j"
    "unat (nr_freepages ?s) \<le> unat (nr_freepages s') + n"
    using Suc.IH[of "Suc i" "push_bit 1 sz" "insert x C" ?s "insert (x, 52) A"] push_power[OF _ p(2)] p(1) by auto
  show ?case unfolding run using R S(5,8,10) by (intro exI[of _ s'] exI[of _ C'] exI[of _ A']) simp
qed


definition boot_text :: "mem \<Rightarrow> mem" where
  "boot_text m = m(0xc0000400 := ch CHR ''s'', 0xc0000401 := ch CHR ''i'', 0xc0000402 := ch CHR ''z'', 0xc0000403 := ch CHR ''e'',
     0xc0000404 := ch CHR ''-'', 0xc0000405 := ch CHR ''%'', 0xc0000406 := ch CHR ''l'', 0xc0000407 := ch CHR ''u'', 0xc0000408 := 0)"

definition kbooted :: "nat \<Rightarrow> kmalloc_state" where
  "kbooted n = memchunk.extend ((booted n)\<lparr>kmem := boot_text (kmem (booted n))\<rparr>) \<lparr>general_cache = \<lambda>_. NULL, general_names = 0xc0000300\<rparr>"

lemma page_zero: "0xc0000000 \<le> a \<Longrightarrow> a \<le> 0xc0000fff \<Longrightarrow> virt_to_page a = 0"
  by (rule virt_to_page_eq[of _ _ "unat a - 0xc0000000"]) (auto simp: word_le_nat_alt)

lemma kbooted_rep:
  assumes "1 < n" "n < 2 ^ 18 - 1"
  shows "objs_rep {0} {0xc0000120, 0xc0000154} (kbooted n) {}" "m_self_cache (kbooted n) = 0xc0000120" "osz (kbooted n) 0xc0000120 = 52"
    "kmalloc_image {0} (general_names (kbooted n)) 0xc0000400 0xc0000500 (kmem (kbooted n))" "unat (nr_freepages (kbooted n)) = n - 1"
proof -
  note b = booted_rep[OF assms]
  let ?s = "(booted n)\<lparr>kmem := boot_text (kmem (booted n))\<rparr>"
  have "boot_text (kmem (booted n)) a = kmem (booted n) a" if "virt_to_page a \<notin> {0}" for a
    using that page_zero[of a] by (auto simp: boot_text_def)
  from objs_image_store[OF b(1) this] have "objs_rep {0} {0xc0000120, 0xc0000154} ?s {}" .
  moreover have "memchunk.truncate (kbooted n) = memchunk.truncate ?s" by (simp add: kbooted_def memchunk.truncate_def memchunk.extend_def)
  ultimately show "objs_rep {0} {0xc0000120, 0xc0000154} (kbooted n) {}" using objs_rep_client by blast
  have sel: "mc (kbooted n) = mc (booted n)" "objcaches (kbooted n) = objcaches (booted n)" "nr_freepages (kbooted n) = nr_freepages (booted n)"
    "general_names (kbooted n) = 0xc0000300" "kmem (kbooted n) = boot_text (kmem (booted n))"
    by (simp_all add: kbooted_def memchunk.extend_def)
  show "m_self_cache (kbooted n) = 0xc0000120" "osz (kbooted n) 0xc0000120 = 52" "unat (nr_freepages (kbooted n)) = n - 1"
    using b by (simp_all add: sel m_self_cache_def sizeof_mempool_def)
  have sp: "virt_to_page (0xc0000500 + i) = 0 \<and> \<not> (0xc0000300 \<le> 0xc0000500 + i \<and> 0xc0000500 + i \<le> 0xc0000378)" if "i < 4" for i
  proof -
    have "unat (0xc0000500 + i) = 0xc0000500 + unat i" by (subst unat_add_nowrap) (use that in \<open>auto simp: word_less_nat_alt\<close>)
    then show ?thesis using that page_zero[of "0xc0000500 + i"] by (auto simp: word_less_nat_alt word_le_nat_alt)
  qed
  have names: "virt_to_page ` {0xc0000300..0xc0000300 + 120} \<subseteq> {0}" using page_zero by (auto simp: word_le_nat_alt)
  have "fmt_ok (boot_text m) ({a. virt_to_page a \<notin> {0}} \<union> {0xc0000300..0xc0000300 + 120} \<union> {a. unat (a - 0xc0000500) < 4}) 0xc0000400 (map ch ''size-%lu'')" for m
    by (simp add: boot_text_def page_zero)
  then show "kmalloc_image {0} (general_names (kbooted n)) 0xc0000400 0xc0000500 (kmem (kbooted n))"
    using sp names by (simp add: kmalloc_image_def sel)
qed

lemma kbooted_init:
  obtains s C A where "kmalloc_init 0xc0000410 0xc0000400 0xc0000500 (kbooted 20) = Some s" "kmalloc_rep {0} C s A" "nr_freepages s \<noteq> 0"
proof -
  obtain s C A where s: "kmalloc_init_loop 0xc0000410 0xc0000400 0xc0000500 11 0 4 (kbooted 20) = Some s" "kmalloc_rep {0} C s A"
    "unat (nr_freepages (kbooted 20)) \<le> unat (nr_freepages s) + 11"
    using kmalloc_init_loop_ok[OF _ _ kbooted_rep(1), of 0 11 4 20 "0xc0000400" "0xc0000500" "0xc0000410"] kbooted_rep[of 20] by auto
  have "nr_freepages s \<noteq> 0" using s(3) kbooted_rep(5)[of 20] by auto
  then show thesis using that s by (simp add: kmalloc_init_def)
qed

subsection \<open>Properties\<close>

text \<open>C31. Setting up the allocator returns when the machine has a free page for every size class. It
  leaves eleven caches, of 4, 8, ..., 4096 bytes, in their order, and in row \<open>i\<close> of the array of names
  the NUL-terminated label of cache \<open>i\<close>, although the array is declared with rows of \<open>NR_CACHE\<close>
  instead of 12 characters. Objects that were in use still are.\<close>

theorem kmalloc_init_classes:
  assumes "objs_rep K C s A" "m_self_cache s \<in> C" "osz s (m_self_cache s) = 52" "NR_CACHE \<le> unat (nr_freepages s)"
    and "kmalloc_image K (general_names s) fmt sp (kmem s)"
  shows "\<exists>s' C' A'. kmalloc_init null_str fmt sp s = Some s' \<and> kmalloc_rep K C' s' A' \<and> A \<subseteq> A' \<and>
    (\<forall>i<NR_CACHE. general_cache s' i \<in> C' \<and> osz s' (general_cache s' i) = 2 ^ (i + 2) \<and>
       cstr (kmem s') (general_name s' i) (size_label i))"
proof -
  obtain s' C' A' where s': "kmalloc_init_loop null_str fmt sp 11 0 4 s = Some s'" "kmalloc_rep K C' s' A'" "A \<subseteq> A'" "\<forall>j<11. labelled s' j"
    using kmalloc_init_loop_ok[of 0 11 4 K C s A fmt sp null_str] assms by auto
  then show ?thesis by (intro exI[of _ s'] exI[of _ C'] exI[of _ A']) (auto simp: kmalloc_init_def kmalloc_rep_def labelled_def)
qed

theorem kmalloc_init_classes_witness:
  "\<exists>s' C' A'. kmalloc_init 0xc0000410 0xc0000400 0xc0000500 (kbooted 20) = Some s' \<and> kmalloc_rep {0} C' s' A' \<and> {} \<subseteq> A' \<and>
    (\<forall>i<NR_CACHE. general_cache s' i \<in> C' \<and> osz s' (general_cache s' i) = 2 ^ (i + 2) \<and>
       cstr (kmem s') (general_name s' i) (size_label i))"
  by (rule kmalloc_init_classes[OF kbooted_rep(1)]) (simp_all add: kbooted_rep)

text \<open>C12. \<open>kmalloc\<close> of a size up to a page returns unless the machine has run out of free pages, and
  then returns the address of a fresh object, apart from all others and from every cache, whose size is
  the least size class that holds the request: never less than asked for and, above the smallest class,
  less than twice as much. \<open>kmalloc0\<close> does the same and clears the object. A larger request gets NULL and
  changes nothing.\<close>

theorem kmalloc_size_class:
  assumes "kmalloc_rep K C s A"
  shows "if 4096 < unat n then kmalloc n s = Some (s, NULL) \<and> kmalloc0 n s = Some (s, NULL)
    else unat n \<le> size_class (unat n) \<and> (4 < size_class (unat n) \<longrightarrow> size_class (unat n) < 2 * unat n) \<and>
     (case kmalloc n s of None \<Rightarrow> nr_freepages s = 0
      | Some (s', p) \<Rightarrow> p \<noteq> NULL \<and> p \<notin> fst ` A \<and> p \<notin> C \<and> kmalloc_rep K C s' (insert (p, size_class (unat n)) A)) \<and>
     (case kmalloc0 n s of None \<Rightarrow> nr_freepages s = 0
      | Some (s', p) \<Rightarrow> p \<noteq> NULL \<and> p \<notin> fst ` A \<and> p \<notin> C \<and> kmalloc_rep K C s' (insert (p, size_class (unat n)) A) \<and>
          (\<forall>r < size_class (unat n). kmem s' (p + of_nat r) = 0))"
proof (cases "unat n \<le> 4096")
  case True
  show ?thesis using kmalloc_ok[OF assms True] kmalloc0_ok[OF assms True] size_class_bounds[OF True] True
    by (auto split: option.splits)
next
  case False
  then show ?thesis using kmalloc_class[of n s] by auto
qed


theorem kmalloc_size_class_witness:
  "\<exists>s s' C A p. kmalloc_init 0xc0000410 0xc0000400 0xc0000500 (kbooted 20) = Some s \<and> kmalloc 5000 s = Some (s, NULL) \<and>
     kmalloc 100 s = Some (s', p) \<and> p \<noteq> NULL \<and> kmalloc_rep {0} C s' (insert (p, 128) A)"
proof -
  obtain s C A where s: "kmalloc_init 0xc0000410 0xc0000400 0xc0000500 (kbooted 20) = Some s" "kmalloc_rep {0} C s A" "nr_freepages s \<noteq> 0"
    by (rule kbooted_init)
  have "\<forall>j<5. 2 ^ (j + 2) < (100 :: nat)" by (auto simp: less_Suc_eq numeral_eq_Suc)
  then have "size_class 100 = 128" using size_class_eq[of 100 5] by simp
  then show ?thesis using kmalloc_size_class[OF s(2), of 100] kmalloc_size_class[OF s(2), of 5000] s(1,3)
    by (auto split: option.splits)
qed

end
