(* ===== verification/Pci.thy ===== *)
theory Pci
  imports Kmalloc Interrupt
begin

text \<open>
  The PCI bus: configuration space access through mechanism 1 (\<^verbatim>\<open>arch-ia32/pci.c\<close>) and the scan
  of the bus (\<^verbatim>\<open>drivers/pci.c\<close>). The structures of domains and devices are stores indexed by
  address; a device structure is allocated with \<open>kmalloc\<close>, so the operations that allocate work on
  a pair of the memory and the device state. The tables of function pointers are parameters:
  \<open>ops\<close> gives the operations behind the \<^verbatim>\<open>d_ops\<close> pointer of a domain, \<open>attach\<close> those of a
  driver. What is printed on the way is left out.
\<close>

section \<open>Data\<close>

definition PCI_NUM_BARS :: nat where "PCI_NUM_BARS = 6"
definition PCI_CONF_ID :: u32 where "PCI_CONF_ID = 0x00"
definition PCI_CONF_CLASSREV :: u32 where "PCI_CONF_CLASSREV = 0x08"
definition PCI_CONF_PROGIF :: u32 where "PCI_CONF_PROGIF = 0x09"
definition PCI_CONF_HDRTYPE :: u32 where "PCI_CONF_HDRTYPE = 0x0e"
definition PCI_CONF0_BAR0 :: u32 where "PCI_CONF0_BAR0 = 0x10"
definition PCI_CONF0_BAR1 :: u32 where "PCI_CONF0_BAR1 = 0x14"
definition PCI_CONF0_BAR2 :: u32 where "PCI_CONF0_BAR2 = 0x18"
definition PCI_CONF0_BAR3 :: u32 where "PCI_CONF0_BAR3 = 0x1c"
definition PCI_CONF0_BAR4 :: u32 where "PCI_CONF0_BAR4 = 0x20"
definition PCI_CONF0_IRQ :: u32 where "PCI_CONF0_IRQ = 0x3c"
definition PCI_NUM_BUSSES :: nat where "PCI_NUM_BUSSES = 0x100"
definition PCI_NUM_DEVS :: nat where "PCI_NUM_DEVS = 0x20"
definition PCI_NUM_FUNCS :: nat where "PCI_NUM_FUNCS = 0x08"
definition PCI_BUS_MASK :: u32 where "PCI_BUS_MASK = of_nat PCI_NUM_BUSSES - 1"
definition PCI_DEV_MASK :: u32 where "PCI_DEV_MASK = of_nat PCI_NUM_DEVS - 1"
definition PCI_FUNC_MASK :: u32 where "PCI_FUNC_MASK = of_nat PCI_NUM_FUNCS - 1"
definition PCI_FUNC_SHIFT :: nat where "PCI_FUNC_SHIFT = 0"
definition PCI_DEV_SHIFT :: nat where "PCI_DEV_SHIFT = 3"
definition PCI_BUS_SHIFT :: nat where "PCI_BUS_SHIFT = 8"

definition PCI_BDF :: "u32 \<Rightarrow> u32 \<Rightarrow> u32 \<Rightarrow> u32" where
  "PCI_BDF bus dev fn = push_bit PCI_BUS_SHIFT (bus AND PCI_BUS_MASK) OR
     push_bit PCI_DEV_SHIFT (dev AND PCI_DEV_MASK) OR push_bit PCI_FUNC_SHIFT (fn AND PCI_FUNC_MASK)"

definition CONF_LOC :: "u32 \<Rightarrow> u32 \<Rightarrow> u32" where
  "CONF_LOC bdf ofs = 0x80000000 OR push_bit 8 bdf OR (ofs AND 0xff)"

datatype pci_node = PDomains | DList addr | DDevices addr | PciList addr

record pci_dom =
  d_domain :: u32
  d_ops :: addr

record 's pci_dom_ops =
  read_conf32 :: "addr \<Rightarrow> u32 \<Rightarrow> 's \<Rightarrow> 's \<times> u32"
  write_conf32 :: "addr \<Rightarrow> u32 \<Rightarrow> u32 \<Rightarrow> 's \<Rightarrow> 's"
  read_conf16 :: "addr \<Rightarrow> u32 \<Rightarrow> 's \<Rightarrow> 's \<times> u16"
  write_conf16 :: "addr \<Rightarrow> u32 \<Rightarrow> u16 \<Rightarrow> 's \<Rightarrow> 's"
  read_conf8 :: "addr \<Rightarrow> u32 \<Rightarrow> 's \<Rightarrow> 's \<times> u8"
  write_conf8 :: "addr \<Rightarrow> u32 \<Rightarrow> u8 \<Rightarrow> 's \<Rightarrow> 's"

record pci_dev =
  pci_driver :: addr
  pci_driver_priv :: addr
  pci_domain :: addr
  pci_bdf :: u32

definition sizeof_pci_dev :: u32 where "sizeof_pci_dev = 24"

record pci_cls_tbl =
  cls_driver :: addr
  cls_mask :: u32
  cls_val :: u32

record pci_state = irq_state +
  plinks :: "pci_node lstore"
  num_domains :: u32
  pdoms :: "addr \<Rightarrow> pci_dom"
  confreg :: "addr \<Rightarrow> u32"
  pdevs :: "addr \<Rightarrow> pci_dev"

section \<open>Configuration mechanism 1\<close>

definition PCI_CONFREG :: u32 where "PCI_CONFREG = 0x0cf8"
definition PCI_CONF_MODE :: u32 where "PCI_CONF_MODE = 0x0cfb"
definition PCI_CONFDATA :: u32 where "PCI_CONFDATA = 0x0cfc"

definition pci_probe :: "device \<Rightarrow> 'a port_io_scheme \<Rightarrow> 'a port_io_scheme \<times> int" where
  "pci_probe dev s =
     (let s = outb PCI_CONF_MODE 0x01 s;
          (s, tmp) = inl dev PCI_CONFREG s;
          s = outl PCI_CONFREG 0x80000000 s;
          (s, r) = inl dev PCI_CONFREG s
      in if r = 0x80000000 then (outl PCI_CONFREG tmp s, 1)
         else let s = outl PCI_CONFREG tmp s;
                  s = outb PCI_CONF_MODE 0x00 s;
                  s = outb PCI_CONFREG 0x00 s;
                  s = outb 0x0cfa 0x00 s;
                  (s, a) = inb dev PCI_CONFREG s
              in if a = 0x00
                 then let (s, b) = inb dev 0xCFA s in (s, if b = 0x00 then 2 else 0)
                 else (s, 0))"

definition conf_latch :: "addr \<Rightarrow> u32 \<Rightarrow> 'a pci_state_scheme \<Rightarrow> 'a pci_state_scheme" where
  "conf_latch d latch s =
     (if confreg s d \<noteq> latch
      then outl PCI_CONFREG latch (s\<lparr>confreg := (confreg s)(d := latch)\<rparr>) else s)"

definition read_conf1_32 :: "device \<Rightarrow> addr \<Rightarrow> u32 \<Rightarrow> 'a pci_state_scheme \<Rightarrow> 'a pci_state_scheme \<times> u32" where
  "read_conf1_32 dev d a s = inl dev PCI_CONFDATA (conf_latch d a s)"

definition write_conf1_32 :: "addr \<Rightarrow> u32 \<Rightarrow> u32 \<Rightarrow> 'a pci_state_scheme \<Rightarrow> 'a pci_state_scheme" where
  "write_conf1_32 d a w s = outl PCI_CONFDATA w (conf_latch d a s)"

definition read_conf1_16 :: "device \<Rightarrow> addr \<Rightarrow> u32 \<Rightarrow> 'a pci_state_scheme \<Rightarrow> 'a pci_state_scheme \<times> u16" where
  "read_conf1_16 dev d a s = inw dev (PCI_CONFDATA + (a AND 0x2)) (conf_latch d a s)"

definition write_conf1_16 :: "addr \<Rightarrow> u32 \<Rightarrow> u16 \<Rightarrow> 'a pci_state_scheme \<Rightarrow> 'a pci_state_scheme" where
  "write_conf1_16 d a w s = outw PCI_CONFDATA (w + ucast (a AND 0x2)) (conf_latch d a s)"

definition read_conf1_8 :: "device \<Rightarrow> addr \<Rightarrow> u32 \<Rightarrow> 'a pci_state_scheme \<Rightarrow> 'a pci_state_scheme \<times> u8" where
  "read_conf1_8 dev d a s = inb dev (PCI_CONFDATA + (a AND 0x3)) (conf_latch d a s)"

definition write_conf1_8 :: "addr \<Rightarrow> u32 \<Rightarrow> u8 \<Rightarrow> 'a pci_state_scheme \<Rightarrow> 'a pci_state_scheme" where
  "write_conf1_8 d a w s = outb PCI_CONFDATA (w + ucast (a AND 0x3)) (conf_latch d a s)"

definition pci_conf1_ops :: "device \<Rightarrow> 'a pci_state_scheme pci_dom_ops" where
  "pci_conf1_ops dev = \<lparr>read_conf32 = read_conf1_32 dev, write_conf32 = write_conf1_32,
     read_conf16 = read_conf1_16 dev, write_conf16 = write_conf1_16,
     read_conf8 = read_conf1_8 dev, write_conf8 = write_conf1_8\<rparr>"

text \<open>The static \<open>pci_conf1\<close> at address \<open>d\<close>; \<open>ops\<close> is the address of \<open>pci_conf1_ops\<close>.\<close>

definition pci_conf1 :: "addr \<Rightarrow> addr \<Rightarrow> 'a pci_state_scheme \<Rightarrow> bool" where
  "pci_conf1 d ops s \<longleftrightarrow> d_ops (pdoms s d) = ops \<and> confreg s d = NOT 0"

fun pci_arch_scan_cls :: "pci_cls_tbl list \<Rightarrow> u32 \<Rightarrow> addr" where
  "pci_arch_scan_cls [] cls = NULL"
| "pci_arch_scan_cls (p # tbl) cls =
     (if cls AND cls_mask p = cls_val p then cls_driver p else pci_arch_scan_cls tbl cls)"

section \<open>The bus\<close>

definition pcidev_conf_read32 ::
  "(addr \<Rightarrow> 'a pci_state_scheme pci_dom_ops) \<Rightarrow> addr \<Rightarrow> u32 \<Rightarrow> 'a pci_state_scheme \<Rightarrow> 'a pci_state_scheme \<times> u32" where
  "pcidev_conf_read32 ops dev a s =
     (let pd = pci_domain (pdevs s dev)
      in read_conf32 (ops (d_ops (pdoms s pd))) pd (CONF_LOC (pci_bdf (pdevs s dev)) a) s)"

definition pcidev_conf_write32 ::
  "(addr \<Rightarrow> 'a pci_state_scheme pci_dom_ops) \<Rightarrow> addr \<Rightarrow> u32 \<Rightarrow> u32 \<Rightarrow> 'a pci_state_scheme \<Rightarrow> 'a pci_state_scheme" where
  "pcidev_conf_write32 ops dev a v s =
     (let pd = pci_domain (pdevs s dev)
      in write_conf32 (ops (d_ops (pdoms s pd))) pd (CONF_LOC (pci_bdf (pdevs s dev)) a) v s)"

definition pcidev_conf_read16 ::
  "(addr \<Rightarrow> 'a pci_state_scheme pci_dom_ops) \<Rightarrow> addr \<Rightarrow> u32 \<Rightarrow> 'a pci_state_scheme \<Rightarrow> 'a pci_state_scheme \<times> u16" where
  "pcidev_conf_read16 ops dev a s =
     (let pd = pci_domain (pdevs s dev)
      in read_conf16 (ops (d_ops (pdoms s pd))) pd (CONF_LOC (pci_bdf (pdevs s dev)) a) s)"

definition pcidev_conf_write16 ::
  "(addr \<Rightarrow> 'a pci_state_scheme pci_dom_ops) \<Rightarrow> addr \<Rightarrow> u32 \<Rightarrow> u16 \<Rightarrow> 'a pci_state_scheme \<Rightarrow> 'a pci_state_scheme" where
  "pcidev_conf_write16 ops dev a v s =
     (let pd = pci_domain (pdevs s dev)
      in write_conf8 (ops (d_ops (pdoms s pd))) pd (CONF_LOC (pci_bdf (pdevs s dev)) a) (ucast v) s)"

definition pcidev_conf_read8 ::
  "(addr \<Rightarrow> 'a pci_state_scheme pci_dom_ops) \<Rightarrow> addr \<Rightarrow> u32 \<Rightarrow> 'a pci_state_scheme \<Rightarrow> 'a pci_state_scheme \<times> u8" where
  "pcidev_conf_read8 ops dev a s =
     (let pd = pci_domain (pdevs s dev)
      in read_conf8 (ops (d_ops (pdoms s pd))) pd (CONF_LOC (pci_bdf (pdevs s dev)) a) s)"

definition pcidev_conf_write8 ::
  "(addr \<Rightarrow> 'a pci_state_scheme pci_dom_ops) \<Rightarrow> addr \<Rightarrow> u32 \<Rightarrow> u8 \<Rightarrow> 'a pci_state_scheme \<Rightarrow> 'a pci_state_scheme" where
  "pcidev_conf_write8 ops dev a v s =
     (let pd = pci_domain (pdevs s dev)
      in write_conf8 (ops (d_ops (pdoms s pd))) pd (CONF_LOC (pci_bdf (pdevs s dev)) a) v s)"

definition pci_driver_lookup :: "pci_cls_tbl list \<Rightarrow> u32 \<Rightarrow> u32 \<Rightarrow> addr" where
  "pci_driver_lookup tbl devid cls = pci_arch_scan_cls tbl cls"

text \<open>Each base address register is read, overwritten with ones and read again to learn its size;
  \<open>scan_bar_next\<close> is the index the loop goes on with.\<close>

definition scan_bar_next :: "nat \<Rightarrow> u32 \<Rightarrow> nat" where
  "scan_bar_next i bar =
     (if bar = 0 then Suc i else if bar AND 1 \<noteq> 0 then Suc i
      else if drop_bit 1 (bar AND 0x3) = 2 then Suc (Suc i) else Suc i)"

function scan_bars_loop ::
  "(addr \<Rightarrow> 'a pci_state_scheme pci_dom_ops) \<Rightarrow> addr \<Rightarrow> nat \<Rightarrow> 'a pci_state_scheme \<Rightarrow> 'a pci_state_scheme" where
  "scan_bars_loop ops dev i s =
     (if i < PCI_NUM_BARS
      then let a = PCI_CONF0_BAR0 + push_bit 2 (of_nat i);
               (s, bar) = pcidev_conf_read32 ops dev a s;
               s = pcidev_conf_write32 ops dev a (NOT 0) s;
               (s, sz) = pcidev_conf_read32 ops dev a s
           in scan_bars_loop ops dev (scan_bar_next i bar) s
      else s)"
  by pat_completeness auto
termination
  by (relation "measure (\<lambda>(ops, dev, i, s). PCI_NUM_BARS - i)") (auto simp: scan_bar_next_def)

definition pcidev_scan_bars ::
  "(addr \<Rightarrow> 'a pci_state_scheme pci_dom_ops) \<Rightarrow> addr \<Rightarrow> 'a pci_state_scheme \<Rightarrow> 'a pci_state_scheme" where
  "pcidev_scan_bars ops dev s =
     (let s = scan_bars_loop ops dev 0 s;
          (s, irq) = pcidev_conf_read32 ops dev PCI_CONF0_IRQ s
      in s)"

type_synonym ('m, 's) attach_fn = "addr \<Rightarrow> addr \<Rightarrow> 'm \<times> 's \<Rightarrow> (('m \<times> 's) \<times> int) option"

definition pcidev_add ::
  "(addr \<Rightarrow> 'a pci_state_scheme pci_dom_ops) \<Rightarrow> pci_cls_tbl list \<Rightarrow>
   ('m kmalloc_state_scheme, 'a pci_state_scheme) attach_fn \<Rightarrow> addr \<Rightarrow> u32 \<Rightarrow> u32 \<Rightarrow> u32 \<Rightarrow>
   'm kmalloc_state_scheme \<times> 'a pci_state_scheme \<Rightarrow> ('m kmalloc_state_scheme \<times> 'a pci_state_scheme) option" where
  "pcidev_add ops tbl attach pd b d f = (\<lambda>(m, s). do {
     (m, dev) \<leftarrow> kmalloc sizeof_pci_dev m;
     if dev = NULL then Some (m, s)
     else do {
       let s = s\<lparr>pdevs := (pdevs s)(dev := (pdevs s dev)\<lparr>pci_domain := pd, pci_driver := NULL,
                  pci_bdf := PCI_BDF b d f\<rparr>)\<rparr>;
       let s = s\<lparr>plinks := list_add_tail (plinks s) (PciList dev) (DDevices pd)\<rparr>;
       let (s, devid) = pcidev_conf_read32 ops dev PCI_CONF_ID s;
       let (s, cls) = pcidev_conf_read32 ops dev PCI_CONF_CLASSREV s;
       let s = pcidev_scan_bars ops dev s;
       let drv = pci_driver_lookup tbl devid cls;
       let s = s\<lparr>pdevs := (pdevs s)(dev := (pdevs s dev)\<lparr>pci_driver := drv\<rparr>)\<rparr>;
       if drv \<noteq> NULL
       then do { (ms, r) \<leftarrow> attach drv dev (m, s); Some ms }
       else Some (m, s)
     }
   })"

fun probe_funcs ::
  "(addr \<Rightarrow> 'a pci_state_scheme pci_dom_ops) \<Rightarrow> pci_cls_tbl list \<Rightarrow>
   ('m kmalloc_state_scheme, 'a pci_state_scheme) attach_fn \<Rightarrow> addr \<Rightarrow> u32 \<Rightarrow> u32 \<Rightarrow> nat list \<Rightarrow>
   'm kmalloc_state_scheme \<times> 'a pci_state_scheme \<Rightarrow> ('m kmalloc_state_scheme \<times> 'a pci_state_scheme) option" where
  "probe_funcs ops tbl attach pd b d [] ms = Some ms"
| "probe_funcs ops tbl attach pd b d (f # fs) ms = (case ms of (m, s) \<Rightarrow>
     let bdf = PCI_BDF b d (of_nat f);
         o' = ops (d_ops (pdoms s pd));
         (s, devid) = read_conf32 o' pd (CONF_LOC bdf PCI_CONF_ID) s
     in if devid = NOT 0
        then (if f = 0 then Some (m, s) else probe_funcs ops tbl attach pd b d fs (m, s))
        else let (s, type) = read_conf8 o' pd (CONF_LOC bdf PCI_CONF_HDRTYPE) s in do {
          ms \<leftarrow> (if type AND 0x7f = 0 then pcidev_add ops tbl attach pd b d (of_nat f) (m, s) else Some (m, s));
          if f = 0 \<and> type AND 0x80 = 0 then Some ms else probe_funcs ops tbl attach pd b d fs ms
        })"

definition probe_dev ::
  "(addr \<Rightarrow> 'a pci_state_scheme pci_dom_ops) \<Rightarrow> pci_cls_tbl list \<Rightarrow>
   ('m kmalloc_state_scheme, 'a pci_state_scheme) attach_fn \<Rightarrow> addr \<Rightarrow> u32 \<Rightarrow> u32 \<Rightarrow>
   'm kmalloc_state_scheme \<times> 'a pci_state_scheme \<Rightarrow> ('m kmalloc_state_scheme \<times> 'a pci_state_scheme) option" where
  "probe_dev ops tbl attach pd b d = probe_funcs ops tbl attach pd b d [0..<PCI_NUM_FUNCS]"

primrec mfold :: "('i \<Rightarrow> 's \<Rightarrow> 's option) \<Rightarrow> 'i list \<Rightarrow> 's \<Rightarrow> 's option" where
  "mfold f [] s = Some s"
| "mfold f (i # is) s = do { s \<leftarrow> f i s; mfold f is s }"

definition probe_bus ::
  "(addr \<Rightarrow> 'a pci_state_scheme pci_dom_ops) \<Rightarrow> pci_cls_tbl list \<Rightarrow>
   ('m kmalloc_state_scheme, 'a pci_state_scheme) attach_fn \<Rightarrow> addr \<Rightarrow> u32 \<Rightarrow>
   'm kmalloc_state_scheme \<times> 'a pci_state_scheme \<Rightarrow> ('m kmalloc_state_scheme \<times> 'a pci_state_scheme) option" where
  "probe_bus ops tbl attach pd b =
     mfold (\<lambda>d. probe_dev ops tbl attach pd b (of_nat d)) [0..<PCI_NUM_DEVS]"

definition probe_domain ::
  "(addr \<Rightarrow> 'a pci_state_scheme pci_dom_ops) \<Rightarrow> pci_cls_tbl list \<Rightarrow>
   ('m kmalloc_state_scheme, 'a pci_state_scheme) attach_fn \<Rightarrow> addr \<Rightarrow>
   'm kmalloc_state_scheme \<times> 'a pci_state_scheme \<Rightarrow> ('m kmalloc_state_scheme \<times> 'a pci_state_scheme) option" where
  "probe_domain ops tbl attach pd =
     mfold (\<lambda>b. probe_bus ops tbl attach pd (of_nat b)) [0..<PCI_NUM_BUSSES]"

definition pci_domain_add :: "addr \<Rightarrow> 'a pci_state_scheme \<Rightarrow> 'a pci_state_scheme" where
  "pci_domain_add pd s =
     (let s = s\<lparr>plinks := list_add_tail (plinks s) (DList pd) PDomains\<rparr>;
          s = s\<lparr>plinks := INIT_LIST_HEAD (plinks s) (DDevices pd)\<rparr>
      in s\<lparr>pdoms := (pdoms s)(pd := (pdoms s pd)\<lparr>d_domain := num_domains s\<rparr>),
           num_domains := num_domains s + 1\<rparr>)"

definition pci_arch_init :: "device \<Rightarrow> addr \<Rightarrow> 'a pci_state_scheme \<Rightarrow> 'a pci_state_scheme" where
  "pci_arch_init dev conf1 s =
     (let (s, pci_conf) = pci_probe dev s
      in if pci_conf = 1 then pci_domain_add conf1 s else s)"

text \<open>The walk over the list of domains; the list does not change during it.\<close>

partial_function (option) pci_init_loop ::
  "(addr \<Rightarrow> 'a pci_state_scheme pci_dom_ops) \<Rightarrow> pci_cls_tbl list \<Rightarrow>
   ('m kmalloc_state_scheme, 'a pci_state_scheme) attach_fn \<Rightarrow> pci_node \<Rightarrow>
   'm kmalloc_state_scheme \<times> 'a pci_state_scheme \<Rightarrow> ('m kmalloc_state_scheme \<times> 'a pci_state_scheme) option" where
  "pci_init_loop ops tbl attach n ms =
     (case n of DList pd \<Rightarrow> do {
          ms \<leftarrow> probe_domain ops tbl attach pd ms;
          pci_init_loop ops tbl attach (lh_next (plinks (snd ms) n)) ms
        }
      | _ \<Rightarrow> Some ms)"

definition pci_init ::
  "device \<Rightarrow> (addr \<Rightarrow> 'a pci_state_scheme pci_dom_ops) \<Rightarrow> pci_cls_tbl list \<Rightarrow>
   ('m kmalloc_state_scheme, 'a pci_state_scheme) attach_fn \<Rightarrow> addr \<Rightarrow>
   'm kmalloc_state_scheme \<times> 'a pci_state_scheme \<Rightarrow> ('m kmalloc_state_scheme \<times> 'a pci_state_scheme) option" where
  "pci_init dev ops tbl attach conf1 = (\<lambda>(m, s).
     let s = pci_arch_init dev conf1 s
     in pci_init_loop ops tbl attach (lh_next (plinks s PDomains)) (m, s))"

section \<open>What the bus sees\<close>

text \<open>The accesses to the data port, each with the address that the address register holds at that
  moment; \<open>l\<close> is the address it holds first.\<close>

datatype conf_access = ARead nat u16 | AWrite nat u16 u32

fun conf_seen :: "u32 \<Rightarrow> port_op list \<Rightarrow> (u32 \<times> conf_access) list" where
  "conf_seen l [] = []"
| "conf_seen l (POut w p v # io) =
     (if w = 32 \<and> p = 0xcf8 then conf_seen v io else (l, AWrite w p v) # conf_seen l io)"
| "conf_seen l (PIn w p v # io) = (l, ARead w p) # conf_seen l io"

text \<open>An access to the register \<open>r\<close> of a function of a device, and what it should be on the bus. The
  16 and 8-bit writes of the driver are special: see below.\<close>

datatype conf_op = CRead32 | CWrite32 u32 | CRead16 | CWrite16 u16 | CRead8 | CWrite8 u8

fun conf_run :: "device \<Rightarrow> addr \<Rightarrow> u32 \<Rightarrow> conf_op \<Rightarrow> 'a pci_state_scheme \<Rightarrow> 'a pci_state_scheme" where
  "conf_run dev d a CRead32 s = fst (read_conf32 (pci_conf1_ops dev) d a s)"
| "conf_run dev d a (CWrite32 v) s = write_conf32 (pci_conf1_ops dev) d a v s"
| "conf_run dev d a CRead16 s = fst (read_conf16 (pci_conf1_ops dev) d a s)"
| "conf_run dev d a (CWrite16 v) s = write_conf16 (pci_conf1_ops dev) d a v s"
| "conf_run dev d a CRead8 s = fst (read_conf8 (pci_conf1_ops dev) d a s)"
| "conf_run dev d a (CWrite8 v) s = write_conf8 (pci_conf1_ops dev) d a v s"

fun conf_expect :: "u32 \<Rightarrow> conf_op \<Rightarrow> conf_access" where
  "conf_expect a CRead32 = ARead 32 0xcfc"
| "conf_expect a (CWrite32 v) = AWrite 32 0xcfc v"
| "conf_expect a CRead16 = ARead 16 (0xcfc + (ucast a AND 2))"
| "conf_expect a (CWrite16 v) = AWrite 16 0xcfc (ucast (v + (ucast a AND 2)))"
| "conf_expect a CRead8 = ARead 8 (0xcfc + (ucast a AND 3))"
| "conf_expect a (CWrite8 v) = AWrite 8 0xcfc (ucast (v + (ucast a AND 3)))"

type_synonym conf_req = "(u32 \<times> u32 \<times> u32) \<times> u32 \<times> conf_op"

fun conf_addr :: "conf_req \<Rightarrow> u32" where
  "conf_addr ((b, d, f), r, c) = CONF_LOC (PCI_BDF b d f) r"

definition conf_runs :: "device \<Rightarrow> addr \<Rightarrow> conf_req list \<Rightarrow> 'a pci_state_scheme \<Rightarrow> 'a pci_state_scheme" where
  "conf_runs dev d = fold (\<lambda>q. conf_run dev d (conf_addr q) (snd (snd q)))"

lemma conf_loc_valid: "CONF_LOC (PCI_BDF b d f) r \<noteq> NOT 0"
proof
  assume "CONF_LOC (PCI_BDF b d f) r = NOT 0"
  then have "bit (CONF_LOC (PCI_BDF b d f) r) 24" by (simp add: bit_simps)
  moreover have "\<not> bit (CONF_LOC (PCI_BDF b d f) r) 24"
    by (simp add: CONF_LOC_def PCI_BDF_def PCI_BUS_SHIFT_def PCI_DEV_SHIFT_def PCI_FUNC_SHIFT_def
        PCI_BUS_MASK_def PCI_DEV_MASK_def PCI_FUNC_MASK_def PCI_NUM_BUSSES_def PCI_NUM_DEVS_def
        PCI_NUM_FUNCS_def bit_simps)
  ultimately show False by simp
qed

lemma ucast_add16: "ucast (x + y :: u32) = (ucast x + ucast y :: u16)"
proof -
  have "(m + n) mod 65536 = (m mod 4294967296 + n mod 4294967296) mod 65536" for m n :: int
  proof -
    have d: "(65536 :: int) dvd 4294967296" by simp
    have "(m mod 4294967296 + n mod 4294967296) mod 65536 =
        (m mod 4294967296 mod 65536 + n mod 4294967296 mod 65536) mod 65536" by (simp only: mod_add_eq)
    then show ?thesis unfolding mod_mod_cancel [OF d] by (simp only: mod_add_eq)
  qed
  then show ?thesis by transfer (simp add: take_bit_eq_mod mod_mod_cancel)
qed

lemma conf_run_step:
  assumes "a \<noteq> NOT 0" "confreg s d = NOT 0 \<or> confreg s d = l"
  shows "\<exists>io. io_log (conf_run dev d a c s) = io_log s @ io \<and> confreg (conf_run dev d a c s) d = a \<and>
    (\<forall>more. conf_seen l (io @ more) = (a, conf_expect a c) # conf_seen a more)"
proof -
  have u: "ucast (a AND 2) = (ucast a AND 2 :: u16)" "ucast (a AND 3) = (ucast a AND 3 :: u16)"
    "ucast (a AND 3) = (ucast a AND 3 :: u8)"
    by (rule bit_word_eqI; auto simp: bit_simps)+
  have "confreg s d = a \<Longrightarrow> l = a" using assms by auto
  then show ?thesis
    by (cases c) (auto simp: pci_conf1_ops_def read_conf1_32_def write_conf1_32_def read_conf1_16_def
        write_conf1_16_def read_conf1_8_def write_conf1_8_def conf_latch_def inl_def inw_def inb_def
        outl_def outw_def outb_def Let_def PCI_CONFREG_def PCI_CONFDATA_def u ucast_add16)
qed

lemma conf_runs_seen:
  assumes "confreg s d = NOT 0 \<or> confreg s d = l"
  shows "\<exists>io. io_log (conf_runs dev d qs s) = io_log s @ io \<and>
    conf_seen l io = map (\<lambda>q. (conf_addr q, conf_expect (conf_addr q) (snd (snd q)))) qs"
  using assms
proof (induction qs arbitrary: s l)
  case Nil
  then show ?case by (simp add: conf_runs_def)
next
  case (Cons q qs)
  have "conf_addr q \<noteq> NOT 0" by (cases q rule: conf_addr.cases) (use conf_loc_valid in simp)
  from conf_run_step [OF this Cons.prems, of dev "snd (snd q)"] obtain io where io:
    "io_log (conf_run dev d (conf_addr q) (snd (snd q)) s) = io_log s @ io"
    "confreg (conf_run dev d (conf_addr q) (snd (snd q)) s) d = conf_addr q"
    "\<And>more. conf_seen l (io @ more) = (conf_addr q, conf_expect (conf_addr q) (snd (snd q))) # conf_seen (conf_addr q) more"
    by blast
  from Cons.IH [OF disjI2, OF io(2)] io(1,3) show ?case by (auto simp: conf_runs_def)
qed

text \<open>
  C24. The driver caches the address it last wrote to the configuration address register and skips the
  write when the address has not changed. From the initial value of the cache on, whatever the
  register holds then and whatever the sequence of configuration accesses, every access to the data
  port finds the register holding the address of the bus, device, function and register that was
  asked for, and there is exactly one such access for each request.
\<close>

theorem pci_conf_latched:
  "\<exists>io. io_log (conf_runs dev d qs (s\<lparr>confreg := (confreg s)(d := NOT 0)\<rparr>)) = io_log s @ io \<and>
    conf_seen l io = map (\<lambda>q. (conf_addr q, conf_expect (conf_addr q) (snd (snd q)))) qs"
  using conf_runs_seen [of "s\<lparr>confreg := (confreg s)(d := NOT 0)\<rparr>" d l dev qs] by simp

end
