(* ===== verification/Paging.thy ===== *)
theory Paging
  imports Kmalloc
begin

text \<open>
  Page tables: the macros of \<^verbatim>\<open>include/arch-ia32/mm.h\<close> and the memory contexts of
  \<^verbatim>\<open>arch-ia32/mm.c\<close>. A page directory is a frame of 1024 entries of the byte memory; an entry that
  is present holds the physical address of a page table. The kernel sees physical memory at
  \<open>PAGE_OFFSET\<close>, so the byte at the physical address \<open>p\<close> is \<open>kmem (va p)\<close>. \<open>mmu_walk\<close> is the
  translation the processor makes. Every change of a table is followed by a flush of the translation
  buffer, which therefore never holds a stale entry and is not part of the state; \<open>cr3\<close> is the
  control register with the physical address of the directory in use.
\<close>

subsection \<open>Macros\<close>

definition NR_PDE :: nat where "NR_PDE = 1024"
definition NR_PTE :: nat where "NR_PTE = 1024"
definition PDE_SHIFT :: nat where "PDE_SHIFT = 10 + PAGE_SHIFT"

definition dir_bits :: "u32 \<Rightarrow> u32" where "dir_bits x = x AND 0xFFC00000"
definition tbl_bits :: "u32 \<Rightarrow> u32" where "tbl_bits x = x AND 0x003FF000"
definition ofs_bits :: "u32 \<Rightarrow> u32" where "ofs_bits x = x AND 0x00000FFF"
definition dir :: "u32 \<Rightarrow> u32" where "dir x = drop_bit 22 (dir_bits x)"
definition tbl :: "u32 \<Rightarrow> u32" where "tbl x = drop_bit 12 (tbl_bits x)"
definition ofs :: "u32 \<Rightarrow> u32" where "ofs x = ofs_bits x"
definition mkvirt :: "u32 \<Rightarrow> u32 \<Rightarrow> u32 \<Rightarrow> u32" where
  "mkvirt d t p = dir_bits (push_bit 22 d) OR tbl_bits (push_bit 12 t) OR ofs_bits p"
definition pg_val :: "u32 \<Rightarrow> u32" where "pg_val x = x AND 0xFFFFF000"

definition PDE_PRESENT :: u32 where "PDE_PRESENT = push_bit 0 1"
definition PDE_RW :: u32 where "PDE_RW = push_bit 1 1"
definition PDE_USER :: u32 where "PDE_USER = push_bit 2 1"
definition PTE_PRESENT :: u32 where "PTE_PRESENT = push_bit 0 1"
definition PTE_RW :: u32 where "PTE_RW = push_bit 1 1"
definition PTE_USER :: u32 where "PTE_USER = push_bit 2 1"

definition PROT_READ :: u32 where "PROT_READ = push_bit 0 1"
definition PROT_EXEC :: u32 where "PROT_EXEC = push_bit 2 1"
definition PROT_WRITE :: u32 where "PROT_WRITE = push_bit 3 1"

text \<open>Element \<open>i\<close> of an array of 32-bit words.\<close>

abbreviation ent :: "mem \<Rightarrow> addr \<Rightarrow> u32 \<Rightarrow> u32" where
  "ent m t i \<equiv> read32 m (t + 4 * i)"

abbreviation set_ent :: "addr \<Rightarrow> u32 \<Rightarrow> u32 \<Rightarrow> 'a buddy_scheme \<Rightarrow> 'a buddy_scheme" where
  "set_ent t i w s \<equiv> s\<lparr>kmem := write32 (kmem s) (t + 4 * i) w\<rparr>"

record cpu_state = kmalloc_state +
  cr3 :: u32

definition load_pdbr :: "u32 \<Rightarrow> 'a cpu_state_scheme \<Rightarrow> 'a cpu_state_scheme" where
  "load_pdbr pgdir s = s\<lparr>cr3 := pgdir\<rparr>"

subsection \<open>The kernel's tables\<close>

primrec zero_dir :: "addr \<Rightarrow> nat \<Rightarrow> 'a buddy_scheme \<Rightarrow> 'a buddy_scheme" where
  "zero_dir d 0 s = s"
| "zero_dir d (Suc i) s = set_ent d (of_nat i) 0 (zero_dir d i s)"

primrec init_tbl :: "addr \<Rightarrow> nat \<Rightarrow> 'a buddy_scheme \<Rightarrow> 'a buddy_scheme" where
  "init_tbl t 0 s = s"
| "init_tbl t (Suc i) s =
     set_ent t (of_nat i) (push_bit PAGE_SHIFT (of_nat i) OR PTE_PRESENT OR PTE_RW OR PTE_USER) (init_tbl t i s)"

text \<open>Runs before paging is on: \<open>pgd_pa\<close> and \<open>pgt_pa\<close> are the physical addresses of the linker symbols.\<close>

definition ia32_setup_initmem :: "u32 \<Rightarrow> u32 \<Rightarrow> 'a cpu_state_scheme \<Rightarrow> 'a cpu_state_scheme" where
  "ia32_setup_initmem pgd_pa pgt_pa s =
     (let s = zero_dir (va pgd_pa) NR_PDE s;
          s = init_tbl (va pgt_pa) NR_PTE s;
          s = set_ent (va pgd_pa) 0 (pgt_pa OR PDE_PRESENT OR PDE_RW) s;
          s = set_ent (va pgd_pa) (dir PAGE_OFFSET) (pgt_pa OR PDE_PRESENT OR PDE_RW OR PDE_USER) s
      in load_pdbr pgd_pa s)"

primrec map_ram_tbl :: "addr \<Rightarrow> nat \<Rightarrow> 'a buddy_scheme \<Rightarrow> 'a buddy_scheme" where
  "map_ram_tbl t 0 s = s"
| "map_ram_tbl t (Suc i) s =
     set_ent t (of_nat i) (push_bit PAGE_SHIFT (of_nat i) OR PTE_PRESENT OR PTE_RW) (map_ram_tbl t i s)"

primrec map_ram_dir :: "addr \<Rightarrow> addr \<Rightarrow> nat \<Rightarrow> 'a buddy_scheme \<Rightarrow> 'a buddy_scheme" where
  "map_ram_dir d t 0 s = s"
| "map_ram_dir d t (Suc i) s =
     (let s = map_ram_dir d t i s
      in if (of_nat i :: u32) AND 0x3ff \<noteq> 0 then s
         else set_ent d (dir (va (push_bit PAGE_SHIFT (of_nat i)))) (pa (t + 4 * of_nat i) OR PDE_PRESENT OR PDE_RW) s)"

definition map_ram :: "addr \<Rightarrow> addr \<Rightarrow> 'a buddy_scheme \<Rightarrow> 'a buddy_scheme" where
  "map_ram pgdir pgtbl s =
     (let s = set_ent pgdir 0 0 s;
          s = map_ram_tbl pgtbl (unat (nr_physpages s)) s
      in map_ram_dir pgdir pgtbl (unat (nr_physpages s)) s)"

text \<open>The loop of \<open>write_protect\<close> counts \<open>i\<close> from \<open>pa_begin\<close> to \<open>pa_end\<close>.\<close>

primrec write_protect_loop :: "addr \<Rightarrow> u32 \<Rightarrow> nat \<Rightarrow> 'a buddy_scheme \<Rightarrow> 'a buddy_scheme" where
  "write_protect_loop t i 0 s = s"
| "write_protect_loop t i (Suc n) s = write_protect_loop t (i + 1) n (set_ent t i (push_bit PAGE_SHIFT i OR PTE_PRESENT) s)"

definition write_protect :: "addr \<Rightarrow> addr \<Rightarrow> u32 \<Rightarrow> 'a buddy_scheme \<Rightarrow> 'a buddy_scheme" where
  "write_protect pgtbl vptr len s =
     (let pa_begin = pa vptr AND NOT PAGE_MASK;
          pa_end = pa_begin + len;
          pa_end = (pa_end + PAGE_MASK) AND NOT PAGE_MASK;
          pa_begin = drop_bit PAGE_SHIFT pa_begin;
          pa_end = drop_bit PAGE_SHIFT pa_end
      in write_protect_loop pgtbl pa_begin (unat pa_end - unat pa_begin) s)"

subsection \<open>Memory contexts\<close>

record arch_ctx =
  pgd :: u32

definition setup_kthread_ctx :: "u32 \<Rightarrow> arch_ctx \<Rightarrow> arch_ctx" where
  "setup_kthread_ctx init_pgd_pa ctx = ctx\<lparr>pgd := init_pgd_pa\<rparr>"

text \<open>The copy loop of \<open>setup_new_ctx\<close> and \<open>clone_ctx\<close>.\<close>

primrec copy_dir :: "addr \<Rightarrow> addr \<Rightarrow> nat \<Rightarrow> 'a buddy_scheme \<Rightarrow> 'a buddy_scheme" where
  "copy_dir d f 0 s = s"
| "copy_dir d f (Suc i) s = (let s = copy_dir d f i s in set_ent d (of_nat i) (ent (kmem s) f (of_nat i)) s)"

definition setup_new_ctx :: "addr \<Rightarrow> arch_ctx \<Rightarrow> 'a buddy_scheme \<Rightarrow> ('a buddy_scheme \<times> arch_ctx \<times> int) option" where
  "setup_new_ctx init_pgd ctx s = do {
     (s, d) \<leftarrow> alloc_page s;
     if d = NULL then Some (s, ctx, - 1)
     else do {
       let s = copy_dir d init_pgd NR_PDE s;
       Some (s, ctx\<lparr>pgd := pa d\<rparr>, 0)
     }
   }"

definition clone_ctx :: "arch_ctx \<Rightarrow> arch_ctx \<Rightarrow> 'a buddy_scheme \<Rightarrow> ('a buddy_scheme \<times> arch_ctx \<times> int) option" where
  "clone_ctx old new s = do {
     (s, d) \<leftarrow> alloc_page s;
     if d = NULL then Some (s, new, - 1)
     else do {
       let s = copy_dir d (va (pgd old)) NR_PDE s;
       Some (s, new\<lparr>pgd := pa d\<rparr>, 0)
     }
   }"

definition destroy_ctx :: "arch_ctx \<Rightarrow> 'a buddy_scheme \<Rightarrow> 'a buddy_scheme option" where
  "destroy_ctx ctx s = free_page s (va (pgd ctx))"

definition use_ctx :: "arch_ctx \<Rightarrow> 'a cpu_state_scheme \<Rightarrow> 'a cpu_state_scheme" where
  "use_ctx ctx s = load_pdbr (pgd ctx) s"

definition map_page_to_ctx :: "arch_ctx \<Rightarrow> nat \<Rightarrow> u32 \<Rightarrow> u32 \<Rightarrow> 'a buddy_scheme \<Rightarrow> ('a buddy_scheme \<times> int) option" where
  "map_page_to_ctx ctx page a prot s = do {
     BUG_ON (a \<ge> PAGE_OFFSET);
     let pd = va (pgd ctx);
     (s, pt) \<leftarrow>
       (if ent (kmem s) pd (dir a) AND PDE_PRESENT = 0
        then do {
          (s, pt) \<leftarrow> alloc_page s;
          if pt = NULL then Some (s, None)
          else do {
            let s = s\<lparr>kmem := memset (kmem s) pt 0 (of_nat NR_PTE * 4)\<rparr>;
            let s = set_ent pd (dir a) (pa pt OR PDE_PRESENT OR PDE_RW OR PDE_USER) s;
            Some (s, Some pt)
          }
        }
        else Some (s, Some (va (pg_val (ent (kmem s) pd (dir a))))));
     case pt of
       None \<Rightarrow> Some (s, - 1)
     | Some pt \<Rightarrow> do {
         let tblent = page_phys page OR PTE_PRESENT OR PTE_USER;
         let tblent = (if prot AND PROT_WRITE \<noteq> 0 then tblent OR PTE_RW else tblent);
         Some (set_ent pt (tbl a) tblent s, 0)
       }
   }"

subsection \<open>Address translation\<close>

text \<open>What the processor does with a virtual address: the physical address and whether both levels
  allow user mode and writing, or a page fault.\<close>

record translation =
  tr_phys :: u32
  tr_user :: bool
  tr_write :: bool

definition mmu_walk :: "mem \<Rightarrow> u32 \<Rightarrow> u32 \<Rightarrow> translation option" where
  "mmu_walk m cr a =
     (let pde = ent m (va (pg_val cr)) (dir a)
      in if \<not> bit pde 0 then None
         else let pte = ent m (va (pg_val pde)) (tbl a)
              in if \<not> bit pte 0 then None
                 else Some \<lparr>tr_phys = pg_val pte OR ofs a, tr_user = (bit pde 2 \<and> bit pte 2), tr_write = (bit pde 1 \<and> bit pte 1)\<rparr>)"

subsection \<open>Entries\<close>

lemma masks: "0xFFFFF000 = NOT (mask 12 :: u32)" "0xFFC00000 = NOT (mask 22 :: u32)" "0x003FF000 = push_bit 12 (mask 10 :: u32)" "0x00000FFF = (mask 12 :: u32)"
  by (simp_all add: mask_eq_exp_minus_1 push_bit_eq_mult)

lemma dir_eq: "dir a = drop_bit 22 a"
  unfolding dir_def dir_bits_def masks by (rule bit_word_eqI) (auto simp: bit_simps dest: bit_imp_le_length)

lemma tbl_eq: "tbl a = take_bit 10 (drop_bit 12 a)"
  unfolding tbl_def tbl_bits_def masks by (rule bit_word_eqI) (auto simp: bit_simps dest: bit_imp_le_length)

lemma dir_tbl_less: "unat (dir a) < 1024" "unat (tbl a) < 1024"
proof -
  have "unat a < 2 ^ 32" using unsigned_less[of a, where 'a = nat] by simp
  then show "unat (dir a) < 1024" by (simp add: dir_eq drop_bit_eq_div unat_div_distrib)
  have "unat (tbl a) = take_bit 10 (unat (drop_bit 12 a))" by (simp add: tbl_eq unsigned_take_bit_eq)
  then show "unat (tbl a) < 1024" using take_bit_nat_less_exp[of 10 "unat (drop_bit 12 a)"] by simp
qed

lemma page_mask: "PAGE_MASK = mask 12"
  by (simp add: page_consts mask_eq_exp_minus_1)

lemma bit_split: "bit a n \<longleftrightarrow> (if n < 12 then bit (ofs a) n else if n < 22 then bit (tbl a) (n - 12) else bit (dir a) (n - 22))"
  for a :: u32
  unfolding ofs_def ofs_bits_def masks dir_eq tbl_eq by (auto simp: bit_simps)

lemma same_page: "dir a = dir b \<and> tbl a = tbl b \<longleftrightarrow> va_round_down a = va_round_down b"
proof
  assume "dir a = dir b \<and> tbl a = tbl b"
  then show "va_round_down a = va_round_down b" unfolding va_round_down_def page_mask
    by (intro bit_word_eqI) (auto simp: bit_simps bit_split[of a] bit_split[of b])
next
  assume eq: "va_round_down a = va_round_down b"
  have "bit a n = bit b n" if "12 \<le> n" for n
  proof -
    have "bit (va_round_down a) n = bit (va_round_down b) n" using eq by simp
    then show ?thesis using that unfolding va_round_down_def page_mask by (auto simp: bit_simps dest: bit_imp_le_length)
  qed
  then show "dir a = dir b \<and> tbl a = tbl b" unfolding dir_eq tbl_eq by (intro conjI bit_word_eqI) (auto simp: bit_simps)
qed

lemma page_phys_bits: "bit (page_phys i) n \<Longrightarrow> 12 \<le> n"
  by (auto simp: page_phys_def PAGE_SHIFT_def bit_simps)

lemma low_flags: "bit f n \<Longrightarrow> (f :: u32) < 4096 \<Longrightarrow> n < 12"
proof (rule ccontr)
  assume f: "bit f n" "f < 4096" "\<not> n < 12"
  have "take_bit 12 f = f" using f(2) by (intro take_bit_small) (simp add: word_less_nat_alt)
  then have "bit (take_bit 12 f) n" using f(1) by simp
  then show False using f(3) by (simp add: bit_simps)
qed

lemma pg_val_entry:
  assumes "f < 4096"
  shows "pg_val (page_phys i OR f) = page_phys i" "pg_val (page_phys i) = page_phys i"
  unfolding pg_val_def masks by (rule bit_word_eqI; auto simp: bit_simps dest: page_phys_bits low_flags[OF _ assms])+

lemma va_page_phys: "va (page_phys i) = page_address i"
  by (simp add: page_phys_def page_address_def)

lemma pa_page_address: "pa (page_address i) = page_phys i"
  by (simp add: page_phys_def page_address_def pa_def va_def)

lemma ent_slot: "page_address i + 4 * w = slot i 4 (unat w)"
  by (simp add: slot_def mult.commute)

lemma ent_other:
  assumes "i < 262143" "j < 262143" "unat k < 1024" "unat l < 1024" "i \<noteq> j \<or> k \<noteq> l"
  shows "ent (write32 m (page_address i + 4 * k) w) (page_address j) l = ent m (page_address j) l"
  unfolding ent_slot
proof (rule read32_off[where a = "slot i 4 (unat k)" and n = 4])
  show "\<not> unat (b - slot i 4 (unat k)) < 4 \<Longrightarrow> write32 m (slot i 4 (unat k)) w b = m b" for b by (simp add: write32_other)
  show "\<not> unat (slot j 4 (unat l) + of_nat r - slot i 4 (unat k)) < 4" if "r < 4" for r
    using assms that by (intro slots_apart) (auto simp: word_unat_eq_iff)
qed

lemma ent_memset:
  assumes "i < 262143" "j < 262143" "unat l < 1024"
  shows "ent (memset m (page_address i) 0 4096) (page_address j) l = (if i = j then 0 else ent m (page_address j) l)"
proof (cases "i = j")
  case True
  have z: "memset m (page_address i) 0 4096 (slot i 4 (unat l) + of_nat r) = 0" if "r < 4" for r
  proof -
    have eq: "slot i 4 (unat l) + of_nat r - page_address i = of_nat (unat l * 4 + r)" by (simp add: slot_def)
    have "unat (slot i 4 (unat l) + of_nat r - page_address i) = unat l * 4 + r"
      unfolding eq using assms(3) that by (simp add: unat_of_nat take_bit_nat_eq_self del: of_nat_mult of_nat_add)
    then show ?thesis using assms(3) that by (simp add: memset_apply)
  qed
  show ?thesis using True z[of 0] z[of 1] z[of 2] z[of 3] unfolding ent_slot by (simp add: read32_def)
next
  case False
  then show ?thesis unfolding ent_slot
    by (simp, intro read32_off[where a = "page_address i" and n = 4096] page_apart) (use assms in \<open>auto simp: memset_apply\<close>)
qed

subsection \<open>Well-formed directories\<close>

text \<open>The directory in frame \<open>g\<close> has its tables in the frames \<open>T\<close>, each its own, all allocated; the
  tables of user addresses let user mode read and write, so that the table entries decide.\<close>

definition dir_ok :: "'a buddy_scheme \<Rightarrow> nat \<Rightarrow> (u32 \<Rightarrow> nat option) \<Rightarrow> bool" where
  "dir_ok s g T \<longleftrightarrow> unat (nr_physpages s) < 2 ^ 18 - 1 \<and> g < unat (nr_physpages s) \<and> pg_count (pfa s g) \<noteq> 0 \<and>
     (\<forall>d. unat d < 1024 \<longrightarrow>
       (case T d of
          None \<Rightarrow> \<not> bit (ent (kmem s) (page_address g) d) 0
        | Some t \<Rightarrow> bit (ent (kmem s) (page_address g) d) 0 \<and> pg_val (ent (kmem s) (page_address g) d) = page_phys t \<and>
            (unat d < 768 \<longrightarrow> bit (ent (kmem s) (page_address g) d) 1 \<and> bit (ent (kmem s) (page_address g) d) 2) \<and>
            t < unat (nr_physpages s) \<and> pg_count (pfa s t) \<noteq> 0 \<and> t \<noteq> g)) \<and>
     (\<forall>d e t. unat d < 1024 \<longrightarrow> unat e < 1024 \<longrightarrow> T d = Some t \<longrightarrow> T e = Some t \<longrightarrow> d = e)"

lemma dir_okD:
  assumes "dir_ok s g T"
  shows "unat (nr_physpages s) < 262143" "g < unat (nr_physpages s)" "pg_count (pfa s g) \<noteq> 0"
    and "unat d < 1024 \<Longrightarrow> T d = None \<Longrightarrow> \<not> bit (ent (kmem s) (page_address g) d) 0"
    and "unat d < 1024 \<Longrightarrow> T d = Some t \<Longrightarrow> bit (ent (kmem s) (page_address g) d) 0 \<and> pg_val (ent (kmem s) (page_address g) d) = page_phys t \<and>
      (unat d < 768 \<longrightarrow> bit (ent (kmem s) (page_address g) d) 1 \<and> bit (ent (kmem s) (page_address g) d) 2) \<and>
      t < unat (nr_physpages s) \<and> pg_count (pfa s t) \<noteq> 0 \<and> t \<noteq> g"
    and "unat d < 1024 \<Longrightarrow> unat e < 1024 \<Longrightarrow> T d = Some t \<Longrightarrow> T e = Some t \<Longrightarrow> d = e"
  using assms by (auto simp: dir_ok_def split: option.splits)

lemma walk_eq:
  assumes "dir_ok s g T"
  shows "mmu_walk (kmem s) (page_phys g) a =
    (case T (dir a) of None \<Rightarrow> None
     | Some t \<Rightarrow> let pde = ent (kmem s) (page_address g) (dir a); pte = ent (kmem s) (page_address t) (tbl a)
         in if \<not> bit pte 0 then None
            else Some \<lparr>tr_phys = pg_val pte OR ofs a, tr_user = (bit pde 2 \<and> bit pte 2), tr_write = (bit pde 1 \<and> bit pte 1)\<rparr>)"
  using dir_okD(4,5)[OF assms, of "dir a"] dir_tbl_less(1)[of a] pg_val_entry(2)[of 0]
  by (auto simp: mmu_walk_def va_page_phys Let_def split: option.splits)

lemma buddy_rep_kmem: "buddy_rep s F \<Longrightarrow> buddy_rep (s\<lparr>kmem := m\<rparr>) F"
  by (rule buddy_rep_cong) simp_all

lemma set_pte:
  fixes e :: u32
  assumes ok: "dir_ok s g T" and t: "T (dir a) = Some t"
  defines "s' \<equiv> set_ent (page_address t) (tbl a) e s"
  shows "dir_ok s' g T"
    and "mmu_walk (kmem s') (page_phys g) b =
      (if va_round_down b = va_round_down a
       then if bit e 0 then Some \<lparr>tr_phys = pg_val e OR ofs b, tr_user = (bit (ent (kmem s) (page_address g) (dir a)) 2 \<and> bit e 2),
              tr_write = (bit (ent (kmem s) (page_address g) (dir a)) 1 \<and> bit e 1)\<rparr> else None
       else mmu_walk (kmem s) (page_phys g) b)"
proof -
  note D = dir_okD[OF ok]
  have tt: "t < 262143" "t \<noteq> g" "g < 262143" using D(1,2) D(5)[OF dir_tbl_less(1) t] by auto
  have g: "ent (kmem s') (page_address g) d = ent (kmem s) (page_address g) d" if "unat d < 1024" for d
    unfolding s'_def using tt that by (simp add: ent_other dir_tbl_less)
  show ok': "dir_ok s' g T" using ok g unfolding dir_ok_def by (simp add: s'_def cong: option.case_cong)
  have pt: "ent (kmem s') (page_address u) (tbl b) = (if va_round_down b = va_round_down a then e else ent (kmem s) (page_address u) (tbl b))"
    if u: "T (dir b) = Some u" for u
  proof (cases "va_round_down b = va_round_down a")
    case True
    then have "u = t" "tbl b = tbl a" using same_page[of b a] u t by auto
    then show ?thesis using True by (simp add: s'_def)
  next
    case False
    have "u < 262143" using D(1) D(5)[OF dir_tbl_less(1) u] by auto
    moreover have "u \<noteq> t \<or> tbl b \<noteq> tbl a" using D(6)[OF dir_tbl_less(1) dir_tbl_less(1) u, of a] t False same_page[of b a] by auto
    ultimately show ?thesis using False tt ent_other[of t u "tbl a" "tbl b" "kmem s" e] dir_tbl_less by (auto simp: s'_def)
  qed
  show "mmu_walk (kmem s') (page_phys g) b =
      (if va_round_down b = va_round_down a
       then if bit e 0 then Some \<lparr>tr_phys = pg_val e OR ofs b, tr_user = (bit (ent (kmem s) (page_address g) (dir a)) 2 \<and> bit e 2),
              tr_write = (bit (ent (kmem s) (page_address g) (dir a)) 1 \<and> bit e 1)\<rparr> else None
       else mmu_walk (kmem s) (page_phys g) b)"
  proof (cases "T (dir b)")
    case None
    then have "va_round_down b \<noteq> va_round_down a" using t same_page[of b a] by auto
    then show ?thesis by (simp add: walk_eq[OF ok'] walk_eq[OF ok] None)
  next
    case (Some u)
    show ?thesis using pt[OF Some] g[OF dir_tbl_less(1)] same_page[of b a] unfolding walk_eq[OF ok'] walk_eq[OF ok] Some
      by (cases "va_round_down b = va_round_down a") (simp_all add: Let_def)
  qed
qed

lemma new_table:
  assumes rep: "buddy_rep s (i # F)" and ok: "dir_ok s g T" and a: "T (dir a) = None"
  defines "s1 \<equiv> alloc_post s i"
  defines "s' \<equiv> set_ent (page_address g) (dir a) (page_phys i OR 7) (s1\<lparr>kmem := memset (kmem s1) (page_address i) 0 4096\<rparr>)"
  shows "buddy_rep s' F" "dir_ok s' g (T(dir a \<mapsto> i))" "mmu_walk (kmem s') (page_phys g) b = mmu_walk (kmem s) (page_phys g) b"
proof -
  note D = dir_okD[OF ok]
  have s1: "kmem s1 = kmem s" "nr_physpages s1 = nr_physpages s" "pg_count (pfa s1 j) = (if j = i then 1 else pg_count (pfa s j))" for j
    using buddy_repD(5,6)[OF rep, of i] by (simp_all add: s1_def alloc_post_def get_page_def)
  have i: "i < unat (nr_physpages s)" "pg_count (pfa s i) = 0" using buddy_repD(5,6)[OF rep, of i] by auto
  have ne: "g \<noteq> i" "T d = Some t \<Longrightarrow> unat d < 1024 \<Longrightarrow> t \<noteq> i" for d t using D(3) D(5)[of d t] i by auto
  show "buddy_rep s' F" unfolding s'_def s1_def using alloc_post_rep[OF rep] by (simp add: buddy_rep_kmem)
  have bnd: "i < 262143" "g < 262143" using D(1,2) i by auto
  have g: "ent (kmem s') (page_address g) d = (if d = dir a then page_phys i OR 7 else ent (kmem s) (page_address g) d)" if "unat d < 1024" for d
    using bnd ne(1) that by (auto simp: s'_def s1 ent_other ent_memset dir_tbl_less)
  have pde: "pg_val (page_phys i OR 7) = page_phys i" "bit (page_phys i OR 7) 0" "bit (page_phys i OR 7) 1" "bit (page_phys i OR 7) 2"
    using pg_val_entry(1)[of 7 i] by (simp_all add: bit_simps)
  have sel: "nr_physpages s' = nr_physpages s" "pfa s' = pfa s1" by (simp_all add: s'_def s1)
  show ok': "dir_ok s' g (T(dir a \<mapsto> i))"
    unfolding dir_ok_def
  proof (intro conjI allI impI)
    show "case (T(dir a \<mapsto> i)) d of None \<Rightarrow> \<not> bit (ent (kmem s') (page_address g) d) 0
      | Some t \<Rightarrow> bit (ent (kmem s') (page_address g) d) 0 \<and> pg_val (ent (kmem s') (page_address g) d) = page_phys t \<and>
            (unat d < 768 \<longrightarrow> bit (ent (kmem s') (page_address g) d) 1 \<and> bit (ent (kmem s') (page_address g) d) 2) \<and>
            t < unat (nr_physpages s') \<and> pg_count (pfa s' t) \<noteq> 0 \<and> t \<noteq> g" if d: "unat d < 1024" for d
      using g[OF d] D(4)[OF d] D(5)[OF d] pde i ne s1(3) by (cases "T d") (auto simp: sel)
    show "d = e" if "unat d < 1024" "unat e < 1024" "(T(dir a \<mapsto> i)) d = Some t" "(T(dir a \<mapsto> i)) e = Some t" for d e t
      using that D(6)[OF that(1,2)] ne(2) by (auto split: if_splits)
  qed (use D i s1 in \<open>auto simp: sel\<close>)
  have other: "ent (kmem s') (page_address u) l = (if u = i then 0 else ent (kmem s) (page_address u) l)" if "u < 262143" "u \<noteq> g" "unat l < 1024" for u l
    using bnd that by (simp add: s'_def s1 ent_other ent_memset dir_tbl_less)
  show "mmu_walk (kmem s') (page_phys g) b = mmu_walk (kmem s) (page_phys g) b"
  proof (cases "T (dir b)")
    case None
    then show ?thesis using other[of i "tbl b"] bnd ne(1) dir_tbl_less by (simp add: walk_eq[OF ok'] walk_eq[OF ok] Let_def)
  next
    case (Some u)
    then have "dir b \<noteq> dir a" "u < 262143" "u \<noteq> g" "u \<noteq> i" using a D(1) D(5)[OF dir_tbl_less(1) Some] ne(2)[OF Some dir_tbl_less(1)] by auto
    then show ?thesis using other[of u "tbl b"] g[of "dir b"] dir_tbl_less by (simp add: walk_eq[OF ok'] walk_eq[OF ok] Some Let_def)
  qed
qed

definition map_entry :: "nat \<Rightarrow> u32 \<Rightarrow> u32" where
  "map_entry page prot = page_phys page OR PTE_PRESENT OR PTE_USER OR (if prot AND PROT_WRITE \<noteq> 0 then PTE_RW else 0)"

lemma bit_test: "x AND push_bit n 1 = 0 \<longleftrightarrow> \<not> bit x n" for x :: u32
  by (simp add: push_bit_eq_mult and_exp_eq_0_iff_not_bit)

lemma map_entry_bits:
  "pg_val (map_entry p prot) = page_phys p" "bit (map_entry p prot) 0" "bit (map_entry p prot) 2" "bit (map_entry p prot) 1 = bit prot 3"
proof -
  have f: "(PTE_PRESENT OR PTE_USER OR (if prot AND PROT_WRITE \<noteq> 0 then PTE_RW else 0)) < 4096"
    by (simp add: PTE_PRESENT_def PTE_USER_def PTE_RW_def)
  show "pg_val (map_entry p prot) = page_phys p" using pg_val_entry(1)[OF f] by (simp add: map_entry_def)
  have p: "\<not> bit (page_phys p) 0" "\<not> bit (page_phys p) 1" "\<not> bit (page_phys p) 2" using page_phys_bits[of p] by fastforce+
  have w: "prot AND PROT_WRITE = 0 \<longleftrightarrow> \<not> bit prot 3" unfolding PROT_WRITE_def by (rule bit_test)
  show "bit (map_entry p prot) 0" "bit (map_entry p prot) 2" "bit (map_entry p prot) 1 = bit prot 3"
    using p by (simp_all add: map_entry_def w PTE_PRESENT_def PTE_USER_def PTE_RW_def bit_simps)
qed

lemma user_dir: "a < PAGE_OFFSET \<Longrightarrow> unat (dir a) < 768"
  by (simp add: dir_eq drop_bit_eq_div unat_div_distrib PAGE_OFFSET_def word_less_nat_alt div_less_iff_less_mult)

lemma pde_present:
  assumes "dir_ok s g T"
  shows "ent (kmem s) (page_address g) (dir a) AND PDE_PRESENT = 0 \<longleftrightarrow> T (dir a) = None"
  using dir_okD(4,5)[OF assms dir_tbl_less(1)[of a]] unfolding PDE_PRESENT_def bit_test by (cases "T (dir a)") auto

lemma map_page_run:
  assumes ok: "dir_ok s g T" and a: "a < PAGE_OFFSET" and t: "T (dir a) = Some t"
  shows "map_page_to_ctx \<lparr>pgd = page_phys g\<rparr> p a prot s = Some (set_ent (page_address t) (tbl a) (map_entry p prot) s, 0)"
proof -
  have "\<not> PAGE_OFFSET \<le> a" using a by simp
  then show ?thesis using pde_present[OF ok, of a] t dir_okD(5)[OF ok dir_tbl_less(1) t]
    by (simp add: map_page_to_ctx_def Let_def va_page_phys map_entry_def or.assoc)
qed

lemma map_page_ok:
  assumes rep: "buddy_rep s F" and ok: "dir_ok s g T" and a: "a < PAGE_OFFSET"
  shows "if F = [] \<and> T (dir a) = None then map_page_to_ctx \<lparr>pgd = page_phys g\<rparr> p a prot s = Some (s, - 1)
    else \<exists>s' F' T'. map_page_to_ctx \<lparr>pgd = page_phys g\<rparr> p a prot s = Some (s', 0) \<and> buddy_rep s' F' \<and> dir_ok s' g T' \<and>
      (\<forall>d. d \<noteq> dir a \<longrightarrow> T' d = T d) \<and> T' (dir a) \<noteq> None \<and> F' = (if T (dir a) = None then tl F else F) \<and>
      (\<forall>b. mmu_walk (kmem s') (page_phys g) b =
         (if va_round_down b = va_round_down a then Some \<lparr>tr_phys = page_phys p OR ofs b, tr_user = True, tr_write = bit prot 3\<rparr>
          else mmu_walk (kmem s) (page_phys g) b))"
proof -
  note D = dir_okD[OF ok]
  note pres = pde_present[OF ok, of a]
  have nb: "\<not> PAGE_OFFSET \<le> a" using a by simp
  have final: "dir_ok s1 g T1 \<Longrightarrow> T1 (dir a) = Some t \<Longrightarrow> (\<And>b. mmu_walk (kmem s1) (page_phys g) b = mmu_walk (kmem s) (page_phys g) b) \<Longrightarrow>
     dir_ok (set_ent (page_address t) (tbl a) (map_entry p prot) s1) g T1 \<and>
     mmu_walk (kmem (set_ent (page_address t) (tbl a) (map_entry p prot) s1)) (page_phys g) b =
         (if va_round_down b = va_round_down a then Some \<lparr>tr_phys = page_phys p OR ofs b, tr_user = True, tr_write = bit prot 3\<rparr>
          else mmu_walk (kmem s) (page_phys g) b)" for s1 :: "'a buddy_scheme" and T1 t b
    using set_pte[of s1 g T1 a t "map_entry p prot"] dir_okD(5)[of s1 g T1 "dir a" t] dir_tbl_less(1)[of a] user_dir[OF a] map_entry_bits[of p prot]
    by simp
  show ?thesis
  proof (cases "T (dir a)")
    case (Some t)
    note map_page_run[OF ok a Some, of p prot]
    then show ?thesis using final[OF ok Some] buddy_rep_kmem[OF rep] Some by auto
  next
    case None
    show ?thesis
    proof (cases F)
      case Nil
      then show ?thesis using rep nb pres None by (simp add: map_page_to_ctx_def alloc_page_def alloc_pages_Nil va_page_phys)
    next
      case (Cons i F')
      let ?s1 = "alloc_post s i"
      define s1 where "s1 = set_ent (page_address g) (dir a) (page_phys i OR 7) (?s1\<lparr>kmem := memset (kmem ?s1) (page_address i) 0 4096\<rparr>)"
      note N = new_table[OF rep[unfolded Cons] ok None, folded s1_def]
      have "i < 2 ^ 18" using buddy_repD(4)[OF rep] buddy_repD(5)[OF rep, of i] Cons by simp
      then have "map_page_to_ctx \<lparr>pgd = page_phys g\<rparr> p a prot s = Some (set_ent (page_address i) (tbl a) (map_entry p prot) s1, 0)"
        using nb pres None rep[unfolded Cons]
        by (simp add: map_page_to_ctx_def alloc_page_def alloc_pages_Cons Let_def va_page_phys pa_page_address map_entry_def or.assoc
            s1_def NR_PTE_def PDE_PRESENT_def PDE_RW_def PDE_USER_def)
      then show ?thesis using final[OF N(2) _ N(3)] buddy_rep_kmem[OF N(1)] None Cons
        by (intro if_not_P[THEN iffD2] exI[of _ "set_ent (page_address i) (tbl a) (map_entry p prot) s1"] exI[of _ F'] exI[of _ "T(dir a \<mapsto> i)"]) auto
    qed
  qed
qed

lemma copy_dir_sel [simp]: "pfa (copy_dir d f n s) = pfa s" "nr_physpages (copy_dir d f n s) = nr_physpages s"
  by (induction n) (simp_all add: Let_def)

lemma copy_dir_rep: "buddy_rep s F \<Longrightarrow> buddy_rep (copy_dir d f n s) F"
  by (induction n) (simp_all add: Let_def buddy_rep_kmem)

lemma copy_dir_ent:
  assumes "i < 262143" "g < 262143" "i \<noteq> g" "n \<le> 1024" "j < 262143" "unat l < 1024"
  shows "ent (kmem (copy_dir (page_address i) (page_address g) n s)) (page_address j) l =
    (if j = i \<and> unat l < n then ent (kmem s) (page_address g) l else ent (kmem s) (page_address j) l)"
  using assms
proof (induction n arbitrary: j l)
  case 0
  then show ?case by simp
next
  case (Suc n)
  let ?s = "copy_dir (page_address i) (page_address g) n s"
  have u: "unat (of_nat n :: u32) = n" using Suc.prems(4) by (simp add: unat_of_nat take_bit_nat_eq_self)
  have IH: "ent (kmem ?s) (page_address j) l = (if j = i \<and> unat l < n then ent (kmem s) (page_address g) l else ent (kmem s) (page_address j) l)"
    if "j < 262143" "unat l < 1024" for j l using Suc.IH Suc.prems that by simp
  show ?case
  proof (cases "j = i \<and> l = of_nat n")
    case True
    then have jl: "j = i" "l = of_nat n" by blast+
    have "unat l = n" unfolding jl(2) by (rule u)
    have "ent (kmem (copy_dir (page_address i) (page_address g) (Suc n) s)) (page_address j) l = ent (kmem ?s) (page_address g) l"
      unfolding jl by (simp add: Let_def del: of_nat_unat_eq)
    then show ?thesis using IH[OF Suc.prems(2,6)] Suc.prems(3) jl(1) \<open>unat l = n\<close> by simp
  next
    case False
    then have ne: "i \<noteq> j \<or> of_nat n \<noteq> l" by metis
    have "ent (kmem (copy_dir (page_address i) (page_address g) (Suc n) s)) (page_address j) l = ent (kmem ?s) (page_address j) l"
      using ent_other[OF Suc.prems(1,5) _ Suc.prems(6) ne] u Suc.prems(4) by (simp add: Let_def del: of_nat_unat_eq)
    moreover have "unat l \<noteq> n" if "j = i" using ne that by (metis of_nat_unat_eq)
    then have "unat l < Suc n \<longleftrightarrow> unat l < n" if "j = i" using that by (simp add: less_Suc_eq)
    ultimately show ?thesis using IH[OF Suc.prems(5,6)] by auto
  qed
qed

lemma copy_dir_ok:
  assumes rep: "buddy_rep s (i # F)" and ok: "dir_ok s g T"
  defines "s' \<equiv> copy_dir (page_address i) (page_address g) NR_PDE (alloc_post s i)"
  shows "buddy_rep s' F" "dir_ok s' g T" "dir_ok s' i T"
    "mmu_walk (kmem s') (page_phys g) b = mmu_walk (kmem s) (page_phys g) b" "mmu_walk (kmem s') (page_phys i) b = mmu_walk (kmem s) (page_phys g) b"
proof -
  note D = dir_okD[OF ok]
  have i: "i < unat (nr_physpages s)" "pg_count (pfa s i) = 0" using buddy_repD(5,6)[OF rep, of i] by auto
  have sel: "nr_physpages s' = nr_physpages s" "pg_count (pfa s' j) = (if j = i then 1 else pg_count (pfa s j))" for j
    using i by (simp_all add: s'_def alloc_post_def get_page_def)
  have ne: "g \<noteq> i" "T d = Some t \<Longrightarrow> unat d < 1024 \<Longrightarrow> t \<noteq> i" for d t using D(3) D(5)[of d t] i by auto
  have bnd: "i < 262143" "g < 262143" using D(1,2) i by auto
  have E: "ent (kmem s') (page_address j) l = (if j = i then ent (kmem s) (page_address g) l else ent (kmem s) (page_address j) l)"
    if "j < 262143" "unat l < 1024" for j l
    using copy_dir_ent[of i g 1024 j l "alloc_post s i"] bnd ne(1) that by (simp add: s'_def NR_PDE_def alloc_post_def get_page_def)
  have e: "ent (kmem s') (page_address g) d = ent (kmem s) (page_address g) d" "ent (kmem s') (page_address i) d = ent (kmem s) (page_address g) d"
    if "unat d < 1024" for d using E[OF _ that] bnd ne(1) by auto
  show "buddy_rep s' F" unfolding s'_def by (intro copy_dir_rep alloc_post_rep[OF rep])
  show ok': "dir_ok s' g T" "dir_ok s' i T"
    using ok D(3) ne i by (auto simp: dir_ok_def sel e split: option.splits)
  have t: "ent (kmem s') (page_address t) (tbl b) = ent (kmem s) (page_address t) (tbl b)" if "T (dir b) = Some t" for t
    using E[of t "tbl b"] D(1) D(5)[OF dir_tbl_less(1) that] ne(2)[OF that dir_tbl_less(1)] dir_tbl_less(2) by auto
  show "mmu_walk (kmem s') (page_phys g) b = mmu_walk (kmem s) (page_phys g) b" "mmu_walk (kmem s') (page_phys i) b = mmu_walk (kmem s) (page_phys g) b"
    unfolding walk_eq[OF ok'(1)] walk_eq[OF ok'(2)] walk_eq[OF ok] using t e[OF dir_tbl_less(1)] by (auto split: option.splits)
qed

lemma clone_ctx_ok:
  assumes rep: "buddy_rep s (i # F)"
  shows "clone_ctx \<lparr>pgd = page_phys g\<rparr> c s = Some (copy_dir (page_address i) (page_address g) NR_PDE (alloc_post s i), c\<lparr>pgd := page_phys i\<rparr>, 0)"
    and "setup_new_ctx (page_address g) c s = Some (copy_dir (page_address i) (page_address g) NR_PDE (alloc_post s i), c\<lparr>pgd := page_phys i\<rparr>, 0)"
proof -
  have "i < 2 ^ 18" using buddy_repD(4)[OF rep] buddy_repD(5)[OF rep, of i] by simp
  then show "clone_ctx \<lparr>pgd = page_phys g\<rparr> c s = Some (copy_dir (page_address i) (page_address g) NR_PDE (alloc_post s i), c\<lparr>pgd := page_phys i\<rparr>, 0)"
    "setup_new_ctx (page_address g) c s = Some (copy_dir (page_address i) (page_address g) NR_PDE (alloc_post s i), c\<lparr>pgd := page_phys i\<rparr>, 0)"
    using rep by (simp_all add: clone_ctx_def setup_new_ctx_def alloc_page_def alloc_pages_Cons va_page_phys pa_page_address)
qed

subsection \<open>A machine with an empty directory\<close>

definition paged :: "nat \<Rightarrow> memchunk" where
  "paged n = (boot_mem n)\<lparr>kmem := \<lambda>_. 0\<rparr>"

lemma paged_ok:
  assumes "1 < n" "n < 2 ^ 18 - 1"
  shows "buddy_rep (paged n) [1..<n]" "dir_ok (paged n) 0 (\<lambda>_. None)"
proof -
  have n: "n < 2 ^ 18" using assms by simp
  note b = boot_mem_rep[OF n]
  show "buddy_rep (paged n) [1..<n]" unfolding paged_def by (rule buddy_rep_kmem[OF b(1)])
  have u: "unat (nr_physpages (boot_mem n)) = n" using b(4) n by (simp add: unat_of_nat take_bit_nat_eq_self)
  then have "pg_count (pfa (boot_mem n) 0) \<noteq> 0" using buddy_repD(6)[OF b(1), of 0] assms by simp
  then show "dir_ok (paged n) 0 (\<lambda>_. None)" using u assms by (simp add: dir_ok_def paged_def read32_def)
qed

subsection \<open>Properties\<close>

text \<open>C8. Mapping a page into a memory context does what the processor then sees. Of a context with
  well-formed tables, every user address in the mapped page translates to the same offset in the page
  frame, for user mode, writable exactly when \<open>PROT_WRITE\<close> was asked for; every other address, of the
  user or of the kernel, translates as before; and the tables stay well-formed. The only failure is that
  a page table is missing and no page is free for it, and then nothing has changed.\<close>

theorem map_page_to_ctx_translates:
  assumes "buddy_rep s F" "dir_ok s g T" "a < PAGE_OFFSET"
  shows "if F = [] \<and> T (dir a) = None then map_page_to_ctx \<lparr>pgd = page_phys g\<rparr> p a prot s = Some (s, - 1)
    else \<exists>s' F' T'. map_page_to_ctx \<lparr>pgd = page_phys g\<rparr> p a prot s = Some (s', 0) \<and> buddy_rep s' F' \<and> dir_ok s' g T' \<and>
      (\<forall>b. mmu_walk (kmem s') (page_phys g) b =
         (if va_round_down b = va_round_down a then Some \<lparr>tr_phys = page_phys p OR ofs b, tr_user = True, tr_write = bit prot 3\<rparr>
          else mmu_walk (kmem s) (page_phys g) b))"
proof (cases "F = [] \<and> T (dir a) = None")
  case True
  then show ?thesis using map_page_ok[OF assms, of p prot] by simp
next
  case False
  then show ?thesis using map_page_ok[OF assms, of p prot] by (simp only: if_False) blast
qed

theorem map_page_to_ctx_translates_witness:
  "\<exists>s'. map_page_to_ctx \<lparr>pgd = page_phys 0\<rparr> 5 0x8048123 PROT_WRITE (paged 8) = Some (s', 0) \<and>
     mmu_walk (kmem s') (page_phys 0) 0x8048ffc = Some \<lparr>tr_phys = 0x5ffc, tr_user = True, tr_write = True\<rparr>"
proof -
  have p: "page_phys 5 OR ofs 0x8048ffc = 0x5ffc" "va_round_down 0x8048ffc = va_round_down 0x8048123" by code_simp+
  have "bit PROT_WRITE 3" by (simp add: PROT_WRITE_def bit_simps)
  then show ?thesis using map_page_to_ctx_translates[OF paged_ok, of 8 "0x8048123" 5 PROT_WRITE] p
    by (auto simp: PAGE_OFFSET_def)
qed

text \<open>C19. Cloning a memory context copies the page directory and nothing below it. The new context
  translates every address as the old one does; but the page tables are shared, so that mapping a page
  into the new context at an address whose table exists maps it into the old context as well.\<close>

theorem clone_ctx_shares_tables:
  assumes "buddy_rep s (i # F)" "dir_ok s g T" "a < PAGE_OFFSET" "T (dir a) = Some t"
  shows "\<exists>s1 s2. clone_ctx \<lparr>pgd = page_phys g\<rparr> c s = Some (s1, c\<lparr>pgd := page_phys i\<rparr>, 0) \<and>
    (\<forall>b. mmu_walk (kmem s1) (page_phys i) b = mmu_walk (kmem s) (page_phys g) b) \<and>
    map_page_to_ctx \<lparr>pgd = page_phys i\<rparr> p a prot s1 = Some (s2, 0) \<and>
    mmu_walk (kmem s2) (page_phys i) a = Some \<lparr>tr_phys = page_phys p OR ofs a, tr_user = True, tr_write = bit prot 3\<rparr> \<and>
    mmu_walk (kmem s2) (page_phys g) a = mmu_walk (kmem s2) (page_phys i) a"
proof -
  define s1 where "s1 = copy_dir (page_address i) (page_address g) NR_PDE (alloc_post s i)"
  note C = copy_dir_ok[OF assms(1,2), folded s1_def]
  let ?s2 = "set_ent (page_address t) (tbl a) (map_entry p prot) s1"
  note W = map_page_run[OF C(3) assms(3,4), of p prot]
  have "bit (ent (kmem s1) (page_address j) (dir a)) 1 \<and> bit (ent (kmem s1) (page_address j) (dir a)) 2" if "dir_ok s1 j T" for j
    using dir_okD(5)[OF that dir_tbl_less(1) assms(4)] user_dir[OF assms(3)] by simp
  then have "mmu_walk (kmem ?s2) (page_phys j) a = Some \<lparr>tr_phys = page_phys p OR ofs a, tr_user = True, tr_write = bit prot 3\<rparr>"
    if "dir_ok s1 j T" for j
    using set_pte(2)[OF that assms(4), of "map_entry p prot" a] map_entry_bits[of p prot] that by simp
  then show ?thesis using C W clone_ctx_ok(1)[OF assms(1), of g c, folded s1_def] by (intro exI[of _ s1] exI[of _ ?s2]) simp
qed

theorem clone_ctx_shares_tables_witness:
  "\<exists>s s1 s2. map_page_to_ctx \<lparr>pgd = page_phys 0\<rparr> 5 0x8048000 PROT_READ (paged 8) = Some (s, 0) \<and>
     clone_ctx \<lparr>pgd = page_phys 0\<rparr> \<lparr>pgd = 0\<rparr> s = Some (s1, \<lparr>pgd = page_phys 2\<rparr>, 0) \<and>
     map_page_to_ctx \<lparr>pgd = page_phys 2\<rparr> 6 0x8048000 PROT_WRITE s1 = Some (s2, 0) \<and>
     mmu_walk (kmem s) (page_phys 0) 0x8048000 = Some \<lparr>tr_phys = 0x5000, tr_user = True, tr_write = False\<rparr> \<and>
     mmu_walk (kmem s2) (page_phys 0) 0x8048000 = Some \<lparr>tr_phys = 0x6000, tr_user = True, tr_write = True\<rparr>"
proof -
  have p: "page_phys 5 OR ofs 0x8048000 = 0x5000" "page_phys 6 OR ofs 0x8048000 = 0x6000" by code_simp+
  have w: "bit PROT_WRITE 3" "\<not> bit PROT_READ 3" by (simp_all add: PROT_WRITE_def PROT_READ_def bit_simps)
  have u: "0x8048000 < PAGE_OFFSET" by (simp add: PAGE_OFFSET_def)
  have l: "tl [1..<8] = (2 :: nat) # [3..<8]" "[1..<8] \<noteq> ([] :: nat list)" by code_simp+
  obtain s T where s: "map_page_to_ctx \<lparr>pgd = page_phys 0\<rparr> 5 0x8048000 PROT_READ (paged 8) = Some (s, 0)" "buddy_rep s (2 # [3..<8])" "dir_ok s 0 T"
    "T (dir 0x8048000) \<noteq> None" "mmu_walk (kmem s) (page_phys 0) 0x8048000 = Some \<lparr>tr_phys = 0x5000, tr_user = True, tr_write = False\<rparr>"
    using map_page_ok[OF paged_ok u, of 8 5 PROT_READ] p w l by (auto simp del: upt_Suc upt_rec_numeral)
  then obtain t where "T (dir 0x8048000) = Some t" by blast
  from clone_ctx_shares_tables[OF s(2,3) u this, of "\<lparr>pgd = 0\<rparr>" 6 PROT_WRITE] s p w show ?thesis by auto
qed

end
