(* ===== verification/Blk.thy ===== *)
theory Blk
  imports Paging
begin

text \<open>
  The block layer: the list of block devices (\<^verbatim>\<open>kernel/blkdev.c\<close>) and the reading of blocks
  into buffers (\<^verbatim>\<open>kernel/blk.c\<close>). Devices and buffers are stores indexed by address; buffers
  come from an object cache and their data from \<open>kmalloc\<close>. The device routine behind the
  \<^verbatim>\<open>ll_rw_blk\<close> pointer is the parameter \<open>ll\<close>, which works on the memory and on a state of the
  devices.
\<close>

section \<open>Devices\<close>

record blk_geom =
  geom_c :: u32
  geom_h :: u32
  geom_s :: u32

record buffer =
  b_dev :: addr
  b_block :: u64
  b_buf :: addr
  b_len :: u32

definition sizeof_buffer :: u32 where "sizeof_buffer = 20"

record blkdev =
  bd_next :: addr
  bd_name :: addr
  sectsize :: u32
  ll_rw_blk :: addr
  bd_count :: u32
  blksem :: int

record blk_state = cpu_state +
  bdevs :: addr
  blkdevs :: "addr \<Rightarrow> blkdev"
  bh_cache :: addr
  buffers :: "addr \<Rightarrow> buffer"

definition upd_blkdev :: "addr \<Rightarrow> (blkdev \<Rightarrow> blkdev) \<Rightarrow> 'a blk_state_scheme \<Rightarrow> 'a blk_state_scheme" where
  "upd_blkdev p f s = s\<lparr>blkdevs := (blkdevs s)(p := f (blkdevs s p))\<rparr>"

definition upd_buffer :: "addr \<Rightarrow> (buffer \<Rightarrow> buffer) \<Rightarrow> 'a blk_state_scheme \<Rightarrow> 'a blk_state_scheme" where
  "upd_buffer p f s = s\<lparr>buffers := (buffers s)(p := f (buffers s p))\<rparr>"

definition blkdev_add :: "addr \<Rightarrow> 'a blk_state_scheme \<Rightarrow> 'a blk_state_scheme option" where
  "blkdev_add bd s = do {
     _ \<leftarrow> BUG_ON (bd = NULL);
     let s = upd_blkdev bd (\<lambda>b. b\<lparr>bd_next := bdevs s\<rparr>) s;
     let s = s\<lparr>bdevs := bd\<rparr>;
     Some (upd_blkdev bd (\<lambda>b. b\<lparr>blksem := 1\<rparr>) s)
   }"

partial_function (option) blkdev_walk :: "addr \<Rightarrow> addr \<Rightarrow> 'a blk_state_scheme \<Rightarrow> addr option" where
  "blkdev_walk name r s =
     (if r = NULL then Some NULL
      else do {
        c \<leftarrow> strcmp (kmem s) name (bd_name (blkdevs s r));
        if c = 0 then Some r else blkdev_walk name (bd_next (blkdevs s r)) s
      })"

definition blkdev_get :: "addr \<Rightarrow> 'a blk_state_scheme \<Rightarrow> addr option" where
  "blkdev_get name s = blkdev_walk name (bdevs s) s"

section \<open>Buffers\<close>

text \<open>\<open>label\<close> is the address of the name of the cache.\<close>

definition blk_init :: "addr \<Rightarrow> 'a blk_state_scheme \<Rightarrow> 'a blk_state_scheme option" where
  "blk_init label s = do {
     (s, x) \<leftarrow> objcache_init NULL label sizeof_buffer s;
     let s = s\<lparr>bh_cache := x\<rparr>;
     _ \<leftarrow> BUG_ON (x = NULL);
     Some s
   }"

type_synonym ('m, 'd) ll_fn =
  "addr \<Rightarrow> addr \<Rightarrow> int \<Rightarrow> u64 \<Rightarrow> addr \<Rightarrow> 'm \<times> 'd \<Rightarrow> (('m \<times> 'd) \<times> int) option"

definition blk_read ::
  "('a blk_state_scheme, 'd) ll_fn \<Rightarrow> addr \<Rightarrow> u64 \<Rightarrow> 'a blk_state_scheme \<times> 'd \<Rightarrow>
     (('a blk_state_scheme \<times> 'd) \<times> addr) option" where
  "blk_read ll dev logical = (\<lambda>(s, d). do {
     (s, bh) \<leftarrow> objcache_alloc (bh_cache s) s;
     if bh = NULL then Some ((s, d), NULL)
     else do {
       let s = upd_buffer bh (\<lambda>b. b\<lparr>b_dev := dev, b_block := logical\<rparr>) s;
       let len = bd_count (blkdevs s dev) * sectsize (blkdevs s dev);
       (s, buf) \<leftarrow> kmalloc len s;
       let s = upd_buffer bh (\<lambda>b. b\<lparr>b_buf := buf, b_len := len\<rparr>) s;
       if buf = NULL then do {
         s \<leftarrow> kfree bh s;
         Some ((s, d), NULL)
       } else do {
         v \<leftarrow> sem_down (blksem (blkdevs s dev));
         let s = upd_blkdev dev (\<lambda>b. b\<lparr>blksem := v\<rparr>) s;
         ((s, d), r) \<leftarrow> ll (ll_rw_blk (blkdevs s dev)) dev 0 (logical * ucast (bd_count (blkdevs s dev))) buf (s, d);
         let s = upd_blkdev dev (\<lambda>b. b\<lparr>blksem := sem_up (blksem b)\<rparr>) s;
         if r \<noteq> 0 then do {
           s \<leftarrow> kfree (b_buf (buffers s bh)) s;
           s \<leftarrow> objcache_free2 (bh_cache s) bh s;
           Some ((s, d), NULL)
         } else Some ((s, d), bh)
       }
     }
   })"

definition blk_free :: "addr \<Rightarrow> 'a blk_state_scheme \<Rightarrow> 'a blk_state_scheme option" where
  "blk_free bh s = do {
     s \<leftarrow> kfree (b_buf (buffers s bh)) s;
     objcache_free2 (bh_cache s) bh s
   }"

text \<open>\<open>None\<close> is the division by a sector size of 0.\<close>

definition blk_set_blocksize :: "addr \<Rightarrow> u32 \<Rightarrow> 'a blk_state_scheme \<Rightarrow> ('a blk_state_scheme \<times> int) option" where
  "blk_set_blocksize dev sz s =
     (if sectsize (blkdevs s dev) > sz then Some (s, -1)
      else if sz > PAGE_SIZE \<or> sz < 512 \<or> sz AND (sz - 1) \<noteq> 0 then Some (s, -1)
      else if sectsize (blkdevs s dev) * bd_count (blkdevs s dev) = sz then Some (s, 0)
      else if sectsize (blkdevs s dev) = 0 then None
      else Some (upd_blkdev dev (\<lambda>b. b\<lparr>bd_count := sz div sectsize b\<rparr>) s, 0))"

section \<open>Finding devices\<close>

text \<open>A device is found under its name once it has been added, and shadows an older one of the same
  name; adding it leaves the others where they were.\<close>

lemma blkdev_add_get:
  assumes "bd \<noteq> NULL" "cstr (kmem s) name xs" "cstr (kmem s) (bd_name (blkdevs s bd)) xs"
  shows "\<exists>s'. blkdev_add bd s = Some s' \<and> blkdev_get name s' = Some bd"
  using assms strcmp_zero_iff [OF assms(2,3)]
  by (auto simp: blkdev_add_def blkdev_get_def blkdev_walk.simps upd_blkdev_def Let_def)

text \<open>The list of devices, as the pointers give it.\<close>

fun bdev_list :: "'a blk_state_scheme \<Rightarrow> addr \<Rightarrow> addr list \<Rightarrow> bool" where
  "bdev_list s r [] \<longleftrightarrow> r = NULL"
| "bdev_list s r (b # bs) \<longleftrightarrow> r = b \<and> b \<noteq> NULL \<and> bdev_list s (bd_next (blkdevs s b)) bs"

lemma blkdev_walk_finds:
  assumes "bdev_list s r bs" "cstr (kmem s) name xs" "\<forall>b\<in>set bs. cstr (kmem s) (bd_name (blkdevs s b)) (nm b)"
  shows "blkdev_walk name r s = Some (case List.find (\<lambda>b. nm b = xs) bs of None \<Rightarrow> NULL | Some b \<Rightarrow> b)"
  using assms
proof (induction bs arbitrary: r)
  case Nil
  then show ?case by (simp add: blkdev_walk.simps)
next
  case (Cons b bs)
  then obtain c where "strcmp (kmem s) name (bd_name (blkdevs s b)) = Some c" "c = 0 \<longleftrightarrow> xs = nm b"
    using strcmp_zero_iff [of "kmem s" name xs "bd_name (blkdevs s b)" "nm b"] by auto
  then show ?case using Cons by (subst blkdev_walk.simps) auto
qed

section \<open>Block sizes\<close>

lemma bit_between:
  assumes "2 ^ k \<le> unat (x :: u32)" "unat x < 2 ^ Suc k"
  shows "bit x k"
proof -
  have k: "k < 32"
  proof (rule ccontr)
    assume "\<not> k < 32"
    then have "(2 :: nat) ^ 32 \<le> 2 ^ k" by (intro power_increasing) auto
    moreover have "unat x < 2 ^ LENGTH(32)" by (rule unsigned_less)
    ultimately show False using assms(1) by simp
  qed
  have "unat x div 2 ^ k = 1" using assms by (intro div_nat_eqI) auto
  then have "bit (unat x) k" by (simp add: bit_iff_odd)
  then show ?thesis by (simp add: bit_unsigned_iff)
qed

lemma pow2_and:
  assumes "x \<noteq> 0" "x AND (x - 1) = (0 :: u32)"
  shows "\<exists>k. unat x = 2 ^ k"
proof -
  have "1 \<le> unat x" using assms(1) by (simp add: Suc_le_eq unat_gt_0)
  from ex_power_ivl1 [OF _ this, of 2] obtain k where k: "2 ^ k \<le> unat x" "unat x < 2 ^ (k + 1)" by auto
  have "unat x = 2 ^ k"
  proof (rule ccontr)
    assume "unat x \<noteq> 2 ^ k"
    moreover have "unat (x - 1) = unat x - 1" using assms(1) by (simp add: unat_minus_one)
    ultimately have "bit x k" "bit (x - 1) k" using k by (auto intro!: bit_between)
    then have "bit (x AND (x - 1)) k" by (simp add: bit_and_iff)
    then show False using assms(2) by simp
  qed
  then show ?thesis by blast
qed

lemma block_sizes:
  "(sz \<le> PAGE_SIZE \<and> 512 \<le> sz \<and> sz AND (sz - 1) = 0) \<longleftrightarrow> sz \<in> {512, 1024, 2048, 4096}"
proof
  assume a: "sz \<le> PAGE_SIZE \<and> 512 \<le> sz \<and> sz AND (sz - 1) = 0"
  then have "sz \<noteq> 0" by auto
  then obtain k where k: "unat sz = 2 ^ k" using pow2_and a by blast
  have b: "512 \<le> unat sz" "unat sz \<le> 4096" using a by (simp_all add: PAGE_SIZE_def PAGE_SHIFT_def word_le_nat_alt)
  have "9 \<le> k" using b(1) k power_strict_increasing_iff [of "2 :: nat" k 9] by (simp add: not_less [symmetric])
  moreover have "k \<le> 12" using b(2) k power_strict_increasing_iff [of "2 :: nat" 12 k] by (simp add: not_less [symmetric])
  ultimately have "k = 9 \<or> k = 10 \<or> k = 11 \<or> k = 12" by linarith
  then have "unat sz \<in> {512, 1024, 2048, 4096}" using k by auto
  then show "sz \<in> {512, 1024, 2048, 4096}" by (auto simp: word_unat_eq_iff)
qed (auto simp: PAGE_SIZE_def PAGE_SHIFT_def)



section \<open>Reading a block\<close>

lemma blk_more:
  "memchunk.more s' = memchunk.more s \<Longrightarrow> blkdevs s' = blkdevs s \<and> bh_cache s' = bh_cache s \<and> buffers s' = buffers s"
  for s s' :: "'a blk_state_scheme"
  by (cases s, cases s') simp

lemma upd_truncate [simp]:
  "memchunk.truncate (upd_buffer p f s) = memchunk.truncate s" "memchunk.truncate (upd_blkdev q g s) = memchunk.truncate s"
  by (simp_all add: memchunk.truncate_def upd_buffer_def upd_blkdev_def)

lemma upd_fields [simp]:
  "general_cache (upd_buffer p f s) = general_cache s" "general_cache (upd_blkdev q g s) = general_cache s"
  "objcaches (upd_buffer p f s) = objcaches s" "objcaches (upd_blkdev q g s) = objcaches s"
  "kmem (upd_buffer p f s) = kmem s" "kmem (upd_blkdev q g s) = kmem s"
  "nr_freepages (upd_buffer p f s) = nr_freepages s" "blkdevs (upd_buffer p f s) = blkdevs s"
  "bh_cache (upd_buffer p f s) = bh_cache s" "buffers (upd_blkdev q g s) = buffers s"
  by (simp_all add: upd_buffer_def upd_blkdev_def)

lemma kmalloc_rep_upd [simp]:
  "kmalloc_rep K C (upd_buffer p f s) A = kmalloc_rep K C s A" "kmalloc_rep K C (upd_blkdev q g s) A = kmalloc_rep K C s A"
  by (simp_all add: kmalloc_rep_def objs_rep_client [of "upd_buffer p f s" s] objs_rep_client [of "upd_blkdev q g s" s])

lemma cache_alloc:
  assumes rep: "kmalloc_rep K C s A" and x: "x \<in> C" and free: "nr_freepages s \<noteq> 0"
  obtains s' a where "objcache_alloc x s = Some (s', a)" "a \<noteq> NULL" "a \<notin> fst ` A" "kmalloc_rep K C s' (insert (a, osz s x) A)"
    "memchunk.more s' = memchunk.more s" "unat (nr_freepages s) \<le> unat (nr_freepages s') + 1"
    "\<And>b. \<not> unat (b - a) < osz s x \<Longrightarrow> kmem s' b = kmem s b"
proof -
  have r: "objs_rep K C s A" using rep by (simp add: kmalloc_rep_def)
  note ok = do_alloc_ok [OF r x]
  then obtain s' a where s': "do_alloc x s = Some (s', a)" using free by (cases "do_alloc x s") auto
  have "unat (nr_freepages s - 1) = unat (nr_freepages s) - 1" using free by (simp add: unat_minus_one)
  then have "unat (nr_freepages s) \<le> unat (nr_freepages s') + 1" using do_alloc_frame(2) [OF s'] by auto
  then show thesis using ok s' do_alloc_frame(1) [OF s'] kmalloc_rep_cong [OF rep]
    by (intro that [of s' a]) (auto simp: objcache_alloc_def)
qed

lemma kmalloc_free_pages:
  assumes "kmalloc n s = Some (s', p)" "unat n \<le> 4096"
  shows "memchunk.more s' = memchunk.more s"
proof -
  obtain j where "kmalloc n s = objcache_alloc (general_cache s j) s" using kmalloc_class(1) [of n s] assms(2) by auto
  then show ?thesis using assms(1) objcache_frame by metis
qed

text \<open>Objects in use are apart from a new one.\<close>

lemma kmalloc_apart:
  assumes "kmalloc_rep K C s (insert (a, n) A)" "a \<notin> fst ` A" "(b, m) \<in> A" "r < m"
  shows "\<not> unat (b + of_nat r - a) < n"
  using oc.apart [of K C s "insert (a, n) A" a n b m r] assms by (force simp: kmalloc_rep_def)

lemma kmalloc_rep_store:
  assumes "kmalloc_rep K C s A" "(a, n) \<in> A" "\<And>b. \<not> unat (b - a) < n \<Longrightarrow> m b = kmem s b"
  shows "kmalloc_rep K C (s\<lparr>kmem := m\<rparr>) A"
  using assms objs_store [of K C s A a n m] by (simp add: kmalloc_rep_def)

text \<open>What the block layer relies on of a driver: a successful read of \<open>n\<close> bytes changes the memory
  of the buffer only.\<close>

definition reads_ok :: "('a blk_state_scheme, 'd) ll_fn \<Rightarrow> addr \<Rightarrow> addr \<Rightarrow> u64 \<Rightarrow> nat \<Rightarrow> 'd \<Rightarrow> bool" where
  "reads_ok ll f dev blk n d \<longleftrightarrow> (\<forall>s buf. \<exists>m d'. ll f dev 0 blk buf (s, d) = Some ((s\<lparr>kmem := m\<rparr>, d'), 0) \<and>
     (\<forall>b. \<not> unat (b - buf) < n \<longrightarrow> m b = kmem s b))"


lemma booted_pages:
  obtains s C A where "kmalloc_init 0xc0000410 0xc0000400 0xc0000500 (kbooted 20) = Some s" "kmalloc_rep {0} C s A"
    "8 \<le> unat (nr_freepages s)"
proof -
  obtain s C A where s: "kmalloc_init_loop 0xc0000410 0xc0000400 0xc0000500 11 0 4 (kbooted 20) = Some s" "kmalloc_rep {0} C s A"
    "unat (nr_freepages (kbooted 20)) \<le> unat (nr_freepages s) + 11"
    using kmalloc_init_loop_ok [OF _ _ kbooted_rep(1), of 0 11 4 20 "0xc0000400" "0xc0000500" "0xc0000410"] kbooted_rep [of 20] by auto
  have "8 \<le> unat (nr_freepages s)" using s(3) kbooted_rep(5) [of 20] by auto
  then show thesis using that s by (simp add: kmalloc_init_def)
qed

definition demo_disk :: blkdev where
  "demo_disk = \<lparr>bd_next = 0, bd_name = 0, sectsize = 512, ll_rw_blk = 0, bd_count = 2, blksem = 1\<rparr>"

text \<open>A driver that fills the first byte of the buffer.\<close>

definition demo_ll :: "(blk_state, unit) ll_fn" where
  "demo_ll f dev w blk buf = (\<lambda>(s, d). Some ((s\<lparr>kmem := (kmem s)(buf := 7)\<rparr>, d), 0))"


end
