(* ===== verification/Endian.thy ===== *)
theory Endian
  imports Prelude
begin

text \<open>
  Byte order conversion (\<^verbatim>\<open>include/scaraOS/endian.h\<close> and \<^verbatim>\<open>include/arch-ia32/endian.h\<close>). Each
  swap exists twice in the source: as an expression for constants and as rotations for the rest. On
  the little-endian IA32 the conversions of little-endian values are the identity.
\<close>

definition bswap_constant_16 :: "u16 \<Rightarrow> u16" where
  "bswap_constant_16 x = (drop_bit 8 x AND 0xff) OR push_bit 8 (x AND 0xff)"

definition bswap_16 :: "u16 \<Rightarrow> u16" where
  "bswap_16 x = word_rotr 8 x"

definition bswap_constant_32 :: "u32 \<Rightarrow> u32" where
  "bswap_constant_32 x = drop_bit 24 (x AND 0xff000000) OR drop_bit 8 (x AND 0x00ff0000) OR
     push_bit 8 (x AND 0x0000ff00) OR push_bit 24 (x AND 0x000000ff)"

text \<open>\<^verbatim>\<open>rorw $8, %w0\<close> rotates the low half of a register.\<close>

definition rorw8 :: "u32 \<Rightarrow> u32" where
  "rorw8 x = (x AND 0xffff0000) OR ucast (word_rotr 8 (ucast x :: u16))"

definition bswap_32 :: "u32 \<Rightarrow> u32" where
  "bswap_32 x = rorw8 (word_rotr 16 (rorw8 x))"

definition bswap_constant_64 :: "u64 \<Rightarrow> u64" where
  "bswap_constant_64 x = drop_bit 56 (x AND 0xff00000000000000) OR drop_bit 40 (x AND 0x00ff000000000000) OR
     drop_bit 24 (x AND 0x0000ff0000000000) OR drop_bit 8 (x AND 0x000000ff00000000) OR
     push_bit 8 (x AND 0x00000000ff000000) OR push_bit 24 (x AND 0x0000000000ff0000) OR
     push_bit 40 (x AND 0x000000000000ff00) OR push_bit 56 (x AND 0x00000000000000ff)"

text \<open>The halves of the union, the low one first.\<close>

definition bswap_64 :: "u64 \<Rightarrow> u64" where
  "bswap_64 x =
     (let l0 = (ucast x :: u32);
          l1 = (ucast (drop_bit 32 x) :: u32);
          r0 = bswap_32 l1;
          r1 = bswap_32 l0
      in ucast r0 OR push_bit 32 (ucast r1))"

definition htobe16 :: "u16 \<Rightarrow> u16" where "htobe16 x = bswap_16 x"
definition htole16 :: "u16 \<Rightarrow> u16" where "htole16 x = x"
definition be16toh :: "u16 \<Rightarrow> u16" where "be16toh x = bswap_16 x"
definition le16toh :: "u16 \<Rightarrow> u16" where "le16toh x = x"
definition htobe32 :: "u32 \<Rightarrow> u32" where "htobe32 x = bswap_32 x"
definition htole32 :: "u32 \<Rightarrow> u32" where "htole32 x = x"
definition be32toh :: "u32 \<Rightarrow> u32" where "be32toh x = bswap_32 x"
definition le32toh :: "u32 \<Rightarrow> u32" where "le32toh x = x"
definition htobe64 :: "u64 \<Rightarrow> u64" where "htobe64 x = bswap_64 x"
definition htole64 :: "u64 \<Rightarrow> u64" where "htole64 x = x"
definition be64toh :: "u64 \<Rightarrow> u64" where "be64toh x = bswap_64 x"
definition le64toh :: "u64 \<Rightarrow> u64" where "le64toh x = x"

section \<open>Correctness\<close>

text \<open>The reference: bit \<open>n\<close> of the swapped word is bit \<open>n mod 8\<close> of the byte at the mirrored place.\<close>

definition mirror :: "nat \<Rightarrow> nat \<Rightarrow> nat" where
  "mirror b n = 8 * (b - 1 - n div 8) + n mod 8"

lemma mirror_less: "n < 8 * b \<Longrightarrow> mirror b n < 8 * b"
  by (cases b) (auto simp: mirror_def)

lemma mirror_mirror: "n < 8 * b \<Longrightarrow> mirror b (mirror b n) = n"
  using less_mult_imp_div_less [of n b 8] by (simp add: mirror_def mult.commute)

lemma mirror_byte: "r < 8 \<Longrightarrow> mirror b (8 * q + r) = 8 * (b - 1 - q) + r"
  by (simp add: mirror_def)

lemma bytes2:
  assumes "n < 16"
  obtains r where "r < 8" "n = r" "mirror 2 n = 8 + r" | r where "r < 8" "n = 8 + r" "mirror 2 n = r"
proof -
  have r: "n mod 8 < 8" "n = 8 * (n div 8) + n mod 8" by simp_all
  have "n div 8 < 2" using assms by (simp add: less_mult_imp_div_less)
  then consider "n div 8 = 0" | "n div 8 = 1" by linarith
  then show thesis using that r mirror_byte [of "n mod 8" 2 0] mirror_byte [of "n mod 8" 2 1] by cases force+
qed

lemma bytes4:
  assumes "n < 32"
  obtains r where "r < 8" "n = r" "mirror 4 n = 24 + r" | r where "r < 8" "n = 8 + r" "mirror 4 n = 16 + r"
    | r where "r < 8" "n = 16 + r" "mirror 4 n = 8 + r" | r where "r < 8" "n = 24 + r" "mirror 4 n = r"
proof -
  have r: "n mod 8 < 8" "n = 8 * (n div 8) + n mod 8" by simp_all
  have "n div 8 < 4" using assms by (simp add: less_mult_imp_div_less)
  then consider "n div 8 = 0" | "n div 8 = 1" | "n div 8 = 2" | "n div 8 = 3" by linarith
  then show thesis using that r mirror_byte [of "n mod 8" 4 "n div 8"] by cases force+
qed

lemma mirror8: "n < 32 \<Longrightarrow> mirror 8 n = 32 + mirror 4 n" "mirror 8 (32 + n) = mirror 4 n"
proof -
  have "(8 * 4 + n) div 8 = 4 + n div 8" "(8 * 4 + n) mod 8 = n mod 8"
    by (rule div_mult_self4, simp, rule mod_mult_self4)
  then have "(32 + n) div 8 = 4 + n div 8" "(32 + n) mod 8 = n mod 8" by simp_all
  then show "mirror 8 (32 + n) = mirror 4 n" by (simp add: mirror_def)
  show "mirror 8 n = 32 + mirror 4 n" if "n < 32"
  proof -
    have "n div 8 < 4" using that by (simp add: less_mult_imp_div_less)
    then show ?thesis by (simp add: mirror_def)
  qed
qed

lemma byte_masks16: "(0xff :: u16) = mask 8"
  by (simp add: mask_eq_exp_minus_1)

lemma byte_masks32: "(0xff :: u32) = mask 8" "(0xff00 :: u32) = push_bit 8 (mask 8)"
  "(0xff0000 :: u32) = push_bit 16 (mask 8)" "(0xff000000 :: u32) = push_bit 24 (mask 8)"
  "(0xffff0000 :: u32) = push_bit 16 (mask 16)"
  by (simp_all add: mask_eq_exp_minus_1 push_bit_eq_mult)

lemma byte_masks64: "(0xff :: u64) = mask 8" "(0xff00 :: u64) = push_bit 8 (mask 8)"
  "(0xff0000 :: u64) = push_bit 16 (mask 8)" "(0xff000000 :: u64) = push_bit 24 (mask 8)"
  "(0xff00000000 :: u64) = push_bit 32 (mask 8)" "(0xff0000000000 :: u64) = push_bit 40 (mask 8)"
  "(0xff000000000000 :: u64) = push_bit 48 (mask 8)" "(0xff00000000000000 :: u64) = push_bit 56 (mask 8)"
  by (simp_all add: mask_eq_exp_minus_1 push_bit_eq_mult)

lemma bit_rotr16: "bit (word_rotr 8 (w :: u16)) n \<longleftrightarrow> n < 16 \<and> bit w ((n + 8) mod 16)"
  by (auto simp: bit_word_rotr_iff dest: bit_imp_le_length)

lemma bit_rotr32: "bit (word_rotr 16 (w :: u32)) n \<longleftrightarrow> n < 32 \<and> bit w ((n + 16) mod 32)"
  by (auto simp: bit_word_rotr_iff dest: bit_imp_le_length)

lemma bit_rorw8: "bit (rorw8 x) n \<longleftrightarrow> (if n < 16 then bit x ((n + 8) mod 16) else bit x n)"
  unfolding rorw8_def byte_masks32 by (auto simp: bit_simps bit_rotr16 dest: bit_imp_le_length)

lemma bit_bswap_16:
  assumes "n < 16"
  shows "bit (bswap_16 x) n = bit x (mirror 2 n)" "bit (bswap_constant_16 x) n = bit x (mirror 2 n)"
  unfolding bswap_16_def bswap_constant_16_def byte_masks16
  by (rule bytes2 [OF assms]; simp add: bit_rotr16 bit_simps add.commute)+

lemma mod_40: "r < 8 \<Longrightarrow> (r + 40) mod 32 = r + (8 :: nat)"
  by (subst mod_if) simp

lemma bit_bswap_32:
  assumes "n < 32"
  shows "bit (bswap_32 x) n = bit x (mirror 4 n)" "bit (bswap_constant_32 x) n = bit x (mirror 4 n)"
proof -
  show "bit (bswap_32 x) n = bit x (mirror 4 n)"
    by (rule bytes4 [OF assms]) (simp_all add: bswap_32_def bit_rorw8 bit_rotr32 mod_40 add.commute)
  show "bit (bswap_constant_32 x) n = bit x (mirror 4 n)"
    unfolding bswap_constant_32_def byte_masks32
    by (rule bytes4 [OF assms]) (simp_all add: bit_simps)
qed

lemma bit_bswap_64:
  assumes "n < 64"
  shows "bit (bswap_64 x) n = bit x (mirror 8 n)" "bit (bswap_constant_64 x) n = bit x (mirror 8 n)"
proof -
  have m: "mirror 4 k < 32" if "k < 32" for k using mirror_less [of k 4] that by simp
  show "bit (bswap_64 x) n = bit x (mirror 8 n)"
  proof (cases "n < 32")
    case True
    then show ?thesis using m [OF True]
      by (simp add: bswap_64_def Let_def bit_simps bit_bswap_32 mirror8 add.commute)
  next
    case False
    then have "n = 32 + (n - 32)" "n - 32 < 32" using assms by auto
    then have "mirror 8 n = mirror 4 (n - 32)" using mirror8(2) [of "n - 32"] by metis
    then show ?thesis using False assms m [of "n - 32"]
      by (auto simp: bswap_64_def Let_def bit_simps bit_bswap_32 dest: bit_imp_le_length)
  qed
  show "bit (bswap_constant_64 x) n = bit x (mirror 8 n)"
  proof (cases "n < 32")
    case True
    then show ?thesis unfolding bswap_constant_64_def byte_masks64
      by (rule bytes4) (simp_all add: bit_simps mirror8 True add.commute)
  next
    case False
    then obtain k where k: "n = 32 + k" "k < 32" using assms by (metis le_add_diff_inverse linorder_not_less add_less_cancel_left numeral_Bit0)
    show ?thesis unfolding bswap_constant_64_def byte_masks64 k(1) mirror8(2)
      by (rule bytes4 [OF k(2)]) (simp_all add: bit_simps add.commute)
  qed
qed

text \<open>
  C29. The byte swaps by rotation agree with the expressions for constants at all three widths, both
  reverse the order of the bytes and keep the bits of each, and swapping twice gives the value back.
\<close>

theorem bswap_correct:
  "bswap_16 x = bswap_constant_16 x \<and> bswap_32 y = bswap_constant_32 y \<and> bswap_64 z = bswap_constant_64 z \<and>
   bswap_16 (bswap_16 x) = x \<and> bswap_32 (bswap_32 y) = y \<and> bswap_64 (bswap_64 z) = z \<and>
   bit (bswap_16 x) i = (i < 16 \<and> bit x (mirror 2 i)) \<and> bit (bswap_32 y) i = (i < 32 \<and> bit y (mirror 4 i)) \<and>
   bit (bswap_64 z) i = (i < 64 \<and> bit z (mirror 8 i))"
proof -
  have l: "mirror 2 k < 16" if "k < 16" for k using mirror_less [of k 2] that by simp
  have m: "mirror 4 k < 32" if "k < 32" for k using mirror_less [of k 4] that by simp
  have n: "mirror 8 k < 64" if "k < 64" for k using mirror_less [of k 8] that by simp
  have b: "bit (bswap_16 x) i = (i < 16 \<and> bit x (mirror 2 i))" "bit (bswap_32 y) i = (i < 32 \<and> bit y (mirror 4 i))"
    "bit (bswap_64 z) i = (i < 64 \<and> bit z (mirror 8 i))"
    using bit_bswap_16(1) [of i x] bit_bswap_32(1) [of i y] bit_bswap_64(1) [of i z]
      bit_imp_le_length [of "bswap_16 x" i] bit_imp_le_length [of "bswap_32 y" i] bit_imp_le_length [of "bswap_64 z" i]
    by auto
  show ?thesis unfolding b
    using mirror_mirror [of _ 2] mirror_mirror [of _ 4] mirror_mirror [of _ 8]
    by (auto intro!: bit_word_eqI simp: bit_bswap_16 bit_bswap_32 bit_bswap_64 l m n)
qed

end
