(* ===== verification/Ata.thy ===== *)
theory Ata
  imports Pci Blk Endian
begin

text \<open>
  The ATA disk driver (\<^verbatim>\<open>drivers/ata.c\<close>). The two channels of a controller are part of the
  structure \<^verbatim>\<open>ata_dev\<close>, so a channel is named by the address of that structure and its side.
  The operations work on a pair of the memory and the state of the devices. \<open>udelay\<close> only takes
  time and is left out, as are the messages.
\<close>

section \<open>Data\<close>

definition PROGIF_X_MODE :: u8 where "PROGIF_X_MODE = push_bit 0 1"
definition PROGIF_Y_MODE :: u8 where "PROGIF_Y_MODE = push_bit 2 1"
definition PROGIF_BUS_MASTER :: u8 where "PROGIF_BUS_MASTER = push_bit 7 1"
definition ATA_BAR0 :: u32 where "ATA_BAR0 = 0x1F0"
definition ATA_BAR1 :: u32 where "ATA_BAR1 = 0x3F6"
definition ATA_BAR2 :: u32 where "ATA_BAR2 = 0x170"
definition ATA_BAR3 :: u32 where "ATA_BAR3 = 0x376"
definition ATA_BAR4 :: u32 where "ATA_BAR4 = 0x000"
definition DISK_TYPE_NONE :: u8 where "DISK_TYPE_NONE = 0"
definition DISK_TYPE_ATA :: u8 where "DISK_TYPE_ATA = 1"
definition DISK_TYPE_ATAPI :: u8 where "DISK_TYPE_ATAPI = 2"
definition ATA_STATUS_ERR :: u8 where "ATA_STATUS_ERR = push_bit 0 1"
definition ATA_STATUS_DRQ :: u8 where "ATA_STATUS_DRQ = push_bit 3 1"
definition ATA_STATUS_BSY :: u8 where "ATA_STATUS_BSY = push_bit 7 1"
definition ATA_DEVCTL_nIEN :: u8 where "ATA_DEVCTL_nIEN = push_bit 1 1"
definition ATA_DEVCTL_SRST :: u8 where "ATA_DEVCTL_SRST = push_bit 2 1"
definition ATA_DEVCTL_RSVD :: u8 where "ATA_DEVCTL_RSVD = push_bit 3 1"
definition ATA_CMD_READ_SECTORS :: u8 where "ATA_CMD_READ_SECTORS = 0x20"
definition ATA_CMD_IDENTIFY :: u8 where "ATA_CMD_IDENTIFY = 0xec"
definition ATA_CMD_IDENTIFY_PACKET :: u8 where "ATA_CMD_IDENTIFY_PACKET = 0xa1"
definition ATA_MAX_BLKNAME :: u32 where "ATA_MAX_BLKNAME = 64"

text \<open>Offsets in \<^verbatim>\<open>struct ata_identity\<close>, which is packed.\<close>

definition ident_serial :: addr where "ident_serial = 20"
definition ident_fw_rev :: addr where "ident_fw_rev = 46"
definition ident_model :: addr where "ident_model = 54"
definition ident_max_lba28 :: addr where "ident_max_lba28 = 120"
definition ident_features1 :: addr where "ident_features1 = 166"
definition ident_max_lba :: addr where "ident_max_lba = 200"
definition sizeof_ata_identity :: u32 where "sizeof_ata_identity = 512"

record ata_chan =
  cmd_bar :: u32
  ctl_bar :: u32
  dma_bar :: u32
  chan_irq :: u32
  num_sect :: u32
  disk_type :: u8
  chan_drvsel :: u8

definition zero_chan :: ata_chan where
  "zero_chan = \<lparr>cmd_bar = 0, ctl_bar = 0, dma_bar = 0, chan_irq = 0, num_sect = 0, disk_type = 0, chan_drvsel = 0\<rparr>"

datatype ata_side = ata_x | ata_y

record ata_dev =
  ata_ref :: u32
  bd :: "nat \<Rightarrow> addr"

definition sizeof_ata_dev :: u32 where "sizeof_ata_dev = 68"

record ata_blkdev =
  abd_dev :: addr
  abd_chan :: "addr \<times> ata_side"
  abd_drvsel :: u32

definition sizeof_ata_blkdev :: u32 where "sizeof_ata_blkdev = 44"

record ata_state = pci_state +
  chans :: "addr \<times> ata_side \<Rightarrow> ata_chan"
  ata_devs :: "addr \<Rightarrow> ata_dev"
  ata_bdevs :: "addr \<Rightarrow> ata_blkdev"
  nr_controllers :: u32

definition upd_chan :: "addr \<times> ata_side \<Rightarrow> (ata_chan \<Rightarrow> ata_chan) \<Rightarrow> 'a ata_state_scheme \<Rightarrow> 'a ata_state_scheme" where
  "upd_chan c f s = s\<lparr>chans := (chans s)(c := f (chans s c))\<rparr>"

section \<open>Registers\<close>

definition ata_devctl :: "ata_chan \<Rightarrow> u8 \<Rightarrow> 'a port_io_scheme \<Rightarrow> 'a port_io_scheme" where
  "ata_devctl chan d s = outb (ctl_bar chan) (ATA_DEVCTL_RSVD OR d) s"

definition ata_alt_status :: "device \<Rightarrow> ata_chan \<Rightarrow> 'a port_io_scheme \<Rightarrow> 'a port_io_scheme \<times> u8" where
  "ata_alt_status dev chan s = inb dev (ctl_bar chan) s"

definition ata_data :: "device \<Rightarrow> ata_chan \<Rightarrow> 'a port_io_scheme \<Rightarrow> 'a port_io_scheme \<times> u16" where
  "ata_data dev chan s = inw dev (cmd_bar chan) s"

definition ata_error :: "device \<Rightarrow> ata_chan \<Rightarrow> 'a port_io_scheme \<Rightarrow> 'a port_io_scheme \<times> u8" where
  "ata_error dev chan s = inb dev (cmd_bar chan + 1) s"

definition ata_feature :: "ata_chan \<Rightarrow> u8 \<Rightarrow> 'a port_io_scheme \<Rightarrow> 'a port_io_scheme" where
  "ata_feature chan f s = outb (cmd_bar chan + 1) f s"

definition ata_get_sector_count :: "device \<Rightarrow> ata_chan \<Rightarrow> 'a port_io_scheme \<Rightarrow> 'a port_io_scheme \<times> u8" where
  "ata_get_sector_count dev chan s = inb dev (cmd_bar chan + 2) s"

definition ata_set_sector_count :: "ata_chan \<Rightarrow> u8 \<Rightarrow> 'a port_io_scheme \<Rightarrow> 'a port_io_scheme" where
  "ata_set_sector_count chan f s = outb (cmd_bar chan + 2) f s"

definition ata_get_sector :: "device \<Rightarrow> ata_chan \<Rightarrow> 'a port_io_scheme \<Rightarrow> 'a port_io_scheme \<times> u8" where
  "ata_get_sector dev chan s = inb dev (cmd_bar chan + 3) s"

definition ata_set_sector :: "ata_chan \<Rightarrow> u8 \<Rightarrow> 'a port_io_scheme \<Rightarrow> 'a port_io_scheme" where
  "ata_set_sector chan f s = outb (cmd_bar chan + 3) f s"

definition ata_get_lcyl :: "device \<Rightarrow> ata_chan \<Rightarrow> 'a port_io_scheme \<Rightarrow> 'a port_io_scheme \<times> u8" where
  "ata_get_lcyl dev chan s = inb dev (cmd_bar chan + 4) s"

definition ata_set_lcyl :: "ata_chan \<Rightarrow> u8 \<Rightarrow> 'a port_io_scheme \<Rightarrow> 'a port_io_scheme" where
  "ata_set_lcyl chan f s = outb (cmd_bar chan + 4) f s"

definition ata_get_hcyl :: "device \<Rightarrow> ata_chan \<Rightarrow> 'a port_io_scheme \<Rightarrow> 'a port_io_scheme \<times> u8" where
  "ata_get_hcyl dev chan s = inb dev (cmd_bar chan + 5) s"

definition ata_set_hcyl :: "ata_chan \<Rightarrow> u8 \<Rightarrow> 'a port_io_scheme \<Rightarrow> 'a port_io_scheme" where
  "ata_set_hcyl chan f s = outb (cmd_bar chan + 5) f s"

definition ata_get_drive_head :: "device \<Rightarrow> ata_chan \<Rightarrow> 'a port_io_scheme \<Rightarrow> 'a port_io_scheme \<times> u8" where
  "ata_get_drive_head dev chan s = inb dev (cmd_bar chan + 6) s"

definition nz :: "u8 \<Rightarrow> u8" where "nz x = (if x \<noteq> 0 then 1 else 0)"

definition ata_set_drive_head :: "addr \<times> ata_side \<Rightarrow> u8 \<Rightarrow> u8 \<Rightarrow> u8 \<Rightarrow> 'a ata_state_scheme \<Rightarrow> 'a ata_state_scheme" where
  "ata_set_drive_head c lba d h s =
     (let s = outb (cmd_bar (chans s c) + 6)
           (0xa0 OR push_bit 6 (nz lba) OR push_bit 4 (nz d) OR (h AND 0xf)) s
      in upd_chan c (\<lambda>k. k\<lparr>chan_drvsel := nz d\<rparr>) s)"

definition ata_status :: "device \<Rightarrow> ata_chan \<Rightarrow> 'a port_io_scheme \<Rightarrow> 'a port_io_scheme \<times> u8" where
  "ata_status dev chan s = inb dev (cmd_bar chan + 7) s"

definition ata_command :: "ata_chan \<Rightarrow> u8 \<Rightarrow> 'a port_io_scheme \<Rightarrow> 'a port_io_scheme" where
  "ata_command chan f s = outb (cmd_bar chan + 7) f s"

partial_function (option) ata_busy_wait :: "device \<Rightarrow> ata_chan \<Rightarrow> 'a port_io_scheme \<Rightarrow> 'a port_io_scheme option" where
  "ata_busy_wait dev chan s =
     (let (s, st) = ata_alt_status dev chan s
      in if st AND ATA_STATUS_BSY \<noteq> 0 then ata_busy_wait dev chan s else Some s)"

definition ata_drvsel :: "device \<Rightarrow> addr \<times> ata_side \<Rightarrow> u8 \<Rightarrow> 'a ata_state_scheme \<Rightarrow> 'a ata_state_scheme option" where
  "ata_drvsel dev c drv s =
     (if chan_drvsel (chans s c) \<noteq> nz drv
      then let s = ata_set_drive_head c 0 (nz drv) 0 s in ata_busy_wait dev (chans s c) s
      else Some s)"

definition ata_chan_reset :: "device \<Rightarrow> ata_chan \<Rightarrow> 'a port_io_scheme \<Rightarrow> ('a port_io_scheme \<times> int) option" where
  "ata_chan_reset dev chan s = do {
     let s = ata_devctl chan (ATA_DEVCTL_SRST OR ATA_DEVCTL_nIEN) s;
     let s = ata_devctl chan ATA_DEVCTL_nIEN s;
     s \<leftarrow> ata_busy_wait dev chan s;
     Some (s, 0)
   }"

section \<open>Transfers\<close>

definition write16 :: "mem \<Rightarrow> addr \<Rightarrow> u16 \<Rightarrow> mem" where
  "write16 m a w = m(a := ucast w, a + 1 := ucast (drop_bit 8 w))"

definition read16 :: "mem \<Rightarrow> addr \<Rightarrow> u16" where
  "read16 m a = ucast (m a) OR push_bit 8 (ucast (m (a + 1)))"

primrec pio_read_loop :: "device \<Rightarrow> ata_chan \<Rightarrow> addr \<Rightarrow> nat \<Rightarrow> mem \<times> 'a port_io_scheme \<Rightarrow> mem \<times> 'a port_io_scheme" where
  "pio_read_loop dev chan p 0 ms = ms"
| "pio_read_loop dev chan p (Suc n) ms =
     (let (m, s) = pio_read_loop dev chan p n ms;
          (s, w) = ata_data dev chan s
      in (write16 m (p + 2 * of_nat n) w, s))"

definition ata_pio_read_blk ::
  "device \<Rightarrow> ata_chan \<Rightarrow> addr \<Rightarrow> 'b buddy_scheme \<times> 'a port_io_scheme \<Rightarrow> 'b buddy_scheme \<times> 'a port_io_scheme" where
  "ata_pio_read_blk dev chan blk = (\<lambda>(m, s).
     let (k, s) = pio_read_loop dev chan blk 256 (kmem m, s) in (m\<lparr>kmem := k\<rparr>, s))"

primrec swap_loop :: "addr \<Rightarrow> nat \<Rightarrow> mem \<Rightarrow> mem" where
  "swap_loop p 0 m = m"
| "swap_loop p (Suc n) m =
     (let m = swap_loop p n m; a = p + 2 * of_nat n in write16 m a (be16toh (read16 m a)))"

fun trim_loop :: "addr \<Rightarrow> nat \<Rightarrow> mem \<Rightarrow> mem" where
  "trim_loop str i m =
     (if 1 < i then
        if m (str + of_nat (i - 1)) = 0x20 then trim_loop str (i - 1) (m(str + of_nat (i - 1) := 0)) else m
      else m)"

definition swizzle_string :: "addr \<Rightarrow> nat \<Rightarrow> mem \<Rightarrow> mem" where
  "swizzle_string str len m = trim_loop str len (swap_loop str (len div 2) m)"

definition ident_swizzle :: "addr \<Rightarrow> mem \<Rightarrow> mem" where
  "ident_swizzle ident m =
     swizzle_string (ident + ident_fw_rev) 8
       (swizzle_string (ident + ident_serial) 20
         (swizzle_string (ident + ident_model) 40 m))"

primrec ata_rw_loop ::
  "device \<Rightarrow> addr \<Rightarrow> nat \<Rightarrow> u64 \<Rightarrow> addr \<Rightarrow> 'b blk_state_scheme \<times> 'a ata_state_scheme \<Rightarrow>
     (('b blk_state_scheme \<times> 'a ata_state_scheme) \<times> int) option" where
  "ata_rw_loop dev bdev 0 blk buf ms = Some (ms, 0)"
| "ata_rw_loop dev bdev (Suc n) blk buf ms = (case ms of (m, s) \<Rightarrow> do {
     let c = abd_chan (ata_bdevs s bdev);
     let s = ata_set_drive_head c 1 (ucast (abd_drvsel (ata_bdevs s bdev))) (ucast (drop_bit 24 blk AND 0xf)) s;
     s \<leftarrow> ata_busy_wait dev (chans s c) s;
     let s = ata_set_sector_count (chans s c) 1 s;
     let s = ata_set_sector (chans s c) (ucast (blk AND 0xff)) s;
     let s = ata_set_lcyl (chans s c) (ucast (drop_bit 8 blk AND 0xff)) s;
     let s = ata_set_hcyl (chans s c) (ucast (drop_bit 16 blk AND 0xff)) s;
     let s = ata_command (chans s c) ATA_CMD_READ_SECTORS s;
     s \<leftarrow> ata_busy_wait dev (chans s c) s;
     let (s, st) = ata_alt_status dev (chans s c) s;
     if st AND ATA_STATUS_DRQ = 0 then Some ((m, s), -1)
     else let (m, s) = ata_pio_read_blk dev (chans s c) buf (m, s)
          in ata_rw_loop dev bdev n (blk + 1) (buf + sectsize (blkdevs m bdev)) (m, s)
   })"

definition ata_rw_blk ::
  "device \<Rightarrow> addr \<Rightarrow> int \<Rightarrow> u64 \<Rightarrow> addr \<Rightarrow> 'b blk_state_scheme \<times> 'a ata_state_scheme \<Rightarrow>
     (('b blk_state_scheme \<times> 'a ata_state_scheme) \<times> int) option" where
  "ata_rw_blk dev kbdev write blk buf ms =
     ata_rw_loop dev kbdev (unat (bd_count (blkdevs (fst ms) kbdev))) blk buf ms"

section \<open>Setting up\<close>

text \<open>\<open>rw_fn\<close> is the address of \<open>ata_rw_blk\<close>, \<open>fmt\<close> that of the format of the names, \<open>sp\<close> that of
  the stack words the arguments are passed in and \<open>null_str\<close> as for \<open>snprintf\<close>.\<close>

record ata_image =
  rw_fn :: addr
  isr_fn :: addr
  name_fmt :: addr
  name_args :: addr
  null_string :: addr

definition ata_name :: "ata_image \<Rightarrow> addr \<Rightarrow> u32 \<Rightarrow> addr \<times> ata_side \<Rightarrow> u32 \<Rightarrow> mem \<Rightarrow> mem option" where
  "ata_name img name controller_num chan drvsel m = do {
     let sp = name_args img;
     let m = write32 m sp controller_num;
     let m = write32 m (sp + 4) (ucast (if snd chan = ata_x then ch CHR ''X'' else ch CHR ''Y''));
     let m = write32 m (sp + 8) drvsel;
     (m, _) \<leftarrow> snprintf (null_string img) m name ATA_MAX_BLKNAME (name_fmt img) sp;
     Some m
   }"

definition ata_new_blkdev ::
  "ata_image \<Rightarrow> addr \<Rightarrow> addr \<times> ata_side \<Rightarrow> u32 \<Rightarrow> u32 \<Rightarrow> 'b blk_state_scheme \<times> 'a ata_state_scheme \<Rightarrow>
     (('b blk_state_scheme \<times> 'a ata_state_scheme) \<times> addr) option" where
  "ata_new_blkdev img dev chan controller_num drvsel = (\<lambda>(m, s). do {
     (m, bdev) \<leftarrow> kmalloc sizeof_ata_blkdev m;
     if bdev = NULL then Some ((m, s), bdev)
     else do {
       (m, name) \<leftarrow> kmalloc ATA_MAX_BLKNAME m;
       let m = upd_blkdev bdev (\<lambda>b. b\<lparr>bd_name := name\<rparr>) m;
       if name = NULL then do {
         m \<leftarrow> kfree bdev m;
         Some ((m, s), bdev)
       } else do {
         k \<leftarrow> ata_name img name controller_num chan drvsel (kmem m);
         let m = m\<lparr>kmem := k\<rparr>;
         let m = upd_blkdev bdev (\<lambda>b. b\<lparr>sectsize := 512, ll_rw_blk := rw_fn img\<rparr>) m;
         let s = s\<lparr>ata_bdevs := (ata_bdevs s)(bdev := \<lparr>abd_dev = dev, abd_chan = chan, abd_drvsel = drvsel\<rparr>)\<rparr>;
         Some ((m, s), bdev)
       }
     }
   })"

text \<open>One turn of the loop over the drives of a channel; \<open>base\<close> is the place of its block devices in
  the array of the controller.\<close>

definition ata_probe ::
  "device \<Rightarrow> ata_image \<Rightarrow> addr \<Rightarrow> ata_side \<Rightarrow> nat \<Rightarrow> addr \<Rightarrow> u32 \<Rightarrow> 'b blk_state_scheme \<times> 'a ata_state_scheme \<Rightarrow>
     ('b blk_state_scheme \<times> 'a ata_state_scheme) option" where
  "ata_probe hw img dev side base ident d = (\<lambda>(m, s). do {
     let c = (dev, side);
     let s = ata_set_drive_head c 0 (ucast d) 0 s;
     let s = upd_chan c (\<lambda>k. k\<lparr>chan_drvsel := ucast d\<rparr>) s;
     s \<leftarrow> ata_busy_wait hw (chans s c) s;
     let s = ata_command (chans s c) ATA_CMD_IDENTIFY s;
     s \<leftarrow> ata_busy_wait hw (chans s c) s;
     let (s, st) = ata_status hw (chans s c) s;
     if st = 0 then Some (m, s)
     else do {
       let (s, st) = ata_status hw (chans s c) s;
       (s, known) \<leftarrow> (if st AND ATA_STATUS_ERR \<noteq> 0
          then (let (s, hi) = ata_get_hcyl hw (chans s c) s;
                    (s, lo) = ata_get_lcyl hw (chans s c) s
                in if hi \<noteq> 0xeb \<or> lo \<noteq> 0x14 then Some (s, False)
                   else do {
                     let s = upd_chan c (\<lambda>k. k\<lparr>disk_type := DISK_TYPE_ATAPI\<rparr>) s;
                     let s = ata_command (chans s c) ATA_CMD_IDENTIFY_PACKET s;
                     s \<leftarrow> ata_busy_wait hw (chans s c) s;
                     Some (s, True)
                   })
          else Some (upd_chan c (\<lambda>k. k\<lparr>disk_type := DISK_TYPE_ATA\<rparr>) s, True));
       if \<not> known then Some (m, s)
       else do {
         let (m, s) = ata_pio_read_blk hw (chans s c) ident (m, s);
         let m = m\<lparr>kmem := ident_swizzle ident (kmem m)\<rparr>;
         let n = (if read16 (kmem m) (ident + ident_features1) AND push_bit 10 1 \<noteq> 0
                  then read32 (kmem m) (ident + ident_max_lba)
                  else read32 (kmem m) (ident + ident_max_lba28));
         let s = upd_chan c (\<lambda>k. k\<lparr>num_sect := n\<rparr>) s;
         ((m, s), bdev) \<leftarrow> ata_new_blkdev img dev c (nr_controllers s) d (m, s);
         if bdev = NULL then Some (m, s)
         else Some (m, s\<lparr>ata_devs := (ata_devs s)(dev := (ata_devs s dev)
                \<lparr>bd := (bd (ata_devs s dev))(base + (if d = 0 then 0 else 1) := bdev)\<rparr>)\<rparr>)
       }
     }
   })"

definition ata_chan_init ::
  "device \<Rightarrow> ata_image \<Rightarrow> addr \<Rightarrow> ata_side \<Rightarrow> nat \<Rightarrow> 'b blk_state_scheme \<times> 'a ata_state_scheme \<Rightarrow>
     (('b blk_state_scheme \<times> 'a ata_state_scheme) \<times> int) option" where
  "ata_chan_init hw img dev side base = (\<lambda>(m, s). do {
     (m, ident) \<leftarrow> kmalloc sizeof_ata_identity m;
     if ident = NULL then Some ((m, s), -1)
     else do {
       (s, ret) \<leftarrow> ata_chan_reset hw (chans s (dev, side)) s;
       if ret \<noteq> 0 then do { m \<leftarrow> kfree ident m; Some ((m, s), ret) }
       else do {
         ms \<leftarrow> mfold (ata_probe hw img dev side base ident) [0, 1] (m, s);
         let m = fst ms;
         let s = snd ms;
         let irq = chan_irq (chans s (dev, side));
         s \<leftarrow> (if irq \<noteq> 0 then irq_on (set_irq_handler s (sint irq) (isr_fn img) dev) (ucast irq) else Some s);
         let s = ata_devctl (chans s (dev, side)) 0 s;
         let s = s\<lparr>nr_controllers := nr_controllers s + 1\<rparr>;
         m \<leftarrow> kfree ident m;
         Some ((m, s), 0)
       }
     }
   })"

definition ata_dev_init ::
  "device \<Rightarrow> ata_image \<Rightarrow> addr \<Rightarrow> 'b blk_state_scheme \<times> 'a ata_state_scheme \<Rightarrow>
     (('b blk_state_scheme \<times> 'a ata_state_scheme) \<times> int) option" where
  "ata_dev_init hw img dev ms = do {
     (ms, ret) \<leftarrow> ata_chan_init hw img dev ata_x 0 ms;
     if ret \<noteq> 0 then Some (ms, ret)
     else do {
       (ms, ret) \<leftarrow> ata_chan_init hw img dev ata_y 2 ms;
       if ret \<noteq> 0 then Some (ms, ret)
       else do {
         m \<leftarrow> mfold (\<lambda>i m. if bd (ata_devs (snd ms) dev) i \<noteq> NULL then blkdev_add (bd (ata_devs (snd ms) dev) i) m else Some m)
               [0..<4] (fst ms);
         Some ((m, snd ms), 0)
       }
     }
   }"

text \<open>The registers of one channel: from the configuration space, or those of the legacy ports.\<close>

definition ata_bars ::
  "(addr \<Rightarrow> 'a ata_state_scheme pci_dom_ops) \<Rightarrow> addr \<Rightarrow> addr \<times> ata_side \<Rightarrow> u32 \<Rightarrow> u32 \<Rightarrow> u32 \<Rightarrow>
     'a ata_state_scheme \<Rightarrow> 'a ata_state_scheme" where
  "ata_bars ops pcidev c cmd ctl dma s =
     (let (s, v) = pcidev_conf_read32 ops pcidev cmd s;
          s = upd_chan c (\<lambda>k. k\<lparr>cmd_bar := v\<rparr>) s;
          (s, v) = pcidev_conf_read32 ops pcidev ctl s;
          s = upd_chan c (\<lambda>k. k\<lparr>ctl_bar := v\<rparr>) s;
          (s, v) = pcidev_conf_read32 ops pcidev dma s;
          s = upd_chan c (\<lambda>k. k\<lparr>dma_bar := v\<rparr>) s;
          (s, i) = pcidev_conf_read8 ops pcidev PCI_CONF0_IRQ s
      in upd_chan c (\<lambda>k. k\<lparr>chan_irq := ucast i\<rparr>) s)"

definition ata_legacy :: "addr \<times> ata_side \<Rightarrow> u32 \<Rightarrow> u32 \<Rightarrow> u32 \<Rightarrow> u32 \<Rightarrow> 'a ata_state_scheme \<Rightarrow> 'a ata_state_scheme" where
  "ata_legacy c cmd ctl dma irq s =
     upd_chan c (\<lambda>k. k\<lparr>cmd_bar := cmd, ctl_bar := ctl, dma_bar := dma, chan_irq := irq\<rparr>) s"

definition pci_ata_attach ::
  "device \<Rightarrow> ata_image \<Rightarrow> (addr \<Rightarrow> 'a ata_state_scheme pci_dom_ops) \<Rightarrow> addr \<Rightarrow>
     'b blk_state_scheme \<times> 'a ata_state_scheme \<Rightarrow> (('b blk_state_scheme \<times> 'a ata_state_scheme) \<times> int) option" where
  "pci_ata_attach hw img ops pcidev = (\<lambda>(m, s). do {
     (m, dev) \<leftarrow> kmalloc0 sizeof_ata_dev m;
     if dev = NULL then Some ((m, s), -1)
     else do {
       let s = s\<lparr>chans := (chans s)((dev, ata_x) := zero_chan, (dev, ata_y) := zero_chan),
                 ata_devs := (ata_devs s)(dev := \<lparr>ata_ref = 0, bd = (\<lambda>_. NULL)\<rparr>)\<rparr>;
       let (s, progif) = pcidev_conf_read8 ops pcidev PCI_CONF_PROGIF s;
       let s = (if progif AND PROGIF_X_MODE \<noteq> 0
                then ata_bars ops pcidev (dev, ata_x) PCI_CONF0_BAR0 PCI_CONF0_BAR1 (PCI_CONF0_BAR4 + 0) s
                else ata_legacy (dev, ata_x) ATA_BAR0 ATA_BAR1 (ATA_BAR4 + 0) 14 s);
       let s = (if progif AND PROGIF_Y_MODE \<noteq> 0
                then ata_bars ops pcidev (dev, ata_y) PCI_CONF0_BAR2 PCI_CONF0_BAR3 (PCI_CONF0_BAR4 + 8) s
                else ata_legacy (dev, ata_y) ATA_BAR2 ATA_BAR3 (ATA_BAR4 + 8) 15 s);
       let s = (if progif AND PROGIF_BUS_MASTER = 0
                then upd_chan (dev, ata_y) (\<lambda>k. k\<lparr>dma_bar := 0\<rparr>) (upd_chan (dev, ata_x) (\<lambda>k. k\<lparr>dma_bar := 0\<rparr>) s)
                else s);
       ((m, s), ret) \<leftarrow> ata_dev_init hw img dev (m, s);
       if ret \<noteq> 0 then do { m \<leftarrow> kfree dev m; Some ((m, s), ret) }
       else Some ((m, s), 0)
     }
   })"

definition pci_ata_detach :: "addr \<Rightarrow> int" where
  "pci_ata_detach dev = -1"

section \<open>The sectors read\<close>

text \<open>The reference: the command block registers of a channel at the ports from \<open>base\<close>, as the bytes
  written to them. A READ SECTORS command in LBA mode reads the sector whose number the registers
  hold, from the drive that bit 4 of the head register selects.\<close>

record ata_regs =
  reg_count :: u8
  reg_sector :: u8
  reg_lcyl :: u8
  reg_hcyl :: u8
  reg_head :: u8

definition regs_lba :: "ata_regs \<Rightarrow> u32" where
  "regs_lba r = ucast (reg_sector r) OR push_bit 8 (ucast (reg_lcyl r)) OR push_bit 16 (ucast (reg_hcyl r)) OR
     push_bit 24 (ucast (reg_head r AND 0xf))"

text \<open>A request: LBA mode, the drive, the number of sectors, the first sector.\<close>

type_synonym ata_request = "bool \<times> bool \<times> u8 \<times> u32"

fun ata_hw :: "u16 \<Rightarrow> port_op \<Rightarrow> ata_regs \<times> ata_request list \<Rightarrow> ata_regs \<times> ata_request list" where
  "ata_hw base (PIn w p v) h = h"
| "ata_hw base (POut w p v) (r, seen) =
     (if p = base + 2 then (r\<lparr>reg_count := ucast v\<rparr>, seen)
      else if p = base + 3 then (r\<lparr>reg_sector := ucast v\<rparr>, seen)
      else if p = base + 4 then (r\<lparr>reg_lcyl := ucast v\<rparr>, seen)
      else if p = base + 5 then (r\<lparr>reg_hcyl := ucast v\<rparr>, seen)
      else if p = base + 6 then (r\<lparr>reg_head := ucast v\<rparr>, seen)
      else if p = base + 7 \<and> v = 0x20
        then (r, seen @ [(bit (reg_head r) 6, bit (reg_head r) 4, reg_count r, regs_lba r)])
      else (r, seen))"

definition ata_seen :: "u16 \<Rightarrow> port_op list \<Rightarrow> ata_regs \<times> ata_request list \<Rightarrow> ata_regs \<times> ata_request list" where
  "ata_seen base io = fold (ata_hw base) io"

lemma ata_seen_simps [simp]:
  "ata_seen base [] h = h" "ata_seen base (op # io) h = ata_seen base io (ata_hw base op h)"
  "ata_seen base (io @ io') h = ata_seen base io' (ata_seen base io h)"
  by (simp_all add: ata_seen_def)

text \<open>An operation that only reads ports.\<close>

definition only_reads :: "'a port_io_scheme \<Rightarrow> 'a port_io_scheme \<Rightarrow> bool" where
  "only_reads s s' \<longleftrightarrow> (\<exists>io. s' = s\<lparr>io_log := io_log s @ io\<rparr> \<and> (\<forall>base h. ata_seen base io h = h))"

lemma only_reads_refl: "only_reads s s"
  unfolding only_reads_def by (rule exI [of _ "[]"]) simp

lemma only_reads_trans: "only_reads s t \<Longrightarrow> only_reads t u \<Longrightarrow> only_reads s u"
  unfolding only_reads_def by clarsimp (metis ata_seen_simps(3))

lemma only_reads_in:
  "inb dev p s = (s', x) \<Longrightarrow> only_reads s s'" "inw dev p s = (s', y) \<Longrightarrow> only_reads s s'"
  unfolding only_reads_def inb_def inw_def Let_def
  by (auto intro: exI [of _ "[PIn w q v]" for w q v])

lemma busy_wait_reads: "ata_busy_wait dev chan s = Some s' \<Longrightarrow> only_reads s s'"
proof (erule ata_busy_wait.raw_induct [rotated])
  fix wait and dev :: device and chan :: ata_chan and s s' :: "'a port_io_scheme"
  assume IH: "\<And>dev chan s s'. wait dev chan s = Some s' \<Longrightarrow> only_reads s s'"
    and run: "(let (s, st) = ata_alt_status dev chan s
      in if st AND ATA_STATUS_BSY \<noteq> 0 then wait dev chan s else Some s) = Some s'"
  obtain s1 st where s1: "ata_alt_status dev chan s = (s1, st)" by fastforce
  then have "only_reads s s1" unfolding ata_alt_status_def by (rule only_reads_in)
  then show "only_reads s s'" using run s1 IH by (auto split: if_splits intro: only_reads_trans)
qed

lemma pio_reads: "only_reads (snd ms) (snd (pio_read_loop dev chan p n ms))"
proof (induction n)
  case 0
  then show ?case by (simp add: only_reads_refl)
next
  case (Suc n)
  obtain m s where ms: "pio_read_loop dev chan p n ms = (m, s)" by fastforce
  obtain s' w where "ata_data dev chan s = (s', w)" by fastforce
  moreover from this have "only_reads s s'" unfolding ata_data_def by (rule only_reads_in)
  ultimately show ?case using Suc ms by (auto intro: only_reads_trans)
qed

text \<open>The step the loop takes for one sector: the request that reaches the drive.\<close>

lemma nib_masks: "(0xf :: u8) = mask 4" "(0xff :: u64) = mask 8" "(0xf :: u64) = mask 4" "(0x0fffffff :: u32) = mask 28"
  by (simp_all add: mask_eq_exp_minus_1)

lemma lba_bytes:
  "ucast (ucast (blk AND 0xff) :: u8) OR push_bit 8 (ucast (ucast (drop_bit 8 blk AND 0xff) :: u8)) OR
   push_bit 16 (ucast (ucast (drop_bit 16 blk AND 0xff) :: u8)) OR
   push_bit 24 (ucast (ucast (drop_bit 24 (blk :: u64) AND 0xf) :: u8)) = (ucast blk AND 0x0fffffff :: u32)"
  unfolding nib_masks
proof (rule bit_word_eqI)
  fix n :: nat
  consider "n < 8" | "8 \<le> n" "n < 16" | "16 \<le> n" "n < 24" | "24 \<le> n" "n < 28" | "28 \<le> n" by linarith
  then show "bit (ucast (ucast (blk AND mask 8) :: u8) OR push_bit 8 (ucast (ucast (drop_bit 8 blk AND mask 8) :: u8)) OR
     push_bit 16 (ucast (ucast (drop_bit 16 blk AND mask 8) :: u8)) OR
     push_bit 24 (ucast (ucast (drop_bit 24 blk AND mask 4) :: u8)) :: u32) n =
    bit (ucast blk AND mask 28 :: u32) n" if "n < LENGTH(32)"
    using that by cases (simp_all add: bit_simps less_diff_conv2)
qed

definition head_byte :: "bool \<Rightarrow> u64 \<Rightarrow> u8" where
  "head_byte d blk = 0xa0 OR push_bit 6 (nz 1) OR push_bit 4 (if d then 1 else 0) OR (ucast (drop_bit 24 blk AND 0xf) AND 0xf)"

lemma head_byte_bits: "bit (head_byte d blk) 6" "bit (head_byte d blk) 4 \<longleftrightarrow> d"
  "head_byte d blk AND 0xf = ucast (drop_bit 24 blk AND 0xf)"
proof -
  show "bit (head_byte d blk) 6" "bit (head_byte d blk) 4 \<longleftrightarrow> d"
    by (simp_all add: head_byte_def nz_def nib_masks bit_simps)
  show "head_byte d blk AND 0xf = ucast (drop_bit 24 blk AND 0xf)"
  proof -
    have a0: "\<not> bit (0xa0 :: u8) n \<and> \<not> bit (0x40 :: u8) n \<and> \<not> bit (0x10 :: u8) n" if n: "n < 4" for n :: nat
    proof -
      consider "n = 0" | "n = 1" | "n = 2" | "n = 3" using n by linarith
      then show ?thesis by cases simp_all
    qed
    show ?thesis unfolding head_byte_def nib_masks
    proof (rule bit_word_eqI)
      fix n :: nat
      show "bit ((0xa0 OR push_bit 6 (nz 1) OR push_bit 4 (if d then 1 else 0) OR
          (ucast (drop_bit 24 blk AND mask 4) AND mask 4)) AND mask 4 :: u8) n = bit (ucast (drop_bit 24 blk AND mask 4) :: u8) n"
        using a0 [of n] by (cases "n < 4") (simp_all add: bit_simps nz_def)
    qed
  qed
qed

lemma only_reads_frame:
  assumes "only_reads s s'"
  shows "port_io.more s' = port_io.more s"
  using assms by (auto simp: only_reads_def)

lemma ata_more:
  "port_io.more s' = port_io.more s \<Longrightarrow> chans s' = chans s \<and> ata_bdevs s' = ata_bdevs s"
  for s s' :: "'a ata_state_scheme"
  by (cases s, cases s') simp

lemma ata_set_frame [simp]:
  "chans (ata_command k b s) = chans s" "ata_bdevs (ata_command k b s) = ata_bdevs s"
  "chans (ata_set_hcyl k b s) = chans s" "ata_bdevs (ata_set_hcyl k b s) = ata_bdevs s"
  "chans (ata_set_lcyl k b s) = chans s" "ata_bdevs (ata_set_lcyl k b s) = ata_bdevs s"
  "chans (ata_set_sector k b s) = chans s" "ata_bdevs (ata_set_sector k b s) = ata_bdevs s"
  "chans (ata_set_sector_count k b s) = chans s" "ata_bdevs (ata_set_sector_count k b s) = ata_bdevs s"
  by (simp_all add: ata_command_def ata_set_hcyl_def ata_set_lcyl_def ata_set_sector_def ata_set_sector_count_def outb_def)

lemma only_reads_seen:
  assumes "only_reads s s'" "\<exists>io. io_log s = l @ io \<and> ata_seen base io h = h'"
  shows "\<exists>io. io_log s' = l @ io \<and> ata_seen base io h = h'"
proof -
  obtain io io' where "s' = s\<lparr>io_log := io_log s @ io'\<rparr>" "\<And>h. ata_seen base io' h = h"
    "io_log s = l @ io" "ata_seen base io h = h'" using assms unfolding only_reads_def by blast
  then show ?thesis by (intro exI [of _ "io @ io'"]) simp
qed

definition seen_by :: "u16 \<Rightarrow> port_op list \<Rightarrow> ata_regs \<times> ata_request list \<Rightarrow> 'a port_io_scheme \<Rightarrow> ata_regs \<times> ata_request list \<Rightarrow> bool" where
  "seen_by base l h s h' \<longleftrightarrow> (\<exists>io. io_log s = l @ io \<and> ata_seen base io h = h')"

lemma seen_by_reads: "only_reads s s' \<Longrightarrow> seen_by base l h s h' \<Longrightarrow> seen_by base l h s' h'"
  unfolding seen_by_def by (rule only_reads_seen)

lemma seen_by_outb:
  "seen_by base l h s h' \<Longrightarrow> seen_by base l h (outb p v s) (ata_hw base (POut 8 (ucast p) (ucast v)) h')"
  unfolding seen_by_def by auto

lemma seen_by_refl: "seen_by base (io_log s) h s h"
  unfolding seen_by_def by (rule exI [of _ "[]"]) simp

lemma seen_by_log: "io_log s' = io_log s \<Longrightarrow> seen_by base l h s' = seen_by base l h s"
  by (rule ext) (simp add: seen_by_def)

lemma drive_head_seen:
  assumes "seen_by base l h s (r, seen)" "base = ucast (cmd_bar (chans s c))"
  shows "seen_by base l h (ata_set_drive_head c 1 d (ucast (drop_bit 24 blk AND 0xf)) s)
    (r\<lparr>reg_head := head_byte (d \<noteq> 0) blk\<rparr>, seen)"
  using seen_by_outb [OF assms(1), of "cmd_bar (chans s c) + 6" "head_byte (d \<noteq> 0) blk"] assms(2)
  by (simp add: ata_set_drive_head_def head_byte_def nz_def Let_def upd_chan_def seen_by_def ucast_add16)

lemma command_seen:
  assumes "seen_by base l h s (r, seen)" "base = ucast p"
  shows "seen_by base l h (outb (p + 7) 0x20 (outb (p + 5) hc (outb (p + 4) lc (outb (p + 3) sc (outb (p + 2) n s)))))
    (r\<lparr>reg_count := n, reg_sector := sc, reg_lcyl := lc, reg_hcyl := hc\<rparr>,
     seen @ [(bit (reg_head r) 6, bit (reg_head r) 4, n, regs_lba (r\<lparr>reg_sector := sc, reg_lcyl := lc, reg_hcyl := hc\<rparr>))])"
proof -
  obtain io where "io_log s = l @ io" "ata_seen base io h = (r, seen)" using assms(1) by (auto simp: seen_by_def)
  then show ?thesis unfolding seen_by_def assms(2) by (simp add: ucast_add16 regs_lba_def)
qed

text \<open>One sector: its request reaches the drive, whatever the drive answers.\<close>

lemma ata_sector:
  fixes s :: "'a ata_state_scheme"
  assumes run: "ata_rw_loop dev bdev (Suc n) blk buf (m, s) = Some ((m', s'), ret)"
    and c: "c = abd_chan (ata_bdevs s bdev)" "base = ucast (cmd_bar (chans s c))"
    and seen: "seen_by base l h s (r, seen)"
  obtains r' m1 s1 where
    "seen_by base l h s1 (r', seen @ [(True, ucast (abd_drvsel (ata_bdevs s bdev)) \<noteq> (0 :: u8), 1, ucast blk AND 0x0fffffff)])"
    "ata_bdevs s1 = ata_bdevs s" "cmd_bar (chans s1 c) = cmd_bar (chans s c)" "blkdevs m1 = blkdevs m"
    "(ret = -1 \<and> m' = m \<and> s' = s1) \<or> ata_rw_loop dev bdev n (blk + 1) (buf + sectsize (blkdevs m1 bdev)) (m1, s1) = Some ((m', s'), ret)"
proof -
  let ?d = "ucast (abd_drvsel (ata_bdevs s bdev)) :: u8"
  let ?s1 = "ata_set_drive_head c 1 ?d (ucast (drop_bit 24 blk AND 0xf)) s"
  let ?ch = "chans ?s1 c"
  have ch: "cmd_bar ?ch = cmd_bar (chans s c)" "ata_bdevs ?s1 = ata_bdevs s"
    by (simp_all add: ata_set_drive_head_def upd_chan_def Let_def outb_def)
  obtain s2 where s2: "ata_busy_wait dev ?ch ?s1 = Some s2"
    using run c(1) by (auto simp: Let_def split: Option.bind_splits)
  note m2 = ata_more [OF only_reads_frame [OF busy_wait_reads [OF s2]]]
  let ?s3 = "ata_command ?ch ATA_CMD_READ_SECTORS (ata_set_hcyl ?ch (ucast (drop_bit 16 blk AND 0xff))
    (ata_set_lcyl ?ch (ucast (drop_bit 8 blk AND 0xff)) (ata_set_sector ?ch (ucast (blk AND 0xff)) (ata_set_sector_count ?ch 1 s2))))"
  have f3: "chans ?s3 = chans ?s1" "ata_bdevs ?s3 = ata_bdevs s" using m2 ch by simp_all
  let ?r = "r\<lparr>reg_head := head_byte (?d \<noteq> 0) blk, reg_count := 1, reg_sector := ucast (blk AND 0xff),
    reg_lcyl := ucast (drop_bit 8 blk AND 0xff), reg_hcyl := ucast (drop_bit 16 blk AND 0xff)\<rparr>"
  have lba: "regs_lba ?r = ucast blk AND 0x0fffffff" using lba_bytes [of blk] by (simp add: regs_lba_def head_byte_bits)
  have "seen_by base l h s2 (r\<lparr>reg_head := head_byte (?d \<noteq> 0) blk\<rparr>, seen)"
    by (rule seen_by_reads [OF busy_wait_reads [OF s2] drive_head_seen [OF seen c(2)]])
  from command_seen [OF this, of "cmd_bar ?ch" "ucast (drop_bit 16 blk AND 0xff)" "ucast (drop_bit 8 blk AND 0xff)"
      "ucast (blk AND 0xff)" 1]
  have s3: "seen_by base l h ?s3 (?r, seen @ [(True, ?d \<noteq> 0, 1, ucast blk AND 0x0fffffff)])"
    using c(2) ch(1) lba
    by (simp add: ata_command_def ata_set_hcyl_def ata_set_lcyl_def ata_set_sector_def ata_set_sector_count_def
        ATA_CMD_READ_SECTORS_def head_byte_bits regs_lba_def)
  obtain s4 where s4: "ata_busy_wait dev ?ch ?s3 = Some s4"
    using run c(1) s2 m2 by (auto simp: Let_def split: Option.bind_splits)
  obtain s5 st where s5: "ata_alt_status dev ?ch s4 = (s5, st)" by fastforce
  obtain k s6 where s6: "pio_read_loop dev ?ch buf 256 (kmem m, s5) = (k, s6)" by fastforce
  have r4: "only_reads ?s3 s4" "only_reads s4 s5" "only_reads s5 s6"
    using busy_wait_reads [OF s4] s5 only_reads_in(1) pio_reads [of "(kmem m, s5)" dev ?ch buf 256] s6
    by (auto simp: ata_alt_status_def)
  note m4 = ata_more [OF only_reads_frame [OF r4(1)]] ata_more [OF only_reads_frame [OF r4(2)]] ata_more [OF only_reads_frame [OF r4(3)]]
  have seen5: "seen_by base l h s5 (?r, seen @ [(True, ?d \<noteq> 0, 1, ucast blk AND 0x0fffffff)])"
    by (rule seen_by_reads [OF r4(2) seen_by_reads [OF r4(1) s3]])
  have step: "ata_rw_loop dev bdev (Suc n) blk buf (m, s) =
    (if st AND ATA_STATUS_DRQ = 0 then Some ((m, s5), -1)
     else ata_rw_loop dev bdev n (blk + 1) (buf + sectsize (blkdevs m bdev)) (m\<lparr>kmem := k\<rparr>, s6))"
    using c(1) s2 s4 s5 s6 m2 m4 by (simp add: Let_def ata_pio_read_blk_def)
  show thesis
  proof (cases "st AND ATA_STATUS_DRQ = 0")
    case True
    then show thesis using that [OF seen5, of m] run step m4 f3 ch by auto
  next
    case False
    then show thesis using that [OF seen_by_reads [OF r4(3) seen5], of "m\<lparr>kmem := k\<rparr>"] run step m4 f3 ch by auto
  qed
qed

lemma ata_requests:
  fixes s :: "'a ata_state_scheme"
  assumes "ata_rw_loop dev bdev n blk buf (m, s) = Some ((m', s'), ret)"
    and "c = abd_chan (ata_bdevs s bdev)" "base = ucast (cmd_bar (chans s c))" "seen_by base l h s (r, seen)"
  shows "\<exists>k r'. k \<le> n \<and> (ret = 0 \<and> k = n \<or> ret = -1 \<and> 0 < k) \<and>
    seen_by base l h s' (r', seen @ map (\<lambda>i. (True, ucast (abd_drvsel (ata_bdevs s bdev)) \<noteq> (0 :: u8), 1,
      ucast (blk + of_nat i) AND 0x0fffffff)) [0..<k])"
  using assms
proof (induction n arbitrary: blk buf m s r seen)
  case 0
  then show ?case by auto
next
  case (Suc n)
  let ?q = "\<lambda>b. (True, ucast (abd_drvsel (ata_bdevs s bdev)) \<noteq> (0 :: u8), 1 :: u8, ucast (b :: u64) AND 0x0fffffff :: u32)"
  obtain r1 m1 s1 where s1: "seen_by base l h s1 (r1, seen @ [?q blk])" "ata_bdevs s1 = ata_bdevs s"
    "cmd_bar (chans s1 c) = cmd_bar (chans s c)" "blkdevs m1 = blkdevs m"
    "(ret = -1 \<and> m' = m \<and> s' = s1) \<or> ata_rw_loop dev bdev n (blk + 1) (buf + sectsize (blkdevs m1 bdev)) (m1, s1) = Some ((m', s'), ret)"
    using ata_sector [OF Suc.prems] by blast
  show ?case
  proof (cases "ret = -1 \<and> m' = m \<and> s' = s1")
    case True
    then show ?thesis using s1(1) by (intro exI [of _ 1] exI [of _ r1]) simp
  next
    case False
    then have run: "ata_rw_loop dev bdev n (blk + 1) (buf + sectsize (blkdevs m1 bdev)) (m1, s1) = Some ((m', s'), ret)" using s1(5) by blast
    have "c = abd_chan (ata_bdevs s1 bdev)" "base = ucast (cmd_bar (chans s1 c))" using Suc.prems(2,3) s1(2,3) by simp_all
    from Suc.IH [OF run this s1(1)] obtain k r' where k: "k \<le> n" "ret = 0 \<and> k = n \<or> ret = -1 \<and> 0 < k"
      "seen_by base l h s' (r', (seen @ [?q blk]) @ map (\<lambda>i. ?q (blk + 1 + of_nat i)) [0..<k])"
      unfolding s1(2) by blast
    have "map (\<lambda>i. ?q (blk + of_nat i)) [0..<Suc k] = ?q blk # map (\<lambda>i. ?q (blk + 1 + of_nat i)) [0..<k]"
      by (simp add: upt_conv_Cons map_Suc_upt [symmetric] comp_def add.assoc del: upt_Suc)
    then have "seen_by base l h s' (r', seen @ map (\<lambda>i. ?q (blk + of_nat i)) [0..<Suc k])"
      using k(3) by (simp del: upt_Suc)
    then show ?thesis using k(1,2) by (intro exI [of _ "Suc k"] exI [of _ r']) auto
  qed
qed

text \<open>A drive that is never busy and always has data.\<close>

lemma busy_wait_ready:
  assumes "\<And>l. dev l (ucast (ctl_bar chan)) AND 0x88 = 0x08"
  shows "\<exists>s'. ata_busy_wait dev chan s = Some s'" "\<And>s' st. ata_alt_status dev chan s = (s', st) \<Longrightarrow> st AND ATA_STATUS_DRQ \<noteq> 0"
proof -
  have b: "ucast (dev l (ucast (ctl_bar chan))) AND (0x80 :: u8) = 0" "ucast (dev l (ucast (ctl_bar chan))) AND (0x08 :: u8) \<noteq> 0" for l
  proof -
    have "bit (dev l (ucast (ctl_bar chan)) AND 0x88) 7 = bit (0x08 :: u32) 7" "bit (dev l (ucast (ctl_bar chan)) AND 0x88) 3 = bit (0x08 :: u32) 3"
      unfolding assms by simp_all
    then have "\<not> bit (dev l (ucast (ctl_bar chan))) 7" "bit (dev l (ucast (ctl_bar chan))) 3" by (simp_all add: bit_simps)
    moreover have p: "(0x80 :: u8) = 2 ^ 7" "(0x08 :: u8) = 2 ^ 3" by simp_all
    ultimately show "ucast (dev l (ucast (ctl_bar chan))) AND (0x80 :: u8) = 0" "ucast (dev l (ucast (ctl_bar chan))) AND (0x08 :: u8) \<noteq> 0"
      unfolding p and_exp_eq_0_iff_not_bit by (simp_all add: bit_simps)
  qed
  show "\<exists>s'. ata_busy_wait dev chan s = Some s'"
    by (subst ata_busy_wait.simps) (simp add: ata_alt_status_def inb_def Let_def ATA_STATUS_BSY_def b)
  show "st AND ATA_STATUS_DRQ \<noteq> 0" if "ata_alt_status dev chan s = (s', st)" for s' st
    using that b(2) by (auto simp: ata_alt_status_def inb_def Let_def ATA_STATUS_DRQ_def)
qed

lemma ata_ready_returns:
  fixes s :: "'a ata_state_scheme"
  assumes "c = abd_chan (ata_bdevs s bdev)" "\<And>l. dev l (ucast (ctl_bar (chans s c))) AND 0x88 = 0x08"
  shows "\<exists>ms'. ata_rw_loop dev bdev n blk buf (m, s) = Some (ms', 0)"
  using assms
proof (induction n arbitrary: blk buf m s)
  case 0
  then show ?case by simp
next
  case (Suc n)
  let ?d = "ucast (abd_drvsel (ata_bdevs s bdev)) :: u8"
  let ?s1 = "ata_set_drive_head c 1 ?d (ucast (drop_bit 24 blk AND 0xf)) s"
  let ?ch = "chans ?s1 c"
  have ch: "ctl_bar ?ch = ctl_bar (chans s c)" "ata_bdevs ?s1 = ata_bdevs s"
    by (simp_all add: ata_set_drive_head_def upd_chan_def Let_def outb_def)
  have "\<And>l. dev l (ucast (ctl_bar ?ch)) AND 0x88 = 0x08" using Suc.prems(2) ch(1) by simp
  note ready = busy_wait_ready [of dev ?ch, OF this]
  obtain s2 where s2: "ata_busy_wait dev ?ch ?s1 = Some s2" using ready(1) by blast
  note m2 = ata_more [OF only_reads_frame [OF busy_wait_reads [OF s2]]]
  let ?s3 = "ata_command ?ch ATA_CMD_READ_SECTORS (ata_set_hcyl ?ch (ucast (drop_bit 16 blk AND 0xff))
    (ata_set_lcyl ?ch (ucast (drop_bit 8 blk AND 0xff)) (ata_set_sector ?ch (ucast (blk AND 0xff)) (ata_set_sector_count ?ch 1 s2))))"
  obtain s4 where s4: "ata_busy_wait dev ?ch ?s3 = Some s4" using ready(1) by blast
  obtain s5 st where s5: "ata_alt_status dev ?ch s4 = (s5, st)" by fastforce
  obtain k s6 where s6: "pio_read_loop dev ?ch buf 256 (kmem m, s5) = (k, s6)" by fastforce
  have r4: "only_reads ?s3 s4" "only_reads s4 s5" "only_reads s5 s6"
    using busy_wait_reads [OF s4] s5 only_reads_in(1) pio_reads [of "(kmem m, s5)" dev ?ch buf 256] s6
    by (auto simp: ata_alt_status_def)
  note m4 = ata_more [OF only_reads_frame [OF r4(1)]] ata_more [OF only_reads_frame [OF r4(2)]] ata_more [OF only_reads_frame [OF r4(3)]]
  have "ata_rw_loop dev bdev (Suc n) blk buf (m, s) =
    ata_rw_loop dev bdev n (blk + 1) (buf + sectsize (blkdevs m bdev)) (m\<lparr>kmem := k\<rparr>, s6)"
    using Suc.prems(1) s2 s4 s5 s6 m2 m4 ready(2) [OF s5] by (simp add: Let_def ata_pio_read_blk_def)
  moreover have "c = abd_chan (ata_bdevs s6 bdev)" "\<And>l. dev l (ucast (ctl_bar (chans s6 c))) AND 0x88 = 0x08"
    using Suc.prems m2 m4 ch by simp_all
  ultimately show ?case using Suc.IH [of s6] by simp
qed

text \<open>
  C17. Reading from an ATA disk: whatever the drive answers, when \<open>ata_rw_blk\<close> returns, the requests
  that have reached the channel are for consecutive single sectors from the requested one on, in
  LBA mode and on the drive of the block device; it returns 0 exactly after a request for each of the
  sectors of the block, and -1 otherwise. The 28 address bits are those of the sector number, so a
  larger number wraps around. From a drive that is never busy and always has data it returns 0.
\<close>

theorem ata_rw_blk_requests:
  assumes "c = abd_chan (ata_bdevs s bdev)"
  shows "(\<forall>m' s' ret. ata_rw_blk dev bdev write blk buf (m, s) = Some ((m', s'), ret) \<longrightarrow>
      (\<exists>io k. io_log s' = io_log s @ io \<and> k \<le> unat (bd_count (blkdevs m bdev)) \<and>
        (ret = 0 \<and> k = unat (bd_count (blkdevs m bdev)) \<or> ret = -1 \<and> 0 < k) \<and>
        snd (ata_seen (ucast (cmd_bar (chans s c))) io (r, [])) =
          map (\<lambda>i. (True, ucast (abd_drvsel (ata_bdevs s bdev)) \<noteq> (0 :: u8), 1, ucast (blk + of_nat i) AND 0x0fffffff)) [0..<k])) \<and>
    ((\<forall>l. dev l (ucast (ctl_bar (chans s c))) AND 0x88 = 0x08) \<longrightarrow>
      (\<exists>ms'. ata_rw_blk dev bdev write blk buf (m, s) = Some (ms', 0)))"
proof (intro conjI allI impI)
  fix m' s' ret
  assume "ata_rw_blk dev bdev write blk buf (m, s) = Some ((m', s'), ret)"
  then have "ata_rw_loop dev bdev (unat (bd_count (blkdevs m bdev))) blk buf (m, s) = Some ((m', s'), ret)" by (simp add: ata_rw_blk_def)
  from ata_requests [OF this assms refl seen_by_refl, of r "[]"]
  show "\<exists>io k. io_log s' = io_log s @ io \<and> k \<le> unat (bd_count (blkdevs m bdev)) \<and>
      (ret = 0 \<and> k = unat (bd_count (blkdevs m bdev)) \<or> ret = -1 \<and> 0 < k) \<and>
      snd (ata_seen (ucast (cmd_bar (chans s c))) io (r, [])) =
        map (\<lambda>i. (True, ucast (abd_drvsel (ata_bdevs s bdev)) \<noteq> (0 :: u8), 1, ucast (blk + of_nat i) AND 0x0fffffff)) [0..<k]"
    unfolding seen_by_def by force
next
  assume "\<forall>l. dev l (ucast (ctl_bar (chans s c))) AND 0x88 = 0x08"
  then show "\<exists>ms'. ata_rw_blk dev bdev write blk buf (m, s) = Some (ms', 0)"
    using ata_ready_returns [OF assms, of dev] by (simp add: ata_rw_blk_def)
qed

theorem ata_rw_blk_requests_witness:
  "\<forall>(m :: blk_state) (s :: ata_state) r. \<exists>m' s' io.
     ata_rw_blk (\<lambda>_ _. 8) 1 0 5 0x1000 (m\<lparr>blkdevs := (\<lambda>_. demo_disk)\<rparr>, s) = Some ((m', s'), 0) \<and> io_log s' = io_log s @ io \<and>
     map (\<lambda>q. snd (snd (snd q))) (snd (ata_seen (ucast (cmd_bar (chans s (abd_chan (ata_bdevs s 1))))) io (r, []))) = [5, 6]"
proof (intro allI)
  fix m :: blk_state and s :: ata_state and r
  let ?m = "m\<lparr>blkdevs := (\<lambda>_. demo_disk)\<rparr>"
  note t = ata_rw_blk_requests [OF refl, where s = s and bdev = 1 and dev = "\<lambda>_ _. 8" and blk = 5 and buf = "0x1000" and m = ?m and r = r]
  have "\<forall>l. (8 :: u32) AND 0x88 = 0x08" by simp
  then obtain m' s' where run: "ata_rw_blk (\<lambda>_ _. 8) 1 0 5 0x1000 (?m, s) = Some ((m', s'), 0)" using t by fastforce
  then obtain io where io: "io_log s' = io_log s @ io"
    "snd (ata_seen (ucast (cmd_bar (chans s (abd_chan (ata_bdevs s 1))))) io (r, [])) =
      map (\<lambda>i. (True, ucast (abd_drvsel (ata_bdevs s 1)) \<noteq> (0 :: u8), 1, ucast (5 + of_nat i :: u64) AND 0x0fffffff)) [0..<2]"
    using t by (fastforce simp: demo_disk_def)
  have "map (\<lambda>q. snd (snd (snd q))) (map (\<lambda>i. (True, ucast (abd_drvsel (ata_bdevs s 1)) \<noteq> (0 :: u8), 1 :: u8, ucast (5 + of_nat i :: u64) AND 0x0fffffff :: u32)) [0..<2]) = [5, 6]"
    by (simp add: upt_rec)
  then show "\<exists>m' s' io. ata_rw_blk (\<lambda>_ _. 8) 1 0 5 0x1000 (?m, s) = Some ((m', s'), 0) \<and> io_log s' = io_log s @ io \<and>
     map (\<lambda>q. snd (snd (snd q))) (snd (ata_seen (ucast (cmd_bar (chans s (abd_chan (ata_bdevs s 1))))) io (r, []))) = [5, 6]"
    using run io by metis
qed

text \<open>A write request is a read: the direction is not looked at.\<close>

lemma ata_write_reads: "ata_rw_blk dev bdev 1 blk buf ms = ata_rw_blk dev bdev 0 blk buf ms"
  by (simp add: ata_rw_blk_def)

text \<open>When there is no memory for the name the structure is freed but its address is still returned.\<close>

lemma ata_new_blkdev_freed:
  assumes "kmalloc sizeof_ata_blkdev m = Some (m1, p)" "p \<noteq> NULL" "kmalloc ATA_MAX_BLKNAME m1 = Some (m2, NULL)"
    "kfree p (upd_blkdev p (\<lambda>b. b\<lparr>bd_name := NULL\<rparr>) m2) = Some m3"
  shows "ata_new_blkdev img dev chan n d (m, s) = Some ((m3, s), p)"
  using assms by (simp add: ata_new_blkdev_def)

end
