(* ===== verification/Spec2Isabelle.thy ===== *)
theory Spec2Isabelle
  imports RBErase Console Dma Timer Keyboard Ata
begin

text \<open>
  Verification of the ScaraOS kernel.
\<close>

end
